(* ===== verification/Prelude.thy ===== *)
theory Prelude
  imports Main "HOL-Library.Word" "HOL-Library.Char_ord" "HOL-Library.List_Lexorder"
begin

text \<open>
  What the components share: 64-bit signed integers with their wrap-around, bytes and
  big-endian byte strings, three-way comparison, the type of fallible operations on a state
  with its sequencing, and collecting a list of results. Rust strings are UTF-8, and a
  \<^typ>\<open>char\<close> of HOL is one byte: a \<^typ>\<open>string\<close> here is the list of the
  bytes of a Rust string, and \<open><\<close> on strings (imported from the library's lexicographic order)
  is the bytewise order of Rust's \<open>Ord for str\<close>.
\<close>

named_theorems op_simps \<open>evaluation of sequenced operations\<close>
named_theorems keeps_intros \<open>operations that keep a state predicate\<close>

section \<open>Machine integers\<close>

type_synonym i64 = int
type_synonym u8 = "8 word"

text \<open>Rust's \<open>i64\<close>: the values, and the wrap-around of a release build.\<close>

definition is_i64 :: "int \<Rightarrow> bool" where
  "is_i64 x \<longleftrightarrow> - 9223372036854775808 \<le> x \<and> x \<le> 9223372036854775807"

definition i64_max :: int where
  "i64_max = 9223372036854775807"

definition i64_wrap :: "int \<Rightarrow> i64" where
  "i64_wrap x = (x + 9223372036854775808) mod 18446744073709551616 - 9223372036854775808"

lemma i64_wrap_range [simp]: "is_i64 (i64_wrap x)"
proof -
  have "0 \<le> (x + 9223372036854775808) mod 18446744073709551616"
    and "(x + 9223372036854775808) mod 18446744073709551616 < 18446744073709551616"
    by simp_all
  then show ?thesis by (simp add: is_i64_def i64_wrap_def)
qed

lemma i64_wrap_id [simp]: "is_i64 x \<Longrightarrow> i64_wrap x = x"
  by (simp add: is_i64_def i64_wrap_def)

text \<open>The eight bytes of \<open>i64::to_be_bytes\<close>: two's complement, most significant first.\<close>

definition i64_to_be_bytes :: "i64 \<Rightarrow> u8 list" where
  "i64_to_be_bytes x = map (\<lambda>k. word_of_int (x div 256 ^ k)) [7, 6, 5, 4, 3, 2, 1, 0]"

lemma length_i64_to_be_bytes [simp]: "length (i64_to_be_bytes x) = 8"
  by (simp add: i64_to_be_bytes_def)

lemma mod_256_power_eq:
  fixes x y :: int
  assumes "\<forall>k < n. (x div 256 ^ k) mod 256 = (y div 256 ^ k) mod 256"
  shows "x mod 256 ^ n = y mod 256 ^ n"
  using assms
proof (induction n)
  case 0
  then show ?case by simp
next
  case (Suc n)
  have split: "z mod 256 ^ Suc n = 256 ^ n * (z div 256 ^ n mod 256) + z mod 256 ^ n" for z :: int
    using zmod_zmult2_eq [of 256 z "256 ^ n"] by (simp add: mult.commute)
  from Suc have "x mod 256 ^ n = y mod 256 ^ n" by simp
  moreover from Suc.prems have "x div 256 ^ n mod 256 = y div 256 ^ n mod 256" by simp
  ultimately show ?case by (simp only: split)
qed

lemma word8_of_int_eq_iff: "(word_of_int a :: u8) = word_of_int b \<longleftrightarrow> a mod 256 = b mod 256"
  by (simp add: word_of_int_eq_iff take_bit_eq_mod)

lemma i64_to_be_bytes_inj:
  assumes "is_i64 x" "is_i64 y" "i64_to_be_bytes x = i64_to_be_bytes y"
  shows "x = y"
proof -
  have all: "\<forall>k < 8. (x div 256 ^ k) mod 256 = (y div 256 ^ k) mod 256"
  proof (intro allI impI)
    fix k :: nat
    assume "k < 8"
    then have "k \<in> set [7, 6, 5, 4, 3, 2, 1, 0]" by auto
    moreover have "\<forall>k \<in> set [7, 6, 5, 4, 3, 2, 1, 0]. (word_of_int (x div 256 ^ k) :: u8) = word_of_int (y div 256 ^ k)"
      using assms(3) by (simp only: i64_to_be_bytes_def map_eq_conv)
    ultimately show "(x div 256 ^ k) mod 256 = (y div 256 ^ k) mod 256"
      by (simp only: word8_of_int_eq_iff)
  qed
  then have "x mod 256 ^ 8 = y mod 256 ^ 8" by (rule mod_256_power_eq)
  then have "18446744073709551616 dvd x - y" by (simp add: mod_eq_dvd_iff)
  then obtain q where "x - y = 18446744073709551616 * q" by (rule dvdE)
  moreover from this assms(1,2) have "q < 1" "- 1 < q" by (simp_all add: is_i64_def)
  ultimately show ?thesis by simp
qed

section \<open>Bytes of a string\<close>

definition as_bytes :: "string \<Rightarrow> u8 list" where
  "as_bytes s = map (\<lambda>c. word_of_nat (of_char c)) s"

lemma as_bytes_simps [simp]:
  "as_bytes [] = []"
  "as_bytes (c # s) = word_of_nat (of_char c) # as_bytes s"
  "as_bytes (s @ t) = as_bytes s @ as_bytes t"
  "length (as_bytes s) = length s"
  by (simp_all add: as_bytes_def)

lemma unat_byte_of_char: "unat (word_of_nat (of_char c) :: u8) = of_char c"
proof -
  have "(of_char c :: nat) < 256" by (rule nat_of_char_less_256)
  then show ?thesis by (simp add: unat_of_nat)
qed

lemma byte_of_char_inj: "(word_of_nat (of_char c) :: u8) = word_of_nat (of_char d) \<Longrightarrow> c = d"
  by (metis unat_byte_of_char of_char_eq_iff)

lemma as_bytes_inj [simp]: "as_bytes s = as_bytes t \<longleftrightarrow> s = t"
  by (auto simp: as_bytes_def inj_map_eq_map injI byte_of_char_inj)

section \<open>Three-way comparison\<close>

datatype ordering = Less | Equal | Greater

definition cmp :: "'a::linorder \<Rightarrow> 'a \<Rightarrow> ordering" where
  "cmp a b = (if a < b then Less else if a = b then Equal else Greater)"

section \<open>Fallible operations on a state\<close>

text \<open>
  An operation takes a state and returns an error or a value, with the state after it: a
  failing operation may already have changed the state, as a handler that commits one write
  and fails on the next does. \<open>bind_op\<close> is the source's \<open>?\<close> operator.
\<close>

type_synonym ('e, 's, 'a) op = "'s \<Rightarrow> ('e + 'a) \<times> 's"

definition ok_op :: "'a \<Rightarrow> ('e, 's, 'a) op" where
  "ok_op x s = (Inr x, s)"

definition err_op :: "'e \<Rightarrow> ('e, 's, 'a) op" where
  "err_op e s = (Inl e, s)"

definition bind_op :: "('e, 's, 'a) op \<Rightarrow> ('a \<Rightarrow> ('e, 's, 'b) op) \<Rightarrow> ('e, 's, 'b) op" where
  "bind_op f g s = (case f s of (Inl e, s') \<Rightarrow> (Inl e, s') | (Inr x, s') \<Rightarrow> g x s')"

text \<open>\<open>ok_or(e)?\<close> on an optional value, and the lifting of a result that needs no state.\<close>

definition ok_or :: "'e \<Rightarrow> 'a option \<Rightarrow> ('e, 's, 'a) op" where
  "ok_or e v = (case v of None \<Rightarrow> err_op e | Some x \<Rightarrow> ok_op x)"

definition lift_result :: "'e + 'a \<Rightarrow> ('e, 's, 'a) op" where
  "lift_result r s = (r, s)"

lemmas op_defs [op_simps] = ok_op_def err_op_def bind_op_def ok_or_def lift_result_def

lemma bind_op_Inr:
  "bind_op f g s = (Inr y, t) \<longleftrightarrow> (\<exists>x s'. f s = (Inr x, s') \<and> g x s' = (Inr y, t))"
  by (auto simp: bind_op_def split: prod.splits sum.splits)

lemma bind_op_eqs [op_simps]:
  "f s = (Inl e, s') \<Longrightarrow> bind_op f g s = (Inl e, s')"
  "f s = (Inr x, s') \<Longrightarrow> bind_op f g s = g x s'"
  by (simp_all add: bind_op_def)

lemma ok_op_eq [simp]: "ok_op x s = (r, t) \<longleftrightarrow> r = Inr x \<and> t = s"
  by (auto simp: ok_op_def)

lemma err_op_eq [simp]: "err_op e s = (r, t) \<longleftrightarrow> r = Inl e \<and> t = s"
  by (auto simp: err_op_def)

text \<open>An operation keeps a predicate when it holds after it, failed or not.\<close>

definition keeps :: "('s \<Rightarrow> bool) \<Rightarrow> ('e, 's, 'a) op \<Rightarrow> bool" where
  "keeps P f \<longleftrightarrow> (\<forall>s. P s \<longrightarrow> P (snd (f s)))"

lemma keepsI: "(\<And>s. P s \<Longrightarrow> P (snd (f s))) \<Longrightarrow> keeps P f"
  by (simp add: keeps_def)

lemma keepsD: "keeps P f \<Longrightarrow> P s \<Longrightarrow> P (snd (f s))"
  by (simp add: keeps_def)

lemma keepsD': "keeps P f \<Longrightarrow> P s \<Longrightarrow> f s = (r, t) \<Longrightarrow> P t"
  by (metis keeps_def snd_conv)

lemma keeps_ok [keeps_intros]: "keeps P (ok_op x)"
  by (simp add: keeps_def ok_op_def)

lemma keeps_err [keeps_intros]: "keeps P (err_op e)"
  by (simp add: keeps_def err_op_def)

lemma keeps_lift [keeps_intros]: "keeps P (lift_result r)"
  by (simp add: keeps_def lift_result_def)

lemma keeps_ok_or [keeps_intros]: "keeps P (ok_or e v)"
  by (cases v) (simp_all add: ok_or_def keeps_ok keeps_err)

lemma keeps_bind [keeps_intros]:
  assumes "keeps P f" "\<And>x. keeps P (g x)"
  shows "keeps P (bind_op f g)"
proof (rule keepsI)
  fix s
  assume "P s"
  obtain r s' where f: "f s = (r, s')" by (cases "f s")
  with assms(1) \<open>P s\<close> have "P s'" by (rule keepsD')
  then show "P (snd (bind_op f g s))"
    using assms(2) by (cases r) (simp_all add: f bind_op_def keepsD)
qed

lemma keeps_if [keeps_intros]:
  "keeps P f \<Longrightarrow> keeps P g \<Longrightarrow> keeps P (if b then f else g)"
  by simp

lemma keeps_case_option [keeps_intros]:
  "keeps P f \<Longrightarrow> (\<And>x. keeps P (g x)) \<Longrightarrow> keeps P (case v of None \<Rightarrow> f | Some x \<Rightarrow> g x)"
  by (cases v) simp_all

section \<open>Collecting results\<close>

text \<open>\<open>iter.collect::<Result<Vec<_>>>()\<close>: the first error, or all the values.\<close>

fun collect_results :: "('e + 'a) list \<Rightarrow> 'e + 'a list" where
  "collect_results [] = Inr []"
| "collect_results (r # rs) =
     (case r of Inl e \<Rightarrow> Inl e
      | Inr x \<Rightarrow> (case collect_results rs of Inl e \<Rightarrow> Inl e | Inr xs \<Rightarrow> Inr (x # xs)))"

lemma collect_results_Inr: "collect_results rs = Inr xs \<longleftrightarrow> rs = map Inr xs"
proof
  show "collect_results rs = Inr xs \<Longrightarrow> rs = map Inr xs"
    by (induction rs arbitrary: xs) (auto split: sum.splits)
  show "rs = map Inr xs \<Longrightarrow> collect_results rs = Inr xs"
    by (induction xs arbitrary: rs) auto
qed

lemma collect_results_map_Inr [simp]: "collect_results (map (\<lambda>x. Inr (f x)) xs) = Inr (map f xs)"
  by (induction xs) simp_all

lemma collect_results_cong:
  "(\<And>x. x \<in> set xs \<Longrightarrow> f x = Inr (g x)) \<Longrightarrow> collect_results (map f xs) = Inr (map g xs)"
  by (induction xs) simp_all

section \<open>Sorted lists\<close>

lemma sorted_key_unique:
  assumes "sorted (map f xs)" "distinct (map f xs)" "sorted (map f ys)" "distinct (map f ys)"
    and "set xs = set ys"
  shows "xs = ys"
proof -
  have "map f xs = map f ys"
    using assms by (intro sorted_distinct_set_unique) simp_all
  moreover have "inj_on f (set xs)" using assms(2) by (simp add: distinct_map)
  ultimately show ?thesis using assms(5) by (simp add: inj_on_map_eq_map)
qed

lemma sorted_key_last: "sorted (map f xs) \<Longrightarrow> x \<in> set xs \<Longrightarrow> f x \<le> f (last xs)"
  by (induction xs) auto

end
