(* ===== verification/Sql_Table.thy ===== *)
theory Sql_Table
  imports Prelude
begin

text \<open>
  Tables of a relational database as lists of rows with a unique key: the lookup by key, the
  \<open>INSERT ... ON CONFLICT(key) DO UPDATE SET ... WHERE ... RETURNING\<close> of the two dialects the
  server uses, and \<open>DELETE ... RETURNING\<close>. The order of the list is the order an unordered scan
  returns the rows in, which SQL leaves open. The locale \<open>keyed_table\<close> is the contract of a
  conflict clause that does not touch the key; every table of the schema interprets it.
\<close>

section \<open>Statements\<close>

definition row_at :: "('r \<Rightarrow> 'k) \<Rightarrow> 'k \<Rightarrow> 'r list \<Rightarrow> 'r option" where
  "row_at key k rows = find (\<lambda>r. key r = k) rows"

text \<open>\<open>upd old new\<close> is the row the conflict clause writes, or \<open>None\<close> where its
  \<open>WHERE\<close> is false; the second component is what \<open>RETURNING\<close> yields.\<close>

definition upsert ::
  "('r \<Rightarrow> 'k) \<Rightarrow> ('r \<Rightarrow> 'r \<Rightarrow> 'r option) \<Rightarrow> 'r \<Rightarrow> 'r list \<Rightarrow> 'r list \<times> 'r option" where
  "upsert key upd new rows =
     (case row_at key (key new) rows of
        None \<Rightarrow> (rows @ [new], Some new)
      | Some old \<Rightarrow>
          (case upd old new of
             None \<Rightarrow> (rows, None)
           | Some r \<Rightarrow> (map (\<lambda>x. if key x = key new then r else x) rows, Some r)))"

definition delete_returning :: "('r \<Rightarrow> bool) \<Rightarrow> 'r list \<Rightarrow> 'r list \<times> 'r option" where
  "delete_returning p rows = (filter (\<lambda>r. \<not> p r) rows, find p rows)"

section \<open>Lookup\<close>

lemma row_at_None: "row_at key k rows = None \<longleftrightarrow> k \<notin> key ` set rows"
  by (auto simp: row_at_def find_None_iff)

lemma row_at_Some: "row_at key k rows = Some r \<Longrightarrow> r \<in> set rows \<and> key r = k"
  by (auto simp: row_at_def find_Some_iff)

lemma row_at_key: "row_at key k rows = Some r \<Longrightarrow> k \<in> key ` set rows"
  using row_at_Some by fastforce

lemma row_at_in:
  "distinct (map key rows) \<Longrightarrow> row_at key k rows = Some r \<longleftrightarrow> r \<in> set rows \<and> key r = k"
proof (induction rows)
  case Nil
  then show ?case by (simp add: row_at_def)
next
  case (Cons x rows)
  then show ?case by (force simp: row_at_def)
qed

lemma row_at_Nil [simp]: "row_at key k [] = None"
  by (simp add: row_at_def)

lemma row_at_Cons [simp]:
  "row_at key k (r # rows) = (if key r = k then Some r else row_at key k rows)"
  by (simp add: row_at_def)

lemma row_at_append:
  "row_at key k (xs @ ys) = (case row_at key k xs of None \<Rightarrow> row_at key k ys | Some r \<Rightarrow> Some r)"
  by (induction xs) auto

lemma row_at_filter_keep:
  "(\<And>r. r \<in> set rows \<Longrightarrow> key r = k \<Longrightarrow> p r) \<Longrightarrow> row_at key k (filter p rows) = row_at key k rows"
  by (induction rows) auto

lemma distinct_map_filter_key: "distinct (map key rows) \<Longrightarrow> distinct (map key (filter p rows))"
  by (simp add: distinct_map_filter)

section \<open>Upserts\<close>

lemma upsert_returns:
  "snd (upsert key upd new rows) =
     (case row_at key (key new) rows of None \<Rightarrow> Some new | Some old \<Rightarrow> upd old new)"
  by (simp add: upsert_def split: option.splits)

lemma upsert_kept: "snd (upsert key upd new rows) = None \<Longrightarrow> fst (upsert key upd new rows) = rows"
  by (simp add: upsert_def split: option.splits)

lemma upsert_cases:
  obtains (inserted) "row_at key (key new) rows = None" "upsert key upd new rows = (rows @ [new], Some new)"
  | (kept) old where "row_at key (key new) rows = Some old" "upd old new = None"
      "upsert key upd new rows = (rows, None)"
  | (updated) old r where "row_at key (key new) rows = Some old" "upd old new = Some r"
      "upsert key upd new rows = (map (\<lambda>x. if key x = key new then r else x) rows, Some r)"
  by (cases "row_at key (key new) rows"; cases "upd (the (row_at key (key new) rows)) new")
    (simp_all add: upsert_def)

lemma upsert_returned: "snd (upsert key upd new rows) = Some r \<Longrightarrow> r \<in> set (fst (upsert key upd new rows))"
  by (cases rule: upsert_cases [of key new rows upd]) (auto dest: row_at_Some)

lemma set_upsertD:
  assumes "r \<in> set (fst (upsert key upd new rows))"
  shows "r \<in> set rows \<and> (key r \<noteq> key new \<or> snd (upsert key upd new rows) = None) \<or>
     snd (upsert key upd new rows) = Some r"
proof (cases rule: upsert_cases [of key new rows upd])
  case inserted
  then have "r \<in> set rows \<Longrightarrow> key r \<noteq> key new" unfolding row_at_None by (metis imageI)
  with inserted assms show ?thesis by auto
next
  case (kept old)
  with assms show ?thesis by simp
next
  case (updated old r')
  with assms show ?thesis by auto
qed

text \<open>Every row that is new is one that may be written, and no row goes but for one of those with its key.\<close>

definition rows_added :: "('r \<Rightarrow> 'k) \<Rightarrow> ('r \<Rightarrow> bool) \<Rightarrow> 'r list \<Rightarrow> 'r list \<Rightarrow> bool" where
  "rows_added key may xs ys \<longleftrightarrow> (\<forall>y \<in> set ys. y \<in> set xs \<or> may y) \<and>
     (\<forall>x \<in> set xs. x \<in> set ys \<or> (\<exists>y \<in> set ys. key y = key x \<and> may y))"

lemma rows_added_same [simp]: "rows_added key may xs xs"
  by (simp add: rows_added_def)

locale keyed_table =
  fixes key :: "'r \<Rightarrow> 'k" and upd :: "'r \<Rightarrow> 'r \<Rightarrow> 'r option"
  assumes upd_key: "key old = key new \<Longrightarrow> upd old new = Some r \<Longrightarrow> key r = key new"
begin

lemma returned_key: "snd (upsert key upd new rows) = Some r \<Longrightarrow> key r = key new"
  by (auto simp: upsert_returns split: option.splits dest: row_at_Some upd_key)

lemma keys: "map key (fst (upsert key upd new rows)) =
    (if key new \<in> key ` set rows then map key rows else map key rows @ [key new])"
proof (cases rule: upsert_cases [of key new rows upd])
  case inserted
  then show ?thesis by (simp add: row_at_None)
next
  case (kept old)
  then show ?thesis using row_at_key by fastforce
next
  case (updated old r)
  then have "key r = key new" using row_at_Some upd_key by metis
  moreover from updated(1) have "key new \<in> key ` set rows" by (rule row_at_key)
  ultimately show ?thesis using updated(3) by simp
qed

lemma rows_elsewhere:
  assumes "key r \<noteq> key new"
  shows "r \<in> set (fst (upsert key upd new rows)) \<longleftrightarrow> r \<in> set rows"
proof (cases rule: upsert_cases [of key new rows upd])
  case inserted
  with assms show ?thesis by auto
next
  case (kept old)
  then show ?thesis by simp
next
  case (updated old r')
  then have "key r' = key new" using row_at_Some upd_key by metis
  with assms updated(3) show ?thesis by (auto simp: image_iff)
qed

lemma upsert_adds:
  assumes "\<And>r. snd (upsert key upd new rows) = Some r \<Longrightarrow> may r"
  shows "rows_added key may rows (fst (upsert key upd new rows))"
  unfolding rows_added_def
proof (intro conjI ballI)
  fix y
  assume "y \<in> set (fst (upsert key upd new rows))"
  then show "y \<in> set rows \<or> may y" using set_upsertD assms by metis
next
  fix x
  assume x: "x \<in> set rows"
  show "x \<in> set (fst (upsert key upd new rows)) \<or> (\<exists>y \<in> set (fst (upsert key upd new rows)). key y = key x \<and> may y)"
  proof (cases "snd (upsert key upd new rows)")
    case None
    with x show ?thesis by (simp add: upsert_kept)
  next
    case (Some r)
    with x upsert_returned [OF Some] returned_key [OF Some] assms [OF Some] rows_elsewhere [of x new rows] show ?thesis
      by metis
  qed
qed

lemma distinct_keys:
  "distinct (map key rows) \<Longrightarrow> distinct (map key (fst (upsert key upd new rows)))"
  by (simp add: keys)

lemma row_at_same:
  "row_at key (key new) (fst (upsert key upd new rows)) =
     (case snd (upsert key upd new rows) of None \<Rightarrow> row_at key (key new) rows | Some r \<Rightarrow> Some r)"
proof (cases rule: upsert_cases [of key new rows upd])
  case inserted
  then show ?thesis by (simp add: row_at_append)
next
  case (kept old)
  then show ?thesis by simp
next
  case (updated old r)
  then have "key r = key new" using row_at_Some upd_key by metis
  moreover have "row_at key (key new) (map (\<lambda>x. if key x = key new then r else x) rows) = Some r"
    using updated(1) \<open>key r = key new\<close> by (induction rows) (auto split: if_splits)
  ultimately show ?thesis using updated by simp
qed

lemma row_at_other:
  assumes "k \<noteq> key new"
  shows "row_at key k (fst (upsert key upd new rows)) = row_at key k rows"
proof (cases rule: upsert_cases [of key new rows upd])
  case inserted
  with assms show ?thesis by (simp add: row_at_append split: option.splits)
next
  case (kept old)
  then show ?thesis by simp
next
  case (updated old r)
  then have "key r = key new" using row_at_Some upd_key by metis
  with assms have "row_at key k (map (\<lambda>x. if key x = key new then r else x) rows) = row_at key k rows"
    by (induction rows) auto
  with updated show ?thesis by simp
qed

end

end
