(* ===== verification/Rust_Text.thy ===== *)
theory Rust_Text
  imports Prelude
begin

text \<open>
  The operations of Rust's \<open>str\<close> the source uses, on the bytes of a UTF-8 string:
  \<open>trim\<close> (Unicode white space, spelled as its UTF-8 byte sequences), ASCII case
  mapping, \<open>to_lowercase\<close>, \<open>split_once\<close>, \<open>strip_prefix\<close>,
  \<open>replace\<close> of characters by nothing and \<open>rsplit\<close>. Unicode's case tables are not
  part of the source: \<open>to_lowercase\<close> takes the mapping of non-ASCII strings as an
  argument and fixes it on ASCII ones.
\<close>

section \<open>White space and trim\<close>

definition white_space :: "string list" where
  "white_space =
     [[CHR 0x09], [CHR 0x0A], [CHR 0x0B], [CHR 0x0C], [CHR 0x0D], [CHR 0x20],
      [CHR 0xC2, CHR 0x85], [CHR 0xC2, CHR 0xA0], [CHR 0xE1, CHR 0x9A, CHR 0x80],
      [CHR 0xE2, CHR 0x80, CHR 0x80], [CHR 0xE2, CHR 0x80, CHR 0x81],
      [CHR 0xE2, CHR 0x80, CHR 0x82], [CHR 0xE2, CHR 0x80, CHR 0x83],
      [CHR 0xE2, CHR 0x80, CHR 0x84], [CHR 0xE2, CHR 0x80, CHR 0x85],
      [CHR 0xE2, CHR 0x80, CHR 0x86], [CHR 0xE2, CHR 0x80, CHR 0x87],
      [CHR 0xE2, CHR 0x80, CHR 0x88], [CHR 0xE2, CHR 0x80, CHR 0x89],
      [CHR 0xE2, CHR 0x80, CHR 0x8A], [CHR 0xE2, CHR 0x80, CHR 0xA8],
      [CHR 0xE2, CHR 0x80, CHR 0xA9], [CHR 0xE2, CHR 0x80, CHR 0xAF],
      [CHR 0xE2, CHR 0x81, CHR 0x9F], [CHR 0xE3, CHR 0x80, CHR 0x80]]"

definition strip_prefix :: "string \<Rightarrow> string \<Rightarrow> string option" where
  "strip_prefix p s = (if take (length p) s = p then Some (drop (length p) s) else None)"

definition strip_suffix :: "string \<Rightarrow> string \<Rightarrow> string option" where
  "strip_suffix p s = map_option rev (strip_prefix (rev p) (rev s))"

text \<open>One white-space character off the front or off the end of a string, if there is one.\<close>

definition strip_one :: "string list \<Rightarrow> string \<Rightarrow> string option" where
  "strip_one ws s = (case find (\<lambda>w. take (length w) s = w) ws of
     None \<Rightarrow> None | Some w \<Rightarrow> Some (drop (length w) s))"

lemma strip_one_Some: "strip_one ws s = Some t \<Longrightarrow> \<exists>w \<in> set ws. s = w @ t"
  by (auto simp: strip_one_def find_Some_iff split: option.splits)
    (metis append_take_drop_id nth_mem)

lemma strip_one_None: "strip_one ws s = None \<longleftrightarrow> (\<forall>w \<in> set ws. take (length w) s \<noteq> w)"
  by (simp add: strip_one_def find_None_iff split: option.splits)
    (metis (mono_tags, lifting) find_None_iff not_None_eq)

lemma strip_one_shorter:
  "strip_one ws s = Some t \<Longrightarrow> [] \<notin> set ws \<Longrightarrow> length t < length s"
  by (drule strip_one_Some) auto

function trim_front :: "string list \<Rightarrow> string \<Rightarrow> string" where
  "trim_front ws s =
     (if [] \<in> set ws then s
      else case strip_one ws s of None \<Rightarrow> s | Some t \<Rightarrow> trim_front ws t)"
  by pat_completeness auto
termination
  by (relation "measure (\<lambda>(ws, s). length s)") (auto simp: strip_one_shorter)

declare trim_front.simps [simp del]

definition trim_start :: "string \<Rightarrow> string" where
  "trim_start s = trim_front white_space s"

definition trim_end :: "string \<Rightarrow> string" where
  "trim_end s = rev (trim_front (map rev white_space) (rev s))"

definition trim :: "string \<Rightarrow> string" where
  "trim s = trim_end (trim_start s)"

section \<open>Case\<close>

definition ascii_lower :: "char \<Rightarrow> char" where
  "ascii_lower c = (if CHR ''A'' \<le> c \<and> c \<le> CHR ''Z'' then char_of ((of_char c :: nat) + 32) else c)"

definition ascii_upper :: "char \<Rightarrow> char" where
  "ascii_upper c = (if CHR ''a'' \<le> c \<and> c \<le> CHR ''z'' then char_of ((of_char c :: nat) - 32) else c)"

definition to_ascii_lowercase :: "string \<Rightarrow> string" where
  "to_ascii_lowercase s = map ascii_lower s"

definition to_ascii_uppercase :: "string \<Rightarrow> string" where
  "to_ascii_uppercase s = map ascii_upper s"

definition is_ascii :: "string \<Rightarrow> bool" where
  "is_ascii s \<longleftrightarrow> list_all (\<lambda>c. c < CHR 0x80) s"

definition to_lowercase :: "(string \<Rightarrow> string) \<Rightarrow> string \<Rightarrow> string" where
  "to_lowercase uni s = (if is_ascii s then to_ascii_lowercase s else uni s)"

section \<open>Splitting\<close>

fun split_once :: "char \<Rightarrow> string \<Rightarrow> (string \<times> string) option" where
  "split_once d [] = None"
| "split_once d (c # s) =
     (if c = d then Some ([], s)
      else case split_once d s of None \<Rightarrow> None | Some (a, b) \<Rightarrow> Some (c # a, b))"

definition remove_chars :: "char list \<Rightarrow> string \<Rightarrow> string" where
  "remove_chars cs s = filter (\<lambda>c. c \<notin> set cs) s"

definition after_last :: "char \<Rightarrow> string \<Rightarrow> string" where
  "after_last d s = rev (takeWhile (\<lambda>c. c \<noteq> d) (rev s))"

lemma split_once_append: "d \<notin> set a \<Longrightarrow> split_once d (a @ d # b) = Some (a, b)"
  by (induction a) auto

lemma split_once_None: "split_once d s = None \<longleftrightarrow> d \<notin> set s"
  by (induction s) (auto split: option.splits)

lemma split_once_Some: "split_once d s = Some (a, b) \<Longrightarrow> s = a @ d # b \<and> d \<notin> set a"
  by (induction s arbitrary: a b) (auto split: option.splits if_splits)

lemma strip_prefix_append [simp]: "strip_prefix p (p @ s) = Some s"
  by (simp add: strip_prefix_def)

lemma strip_prefix_Some: "strip_prefix p s = Some t \<longleftrightarrow> s = p @ t"
  by (auto simp: strip_prefix_def) (metis append_take_drop_id)

section \<open>Case mapping lemmas\<close>

lemma char_le_iff: "c \<le> d \<longleftrightarrow> (of_char c :: nat) \<le> of_char d"
  by (simp add: less_eq_char_def)

lemma char_less_iff: "c < d \<longleftrightarrow> (of_char c :: nat) < of_char d"
  by (simp add: less_char_def)

lemma of_char_ascii_lower:
  "(of_char (ascii_lower c) :: nat) =
     (if 65 \<le> (of_char c :: nat) \<and> (of_char c :: nat) \<le> 90 then of_char c + 32 else of_char c)"
  by (simp add: ascii_lower_def char_le_iff)

lemma of_char_ascii_upper:
  "(of_char (ascii_upper c) :: nat) =
     (if 97 \<le> (of_char c :: nat) \<and> (of_char c :: nat) \<le> 122 then of_char c - 32 else of_char c)"
  using nat_of_char_less_256 [of c] by (auto simp: ascii_upper_def char_le_iff)

lemma char_eq_nat: "c = d \<longleftrightarrow> (of_char c :: nat) = of_char d"
  by simp

lemma ascii_lower_idem [simp]: "ascii_lower (ascii_lower c) = ascii_lower c"
  by (simp only: char_eq_nat of_char_ascii_lower) simp

lemma ascii_upper_lower [simp]: "ascii_upper (ascii_lower c) = ascii_upper c"
  by (simp only: char_eq_nat of_char_ascii_lower of_char_ascii_upper) simp

lemma ascii_lower_upper [simp]: "ascii_lower (ascii_upper c) = ascii_lower c"
  by (simp only: char_eq_nat of_char_ascii_lower of_char_ascii_upper) auto

lemma to_ascii_lowercase_idem [simp]: "to_ascii_lowercase (to_ascii_lowercase s) = to_ascii_lowercase s"
  by (simp add: to_ascii_lowercase_def)

lemma to_ascii_lowercase_append [simp]:
  "to_ascii_lowercase (s @ t) = to_ascii_lowercase s @ to_ascii_lowercase t"
  by (simp add: to_ascii_lowercase_def)

lemma is_ascii_lower [simp]: "is_ascii (to_ascii_lowercase s) = is_ascii s"
  by (auto simp: is_ascii_def to_ascii_lowercase_def list_all_iff char_less_iff of_char_ascii_lower)

section \<open>Trimming lemmas\<close>

text \<open>
  White-space characters are recognised at the front of a string whatever follows them, since no
  one of them is a prefix of another, and no one of them starts with a byte that continues
  another, since UTF-8 continuation bytes are not leading bytes.
\<close>

definition prefix_free :: "string list \<Rightarrow> bool" where
  "prefix_free ws \<longleftrightarrow> (\<forall>v \<in> set ws. \<forall>w \<in> set ws. take (length v) w = take (length w) v \<longrightarrow> v = w)"

definition no_straddle :: "string list \<Rightarrow> bool" where
  "no_straddle ws \<longleftrightarrow> (\<forall>v \<in> set ws. \<forall>w \<in> set ws. hd w \<notin> set (tl v))"

lemma white_space_props [simp]:
  "[] \<notin> set white_space"
  "[] \<notin> set (map rev white_space)"
  "prefix_free white_space"
  "prefix_free (map rev white_space)"
  "no_straddle white_space"
  by code_simp+

lemma strip_one_append:
  assumes "prefix_free ws" "w \<in> set ws"
  shows "strip_one ws (w @ s) = Some s"
proof -
  have "take (length w) (w @ s) = w" by simp
  with assms(2) have "strip_one ws (w @ s) \<noteq> None"
    unfolding strip_one_None by blast
  then obtain t where t: "strip_one ws (w @ s) = Some t" by blast
  then obtain v where v: "v \<in> set ws" "w @ s = v @ t" using strip_one_Some by blast
  then have "take (length v) w = take (length w) v"
    by (auto simp: append_eq_append_conv2)
  with assms v have "v = w" by (auto simp: prefix_free_def)
  with v t show ?thesis by simp
qed

lemma trim_front_append:
  assumes "prefix_free ws" "[] \<notin> set ws" "set us \<subseteq> set ws"
  shows "trim_front ws (concat us @ s) = trim_front ws s"
  using assms(3)
  by (induction us) (simp_all add: trim_front.simps [of ws "_ @ _"] strip_one_append assms(1,2))

lemma trim_front_strip:
  "strip_one ws s = Some t \<Longrightarrow> [] \<notin> set ws \<Longrightarrow> trim_front ws s = trim_front ws t"
  by (simp add: trim_front.simps [of ws s])

lemma trim_front_stop: "strip_one ws s = None \<Longrightarrow> trim_front ws s = s"
  by (simp add: trim_front.simps [of ws s])

lemma strip_one_straddle:
  assumes "no_straddle ws" "[] \<notin> set ws" "strip_one ws s = None" "s \<noteq> []" "w \<in> set ws"
  shows "strip_one ws (s @ w @ r) = None"
proof (rule ccontr)
  assume "strip_one ws (s @ w @ r) \<noteq> None"
  then obtain v where v: "v \<in> set ws" "take (length v) (s @ w @ r) = v"
    by (auto simp: strip_one_None)
  show False
  proof (cases "length v \<le> length s")
    case True
    with v have "take (length v) s = v" by simp
    with v(1) assms(3) show False by (auto simp: strip_one_None)
  next
    case False
    with v(2) have "v = s @ take (length v - length s) (w @ r)" by (metis nle_le take_all take_append)
    moreover from False have "length v - length s \<noteq> 0" by simp
    moreover have "w \<noteq> []" using assms(2,5) by auto
    ultimately have "\<exists>q. v = s @ hd w # q"
      by (metis append_Cons gr0_conv_Suc list.exhaust_sel neq0_conv take_Suc_Cons)
    with assms(4) have "hd w \<in> set (tl v)" by (cases s) auto
    with assms(1,5) v(1) show False by (auto simp: no_straddle_def)
  qed
qed

lemma trim_front_snoc:
  assumes "no_straddle ws" "[] \<notin> set ws" "prefix_free ws" "w \<in> set ws"
  shows "trim_front ws (s @ w) = (if trim_front ws s = [] then [] else trim_front ws s @ w)"
proof (induction "length s" arbitrary: s rule: less_induct)
  case less
  show ?case
  proof (cases "strip_one ws s")
    case None
    have stop: "trim_front ws s = s" using None by (rule trim_front_stop)
    show ?thesis
    proof (cases "s = []")
      case True
      have "trim_front ws (w @ []) = trim_front ws []"
        using assms by (intro trim_front_strip strip_one_append) simp_all
      with True stop show ?thesis by simp
    next
      case False
      from strip_one_straddle [OF assms(1,2) None False assms(4), of "[]"]
      have "trim_front ws (s @ w) = s @ w" by (simp add: trim_front_stop)
      with False stop show ?thesis by simp
    qed
  next
    case (Some t)
    then obtain v where v: "v \<in> set ws" "s = v @ t" using strip_one_Some by blast
    have "length t < length s" using Some assms(2) by (rule strip_one_shorter)
    from less [OF this] show ?thesis
      using v assms(2,3) by (simp add: trim_front_strip [OF strip_one_append])
  qed
qed

lemma trim_pad_left: "set us \<subseteq> set white_space \<Longrightarrow> trim (concat us @ s) = trim s"
  by (simp add: trim_def trim_start_def trim_front_append)

lemma trim_end_snoc: "w \<in> set white_space \<Longrightarrow> trim_end (s @ w) = trim_end s"
  using trim_front_append [OF white_space_props(4,2), of "[rev w]" "rev s"]
  by (simp add: trim_end_def)

lemma trim_end_Nil [simp]: "trim_end [] = []"
  by (simp add: trim_end_def trim_front.simps strip_one_def white_space_def)

lemma trim_pad_right_one: "w \<in> set white_space \<Longrightarrow> trim (s @ w) = trim s"
  by (simp add: trim_def trim_start_def trim_front_snoc trim_end_snoc)

lemma trim_pad_right: "set us \<subseteq> set white_space \<Longrightarrow> trim (s @ concat us) = trim s"
proof (induction us arbitrary: s)
  case Nil
  then show ?case by simp
next
  case (Cons u us)
  from Cons.IH [of "s @ u"] Cons.prems show ?case by (simp add: trim_pad_right_one)
qed

theorem trim_padding:
  assumes "set us \<subseteq> set white_space" "set vs \<subseteq> set white_space"
  shows "trim (concat us @ s @ concat vs) = trim s"
  using assms by (simp add: trim_pad_left trim_pad_right)

text \<open>ASCII case mapping does not touch white space, so it commutes with trimming.\<close>

definition caseless :: "char \<Rightarrow> bool" where
  "caseless c \<longleftrightarrow> \<not> (CHR ''A'' \<le> c \<and> c \<le> CHR ''Z'') \<and> \<not> (CHR ''a'' \<le> c \<and> c \<le> CHR ''z'')"

lemma ascii_lower_caseless: "caseless d \<Longrightarrow> ascii_lower c = d \<longleftrightarrow> c = d"
proof -
  define m n where "m = (of_char d :: nat)" and "n = (of_char c :: nat)"
  assume "caseless d"
  then have m: "\<not> (65 \<le> m \<and> m \<le> 90)" "\<not> (97 \<le> m \<and> m \<le> 122)"
    by (simp_all add: caseless_def char_le_iff m_def)
  have "(of_char (ascii_lower c) :: nat) = m \<longleftrightarrow> n = m"
    unfolding of_char_ascii_lower n_def [symmetric] using m by auto
  then show ?thesis by (simp add: m_def n_def)
qed

lemma to_ascii_lowercase_caseless:
  "list_all caseless w \<Longrightarrow> to_ascii_lowercase s = w \<longleftrightarrow> s = w"
  unfolding to_ascii_lowercase_def
proof (induction s arbitrary: w)
  case Nil
  then show ?case by simp
next
  case (Cons c s)
  then show ?case by (cases w) (simp_all add: ascii_lower_caseless)
qed

lemma white_space_caseless:
  "\<forall>w \<in> set white_space. list_all caseless w"
  "\<forall>w \<in> set (map rev white_space). list_all caseless w"
  by code_simp+

lemma take_to_ascii_lowercase [simp]:
  "take n (to_ascii_lowercase s) = to_ascii_lowercase (take n s)"
  "drop n (to_ascii_lowercase s) = to_ascii_lowercase (drop n s)"
  "rev (to_ascii_lowercase s) = to_ascii_lowercase (rev s)"
  by (simp_all add: to_ascii_lowercase_def take_map drop_map rev_map)

lemma strip_one_lower:
  assumes "\<forall>w \<in> set ws. list_all caseless w"
  shows "strip_one ws (to_ascii_lowercase s) = map_option to_ascii_lowercase (strip_one ws s)"
proof -
  have "find (\<lambda>w. take (length w) (to_ascii_lowercase s) = w) ws = find (\<lambda>w. take (length w) s = w) ws"
    using assms by (intro find_cong) (auto simp: to_ascii_lowercase_caseless)
  then show ?thesis by (simp add: strip_one_def split: option.splits)
qed

lemma trim_front_lower:
  assumes "\<forall>w \<in> set ws. list_all caseless w"
  shows "trim_front ws (to_ascii_lowercase s) = to_ascii_lowercase (trim_front ws s)"
  using assms
proof (induction ws s rule: trim_front.induct)
  case (1 ws s)
  then show ?case
    by (auto simp: trim_front.simps [of ws s] trim_front.simps [of ws "to_ascii_lowercase s"]
        strip_one_lower split: option.splits)
qed

lemma trim_lower: "trim (to_ascii_lowercase s) = to_ascii_lowercase (trim s)"
  by (simp add: trim_def trim_start_def trim_end_def trim_front_lower white_space_caseless)

lemma to_lowercase_ascii [simp]: "is_ascii s \<Longrightarrow> to_lowercase uni s = to_ascii_lowercase s"
  by (simp add: to_lowercase_def)

end
