(* ===== verification/Wire_Record.thy ===== *)
theory Wire_Record
  imports Rust_Text
begin

text \<open>
  \<^verbatim>\<open>crates/remotier-sync-proto/src/record.rs\<close>: record kinds and their stable strings, key
  references and the envelope with its associated data; the payload structs are in
  \<open>Wire_Payload\<close>. Field names carry a prefix (\<open>e_\<close> for \<open>Envelope\<close>), since several structs of the source share field
  names and \<open>id\<close>, \<open>sort\<close> are taken.
\<close>

section \<open>Kinds\<close>

datatype record_kind = Host | Group | Identity | VarDef | Setting | Workspace | DeviceLayout

fun as_str :: "record_kind \<Rightarrow> string" where
  "as_str Host = ''host''"
| "as_str Group = ''group''"
| "as_str Identity = ''identity''"
| "as_str VarDef = ''var_def''"
| "as_str Setting = ''setting''"
| "as_str Workspace = ''workspace''"
| "as_str DeviceLayout = ''device_layout''"

definition parse_kind :: "string \<Rightarrow> record_kind option" where
  "parse_kind s =
     (if s = ''host'' then Some Host
      else if s = ''group'' then Some Group
      else if s = ''identity'' then Some Identity
      else if s = ''var_def'' then Some VarDef
      else if s = ''setting'' then Some Setting
      else if s = ''workspace'' then Some Workspace
      else if s = ''device_layout'' then Some DeviceLayout
      else None)"

lemma parse_kind_as_str [simp]: "parse_kind (as_str k) = Some k"
  by (cases k) (simp_all add: parse_kind_def)

lemma parse_kind_Some: "parse_kind s = Some k \<longleftrightarrow> s = as_str k"
  by (cases k) (auto simp: parse_kind_def)

lemma as_str_inj [simp]: "as_str a = as_str b \<longleftrightarrow> a = b"
  by (metis option.inject parse_kind_as_str)

text \<open>parsing inverts printing of record kinds in both directions: a string parses to a kind
  exactly when it is that kind's stable string, and every other string is refused rather than
  mapped to a default kind.\<close>

theorem kind_strings_round_trip:
  "(parse_kind s = Some k \<longleftrightarrow> s = as_str k) \<and> (parse_kind s = None \<longleftrightarrow> s \<notin> range as_str)"
proof -
  have "parse_kind s = None \<longleftrightarrow> s \<notin> range as_str"
    by (metis image_iff not_None_eq option.distinct(1) parse_kind_Some range_eqI)
  then show ?thesis by (simp add: parse_kind_Some)
qed

section \<open>Key references and envelopes\<close>

datatype key_ref = Personal | GroupKey string

record envelope =
  e_id :: string
  e_kind :: record_kind
  e_key_ref :: key_ref
  e_group_id :: "string option"
  e_parent_id :: "string option"
  e_sort :: i64
  e_updated_at :: i64
  e_device_id :: string
  e_deleted_at :: "i64 option"
  e_nonce :: "u8 list"
  e_ciphertext :: "u8 list"
  e_seq :: i64

definition aad :: "envelope \<Rightarrow> u8 list" where
  "aad e =
     as_bytes (e_id e) @ [0x1f] @
     as_bytes (as_str (e_kind e)) @ [0x1f] @
     i64_to_be_bytes (e_updated_at e) @ [0x1f] @
     as_bytes (e_device_id e)"

definition is_tombstone :: "envelope \<Rightarrow> bool" where
  "is_tombstone e \<longleftrightarrow> e_deleted_at e \<noteq> None"

text \<open>The integer fields of an envelope are \<open>i64\<close>.\<close>

definition envelope_typed :: "envelope \<Rightarrow> bool" where
  "envelope_typed e \<longleftrightarrow> is_i64 (e_sort e) \<and> is_i64 (e_updated_at e) \<and> is_i64 (e_seq e) \<and>
     (case e_deleted_at e of None \<Rightarrow> True | Some d \<Rightarrow> is_i64 d)"

text \<open>The unit separator \<open>0x1f\<close>, which no record id (a uuid) contains.\<close>

definition separator :: char where
  "separator = CHR 0x1F"

lemma separator_byte: "(0x1f :: u8) \<in> set (as_bytes s) \<longleftrightarrow> separator \<in> set s"
proof -
  have "(0x1f :: u8) = word_of_nat (of_char separator)" by (simp add: separator_def)
  then have "(0x1f :: u8) = word_of_nat (of_char c) \<longleftrightarrow> c = separator" for c
    by (metis byte_of_char_inj)
  then show ?thesis by (auto simp: as_bytes_def)
qed

lemma separator_not_in_kind: "separator \<notin> set (as_str k)"
  by (cases k) (simp_all add: separator_def)

lemma split_at_first:
  assumes "x \<notin> set a" "x \<notin> set b" "a @ x # c = b @ x # d"
  shows "a = b \<and> c = d"
  using assms
proof (induction a arbitrary: b)
  case Nil
  then show ?case by (cases b) auto
next
  case (Cons y a)
  then show ?case by (cases b) auto
qed

lemma aad_tail_eq:
  assumes "is_i64 u" "is_i64 v"
    and "i64_to_be_bytes u @ [0x1f] @ as_bytes d = i64_to_be_bytes v @ [0x1f] @ as_bytes d'"
  shows "u = v \<and> d = d'"
  using assms i64_to_be_bytes_inj by auto

lemma aad_identity:
  assumes "separator \<notin> set (e_id a)" "separator \<notin> set (e_id b)"
    and "is_i64 (e_updated_at a)" "is_i64 (e_updated_at b)"
  shows "aad a = aad b \<longleftrightarrow>
     e_id a = e_id b \<and> e_kind a = e_kind b \<and> e_updated_at a = e_updated_at b \<and>
     e_device_id a = e_device_id b"
proof
  assume eq: "aad a = aad b"
  have ids: "(0x1f :: u8) \<notin> set (as_bytes (e_id a))" "(0x1f :: u8) \<notin> set (as_bytes (e_id b))"
    using assms(1,2) by (simp_all add: separator_byte)
  have kinds: "(0x1f :: u8) \<notin> set (as_bytes (as_str k))" for k
    by (simp add: separator_byte separator_not_in_kind)
  from split_at_first [OF ids] eq
  have ids_eq: "as_bytes (e_id a) = as_bytes (e_id b)"
    and rest: "as_bytes (as_str (e_kind a)) @ 0x1f # i64_to_be_bytes (e_updated_at a) @ [0x1f] @ as_bytes (e_device_id a)
       = as_bytes (as_str (e_kind b)) @ 0x1f # i64_to_be_bytes (e_updated_at b) @ [0x1f] @ as_bytes (e_device_id b)"
    unfolding aad_def append_Cons append_Nil by blast+
  from split_at_first [OF kinds kinds rest] aad_tail_eq [OF assms(3,4)] ids_eq
  show "e_id a = e_id b \<and> e_kind a = e_kind b \<and> e_updated_at a = e_updated_at b \<and> e_device_id a = e_device_id b"
    by simp
next
  assume "e_id a = e_id b \<and> e_kind a = e_kind b \<and> e_updated_at a = e_updated_at b \<and> e_device_id a = e_device_id b"
  then show "aad a = aad b" by (simp add: aad_def)
qed

text \<open>for record ids that do not contain the separator byte, the associated data determines the
  record id, the kind, the clock and the writing device, and nothing else: two envelopes have the same
  associated data exactly when they agree on these four fields, so a ciphertext moved to another id,
  kind, clock or device is sealed against different associated data.\<close>

theorem aad_binds_identity:
  assumes "separator \<notin> set (e_id a)" "separator \<notin> set (e_id b)"
    and "is_i64 (e_updated_at a)" "is_i64 (e_updated_at b)"
  shows "aad a = aad b \<longleftrightarrow>
     e_id a = e_id b \<and> e_kind a = e_kind b \<and> e_updated_at a = e_updated_at b \<and>
     e_device_id a = e_device_id b"
  by (rule aad_identity [OF assms])

definition sample_envelope :: envelope where
  "sample_envelope = \<lparr>e_id = ''h1'', e_kind = Host, e_key_ref = Personal, e_group_id = Some ''g1'',
     e_parent_id = None, e_sort = 3, e_updated_at = 1700000000000, e_device_id = ''dev-a'',
     e_deleted_at = None, e_nonce = [1, 2, 3], e_ciphertext = [4, 5, 6], e_seq = 12\<rparr>"

theorem aad_binds_identity_witness:
  "aad sample_envelope \<noteq> aad (sample_envelope\<lparr>e_updated_at := 1700000000001\<rparr>) \<and>
   aad sample_envelope = aad (sample_envelope\<lparr>e_seq := 999, e_sort := 7\<rparr>)"
proof -
  have side: "separator \<notin> set (e_id sample_envelope)" "is_i64 (e_updated_at sample_envelope)"
    "is_i64 1700000000001"
    by (simp_all add: sample_envelope_def separator_def is_i64_def)
  show ?thesis
    using aad_binds_identity [of sample_envelope "sample_envelope\<lparr>e_updated_at := 1700000000001\<rparr>"]
      aad_binds_identity [of sample_envelope "sample_envelope\<lparr>e_seq := 999, e_sort := 7\<rparr>"] side
    by (simp add: sample_envelope_def)
qed

text \<open>the separator condition is needed. Concatenation with a separator byte is not injective on
  arbitrary strings: there are two well-typed envelopes with different ids and different devices
  whose associated data is the same, because the id of one embeds the separator.\<close>

theorem aad_ambiguous_with_separator:
  "\<exists>a b. envelope_typed a \<and> envelope_typed b \<and> e_id a \<noteq> e_id b \<and> e_device_id a \<noteq> e_device_id b \<and>
     aad a = aad b"
proof -
  let ?sep = "[separator]"
  let ?zero = "replicate 8 (CHR 0x00)"
  let ?a = "sample_envelope\<lparr>e_id := ''a'', e_updated_at := 0,
      e_device_id := ''x'' @ ?sep @ ''host'' @ ?sep @ ?zero @ ?sep @ ''d''\<rparr>"
  let ?b = "sample_envelope\<lparr>e_id := ''a'' @ ?sep @ ''host'' @ ?sep @ ?zero @ ?sep @ ''x'',
      e_updated_at := 0, e_device_id := ''d''\<rparr>"
  have "aad ?a = aad ?b"
    by (simp add: aad_def sample_envelope_def i64_to_be_bytes_def separator_def eval_nat_numeral)
  moreover have "envelope_typed ?a \<and> envelope_typed ?b"
    by (simp add: envelope_typed_def sample_envelope_def is_i64_def)
  moreover have "e_id ?a \<noteq> e_id ?b \<and> e_device_id ?a \<noteq> e_device_id ?b"
    by (simp add: separator_def)
  ultimately show ?thesis by blast
qed

section \<open>Encodings the rows of the server use\<close>

text \<open>
  Base64 (crate \<open>base64\<close>), JSON (crate \<open>serde_json\<close>), hexadecimal (crate \<open>hex\<close>) and Unicode's
  case tables are not part of the source: they are arguments, and \<open>codec_ok\<close> is what their
  documentation promises and the server relies on, that decoding inverts encoding. The left
  injections carry the message of a failure.
\<close>

record codec =
  b64_encode :: "u8 list \<Rightarrow> string"
  b64_decode :: "string \<Rightarrow> string + u8 list"
  key_ref_to_json :: "key_ref \<Rightarrow> string + string"
  key_ref_of_json :: "string \<Rightarrow> string + key_ref"
  hex_encode :: "u8 list \<Rightarrow> string"
  unicode_lowercase :: "string \<Rightarrow> string"

text \<open>The byte fields of an envelope, to and from the strings of its JSON (module \<^verbatim>\<open>b64\<close>). The serializer
  writes a string, the deserializer reads one or fails; both are serde's, and arguments.\<close>

definition b64_serialize :: "codec \<Rightarrow> (string \<Rightarrow> 'e + 'j) \<Rightarrow> u8 list \<Rightarrow> 'e + 'j" where
  "b64_serialize cd serialize_str bytes = serialize_str (b64_encode cd bytes)"

definition b64_deserialize :: "codec \<Rightarrow> (string \<Rightarrow> 'e) \<Rightarrow> ('j \<Rightarrow> 'e + string) \<Rightarrow> 'j \<Rightarrow> 'e + u8 list" where
  "b64_deserialize cd custom deserialize_string d =
     (case deserialize_string d of Inl e \<Rightarrow> Inl e | Inr s \<Rightarrow> map_sum custom id (b64_decode cd s))"

definition codec_ok :: "codec \<Rightarrow> bool" where
  "codec_ok cd \<longleftrightarrow> (\<forall>b. b64_decode cd (b64_encode cd b) = Inr b) \<and>
     (\<forall>k. \<exists>j. key_ref_to_json cd k = Inr j \<and> key_ref_of_json cd j = Inr k)"

lemma b64_round_trip:
  assumes "codec_ok cd" "\<And>s. \<exists>j. serialize_str s = Inr j \<and> deserialize_string j = Inr s"
  shows "\<exists>j. b64_serialize cd serialize_str bytes = Inr j \<and> b64_deserialize cd custom deserialize_string j = Inr bytes"
proof -
  from assms(2) obtain j where "serialize_str (b64_encode cd bytes) = Inr j" "deserialize_string j = Inr (b64_encode cd bytes)" by blast
  with assms(1) show ?thesis by (simp add: b64_serialize_def b64_deserialize_def codec_ok_def)
qed

definition sample_codec :: codec where
  "sample_codec = \<lparr>b64_encode = map (\<lambda>w. char_of (unat w)), b64_decode = (\<lambda>s. Inr (as_bytes s)),
     key_ref_to_json = (\<lambda>k. Inr (case k of Personal \<Rightarrow> ''P'' | GroupKey g \<Rightarrow> CHR ''G'' # g)),
     key_ref_of_json = (\<lambda>s. case s of [] \<Rightarrow> Inl ''eof'' | c # g \<Rightarrow>
        (if c = CHR ''P'' then Inr Personal else Inr (GroupKey g))),
     hex_encode = map (\<lambda>w. char_of (unat w)), unicode_lowercase = (\<lambda>s. s)\<rparr>"

lemma sample_codec_ok: "codec_ok sample_codec"
proof -
  have "as_bytes (map (\<lambda>w. char_of (unat w)) b) = b" for b :: "u8 list"
  proof (induction b)
    case Nil
    then show ?case by simp
  next
    case (Cons w b)
    have "unat w < 2 ^ LENGTH(8)" by (rule unsigned_less)
    then have "unat w mod 256 = unat w" by simp
    then have "(word_of_nat (of_char (char_of (unat w) :: char)) :: u8) = w" by simp
    with Cons show ?case by simp
  qed
  then show ?thesis by (auto simp: codec_ok_def sample_codec_def split: key_ref.splits)
qed

end
