(* ===== verification/Wire_Api.thy ===== *)
theory Wire_Api
  imports Wire_Record
begin

text \<open>
  \<^verbatim>\<open>crates/remotier-sync-proto/src/api.rs\<close>: the request and response bodies, one record per
  struct, with a prefix per struct on the field names.
\<close>

record instance_info =
  ii_name :: string
  ii_version :: string
  ii_format_versions :: "nat list"
  ii_registration_open :: bool

record sealed_blob =
  sb_nonce :: string
  sb_ciphertext :: string

record key_material =
  km_account_public :: string
  km_wrapped_account_secret :: sealed_blob
  km_wrapped_personal_key :: sealed_blob

record register_request =
  rr_email :: string
  rr_auth_key :: string
  rr_key_material :: key_material
  rr_recovery_material :: key_material
  rr_recovery_auth_key :: string
  rr_device_id :: string
  rr_device_name :: string

record login_request =
  lr_email :: string
  lr_auth_key :: string
  lr_device_id :: string
  lr_device_name :: string

record recover_request =
  rc_email :: string
  rc_recovery_auth_key :: string
  rc_device_id :: string
  rc_device_name :: string

record rewrap_request =
  rw_auth_key :: string
  rw_key_material :: key_material
  rw_recovery_auth_key :: string
  rw_recovery_material :: key_material

record session =
  ss_account_id :: string
  ss_email :: string
  ss_access_token :: string
  ss_refresh_token :: string
  ss_expires_in :: i64
  ss_key_material :: key_material

record refresh_request =
  rf_refresh_token :: string

record pull_response =
  pr_envelopes :: "envelope list"
  pr_cursor :: i64
  pr_more :: bool

record push_request =
  pq_envelopes :: "envelope list"

datatype reject_reason = ImplausibleClock | NotAMember | Stale | TooLarge

record accepted =
  ac_id :: string
  ac_kind :: string
  ac_seq :: i64

record rejected =
  rj_id :: string
  rj_kind :: string
  rj_reason :: reject_reason

record push_response =
  ps_accepted :: "accepted list"
  ps_rejected :: "rejected list"
  ps_cursor :: i64

record user_lookup =
  ul_user_id :: string
  ul_email :: string
  ul_account_public :: string

record share_request =
  sq_group_id :: string
  sq_user_id :: string
  sq_wrapped_group_key :: string

record share =
  sr_group_id :: string
  sr_owner_id :: string
  sr_user_id :: string
  sr_email :: string
  sr_wrapped_group_key :: string
  sr_created_at :: i64

record device =
  dv_device_id :: string
  dv_name :: string
  dv_last_seen :: i64

record api_error =
  ae_code :: string
  ae_message :: string

end
