(* ===== verification/Server_Error.thy ===== *)
theory Server_Error
  imports Wire_Api
begin

text \<open>
  \<^verbatim>\<open>server/src/error.rs\<close>: the server's error type, the status and stable code of each
  error, and the body a caller sees. \<open>sqlx::Error\<close> is third-party: \<open>db_error\<close> names the
  failures of the two engines that the model tells apart.
\<close>

datatype db_error =
    ForeignKeyViolation | CheckViolation | RowNotFound
  | SequenceExhausted | NegativeLimit | UndefinedRelation | ConnectFailed

datatype error =
    NotFound
  | EmailTaken
  | BadCredentials
  | Unauthorised
  | RegistrationClosed
  | RateLimited
  | BadRequest string
  | Db db_error
  | Internal string

fun error_to_string :: "error \<Rightarrow> string" where
  "error_to_string NotFound = ''not found''"
| "error_to_string EmailTaken = ''that email is already registered''"
| "error_to_string BadCredentials = ''wrong email or password''"
| "error_to_string Unauthorised = ''sign in first''"
| "error_to_string RegistrationClosed = ''registration is closed on this instance''"
| "error_to_string RateLimited = ''too many attempts, try again shortly''"
| "error_to_string (BadRequest m) = m"
| "error_to_string (Db _) = ''database error''"
| "error_to_string (Internal _) = ''internal error''"

fun parts :: "error \<Rightarrow> nat \<times> string" where
  "parts NotFound = (404, ''not_found'')"
| "parts EmailTaken = (409, ''email_taken'')"
| "parts BadCredentials = (401, ''bad_credentials'')"
| "parts Unauthorised = (401, ''unauthorised'')"
| "parts RegistrationClosed = (403, ''registration_closed'')"
| "parts RateLimited = (429, ''rate_limited'')"
| "parts (BadRequest _) = (400, ''bad_request'')"
| "parts (Db _) = (500, ''internal'')"
| "parts (Internal _) = (500, ''internal'')"

text \<open>The log lines of the source are not modelled; the response is.\<close>

definition into_response :: "error \<Rightarrow> nat \<times> api_error" where
  "into_response e =
     (let (status, code) = parts e;
          message = (case e of Db _ \<Rightarrow> ''internal error'' | Internal _ \<Rightarrow> ''internal error''
                     | other \<Rightarrow> error_to_string other)
      in (status, \<lparr>ae_code = code, ae_message = message\<rparr>))"

definition is_internal :: "error \<Rightarrow> bool" where
  "is_internal e \<longleftrightarrow> (case e of Db _ \<Rightarrow> True | Internal _ \<Rightarrow> True | _ \<Rightarrow> False)"

text \<open>what a caller can learn from an error response. A database error and an internal error, whatever
  their detail, give one and the same response, and only they have status 500; any other error is
  recovered from its response, so the stable code and message identify it.\<close>

theorem response_hides_exactly_internal_detail:
  "into_response e = into_response f \<longleftrightarrow> e = f \<or> is_internal e \<and> is_internal f"
  by (cases e; cases f) (simp_all add: into_response_def is_internal_def)

theorem status_500_iff_internal: "fst (into_response e) = 500 \<longleftrightarrow> is_internal e"
  by (cases e) (simp_all add: into_response_def is_internal_def)

end
