(* ===== verification/Store_Schema.thy ===== *)
theory Store_Schema
  imports Sql_Table Server_Error
begin

text \<open>
  The columns of the five tables both schemas declare (\<^verbatim>\<open>schema_sqlite.sql\<close>,
  \<^verbatim>\<open>schema_postgres.sql\<close>), the structs of \<^verbatim>\<open>server/src/store/mod.rs\<close>, and the well-formedness of
  the tables: the unique keys, the foreign keys, the check on token kinds and the sequence numbers.
\<close>

section \<open>Structs of the store\<close>

record account =
  a_id :: string
  a_email :: string
  a_auth_hash :: string
  a_account_public :: string
  a_wrapped_account_secret :: string
  a_wrapped_personal_key :: string
  a_recovery_account_secret :: string
  a_recovery_personal_key :: string
  a_recovery_auth_hash :: string

record new_account =
  n_email :: string
  n_auth_hash :: string
  n_recovery_auth_hash :: string
  n_account_public :: string
  n_wrapped_account_secret :: string
  n_wrapped_personal_key :: string
  n_recovery_account_secret :: string
  n_recovery_personal_key :: string

record token_row =
  tr_account_id :: string

record share_row =
  sw_group_id :: string
  sw_owner_id :: string
  sw_user_id :: string
  sw_email :: string
  sw_wrapped_group_key :: string
  sw_created_at :: i64

record device_row =
  dr_device_id :: string
  dr_name :: string
  dr_last_seen :: i64

text \<open>\<open>now_ms\<close>: a system-clock reading is a number of nanoseconds relative to the Unix epoch; a
  clock before the epoch reads as zero, and the \<open>u128\<close> of milliseconds is cast to \<open>i64\<close>.\<close>

definition now_ms :: "int \<Rightarrow> i64" where
  "now_ms reading = (if reading < 0 then 0 else i64_wrap (reading div 1000000))"

section \<open>Rows of the tables\<close>

record account_row =
  ar_id :: string
  ar_email :: string
  ar_auth_hash :: string
  ar_recovery_auth_hash :: string
  ar_account_public :: string
  ar_wrapped_account_secret :: string
  ar_wrapped_personal_key :: string
  ar_recovery_account_secret :: string
  ar_recovery_personal_key :: string
  ar_created_at :: i64

record token_db_row =
  t_hash :: string
  t_account_id :: string
  t_kind :: string
  t_expires_at :: i64

record record_row =
  r_account_id :: string
  r_kind :: string
  r_id :: string
  r_seq :: i64
  r_group_id :: "string option"
  r_parent_id :: "string option"
  r_sort :: i64
  r_updated_at :: i64
  r_device_id :: string
  r_deleted_at :: "i64 option"
  r_key_ref :: string
  r_nonce :: string
  r_ciphertext :: string

record share_db_row =
  sh_group_id :: string
  sh_owner_id :: string
  sh_user_id :: string
  sh_wrapped_group_key :: string
  sh_created_at :: i64

record device_db_row =
  d_account_id :: string
  d_device_id :: string
  d_name :: string
  d_last_seen :: i64

record tables =
  accounts :: "account_row list"
  tokens :: "token_db_row list"
  records :: "record_row list"
  shares :: "share_db_row list"
  devices :: "device_db_row list"

definition no_tables :: tables where
  "no_tables = \<lparr>accounts = [], tokens = [], records = [], shares = [], devices = []\<rparr>"

definition record_key :: "record_row \<Rightarrow> string \<times> string \<times> string" where
  "record_key r = (r_account_id r, r_kind r, r_id r)"

definition share_key :: "share_db_row \<Rightarrow> string \<times> string" where
  "share_key s = (sh_group_id s, sh_user_id s)"

definition device_key :: "device_db_row \<Rightarrow> string \<times> string" where
  "device_key d = (d_account_id d, d_device_id d)"

definition has_account :: "tables \<Rightarrow> string \<Rightarrow> bool" where
  "has_account t a \<longleftrightarrow> a \<in> set (map ar_id (accounts t))"

section \<open>Well-formed tables\<close>

definition keys_unique :: "tables \<Rightarrow> bool" where
  "keys_unique t \<longleftrightarrow> distinct (map ar_id (accounts t)) \<and> distinct (map ar_email (accounts t)) \<and>
     distinct (map t_hash (tokens t)) \<and> distinct (map record_key (records t)) \<and>
     distinct (map share_key (shares t)) \<and> distinct (map device_key (devices t))"

definition references_ok :: "tables \<Rightarrow> bool" where
  "references_ok t \<longleftrightarrow>
     (\<forall>k \<in> set (tokens t). has_account t (t_account_id k) \<and> t_kind k \<in> {''access'', ''refresh''}) \<and>
     (\<forall>r \<in> set (records t). has_account t (r_account_id r)) \<and>
     (\<forall>s \<in> set (shares t). has_account t (sh_owner_id s) \<and> has_account t (sh_user_id s)) \<and>
     (\<forall>d \<in> set (devices t). has_account t (d_account_id d))"

text \<open>Sequence numbers are positive, at most the counter, and no two records share one.\<close>

definition seqs_ok :: "tables \<Rightarrow> i64 \<Rightarrow> bool" where
  "seqs_ok t q \<longleftrightarrow> 0 \<le> q \<and> q \<le> i64_max \<and> distinct (map r_seq (records t)) \<and>
     (\<forall>r \<in> set (records t). 0 < r_seq r \<and> r_seq r \<le> q)"

definition tables_ok :: "tables \<Rightarrow> i64 \<Rightarrow> bool" where
  "tables_ok t q \<longleftrightarrow> keys_unique t \<and> references_ok t \<and> seqs_ok t q"

lemmas tables_ok_defs = tables_ok_def keys_unique_def references_ok_def seqs_ok_def

lemma no_tables_ok: "0 \<le> q \<Longrightarrow> q \<le> i64_max \<Longrightarrow> tables_ok no_tables q"
  by (simp add: tables_ok_defs no_tables_def)

lemma has_account_cong [simp]:
  "has_account (t\<lparr>tokens := x\<rparr>) a = has_account t a"
  "has_account (t\<lparr>records := y\<rparr>) a = has_account t a"
  "has_account (t\<lparr>shares := z\<rparr>) a = has_account t a"
  "has_account (t\<lparr>devices := w\<rparr>) a = has_account t a"
  by (simp_all add: has_account_def)

text \<open>An upsert under foreign keys: they are checked for a row that is inserted, not for one that is
  updated in place, since no conflict clause of the schema sets a referencing column.\<close>

definition checked_upsert ::
  "('r \<Rightarrow> 'k) \<Rightarrow> ('r \<Rightarrow> 'r \<Rightarrow> 'r option) \<Rightarrow> bool \<Rightarrow> 'r \<Rightarrow> 'r list \<Rightarrow> error + 'r list \<times> 'r option" where
  "checked_upsert key upd refs new rows =
     (if row_at key (key new) rows = None \<and> \<not> refs then Inl (Db ForeignKeyViolation)
      else Inr (upsert key upd new rows))"

lemma checked_upsert_Inr:
  "checked_upsert key upd refs new rows = Inr x \<longleftrightarrow>
     (row_at key (key new) rows = None \<longrightarrow> refs) \<and> x = upsert key upd new rows"
  by (auto simp: checked_upsert_def)

lemma checked_upsert_all:
  assumes "checked_upsert key upd refs new rows = Inr (rows', ret)"
    and "\<forall>r \<in> set rows. P r" and "refs \<Longrightarrow> P new"
    and "\<And>old r. old \<in> set rows \<Longrightarrow> key old = key new \<Longrightarrow> upd old new = Some r \<Longrightarrow> P old \<Longrightarrow> P r"
  shows "\<forall>r \<in> set rows'. P r"
proof (cases rule: upsert_cases [of key new rows upd])
  case inserted
  with assms show ?thesis by (auto simp: checked_upsert_Inr)
next
  case (kept old)
  with assms show ?thesis by (auto simp: checked_upsert_Inr)
next
  case (updated old r)
  then have "P r" using assms(2,4) row_at_Some by metis
  with updated assms(1,2) show ?thesis by (auto simp: checked_upsert_Inr)
qed

lemma distinct_map_replace:
  assumes "distinct (map key rows)" "distinct (map f rows)" "f r \<notin> f ` set rows"
  shows "distinct (map f (map (\<lambda>x. if key x = k then r else x) rows))"
  using assms
proof (induction rows)
  case Nil
  then show ?case by simp
next
  case (Cons x rows)
  show ?case
  proof (cases "key x = k")
    case True
    with Cons.prems(1) have "map (\<lambda>x. if key x = k then r else x) rows = rows"
      by (intro map_idI) (auto simp: image_iff)
    with True Cons.prems show ?thesis by simp
  next
    case False
    with Cons show ?thesis by (auto simp: image_iff)
  qed
qed

text \<open>Replacing one table keeps the tables well formed when the new rows are.\<close>

lemma tables_ok_accounts:
  assumes "tables_ok t q" "distinct (map ar_id as)" "distinct (map ar_email as)"
    and "set (map ar_id (accounts t)) \<subseteq> set (map ar_id as)"
  shows "tables_ok (t\<lparr>accounts := as\<rparr>) q"
  using assms by (auto simp: tables_ok_defs has_account_def)

lemma tables_ok_tokens:
  assumes "tables_ok t q" "distinct (map t_hash ts)"
    and "\<forall>k \<in> set ts. has_account t (t_account_id k) \<and> t_kind k \<in> {''access'', ''refresh''}"
  shows "tables_ok (t\<lparr>tokens := ts\<rparr>) q"
  using assms by (simp add: tables_ok_defs)

lemma tables_ok_records:
  assumes "tables_ok t q" "distinct (map record_key rs)" "distinct (map r_seq rs)" "q \<le> q'" "q' \<le> i64_max"
    and "\<forall>r \<in> set rs. has_account t (r_account_id r) \<and> 0 < r_seq r \<and> r_seq r \<le> q'"
  shows "tables_ok (t\<lparr>records := rs\<rparr>) q'"
  using assms by (simp add: tables_ok_defs)

lemma tables_ok_shares:
  assumes "tables_ok t q" "distinct (map share_key ss)"
    and "\<forall>s \<in> set ss. has_account t (sh_owner_id s) \<and> has_account t (sh_user_id s)"
  shows "tables_ok (t\<lparr>shares := ss\<rparr>) q"
  using assms by (simp add: tables_ok_defs)

lemma tables_ok_devices:
  assumes "tables_ok t q" "distinct (map device_key ds)"
    and "\<forall>d \<in> set ds. has_account t (d_account_id d)"
  shows "tables_ok (t\<lparr>devices := ds\<rparr>) q"
  using assms by (simp add: tables_ok_defs)

lemma tables_ok_seq_mono: "tables_ok t q \<Longrightarrow> q \<le> q' \<Longrightarrow> q' \<le> i64_max \<Longrightarrow> tables_ok t q'"
  by (auto simp: tables_ok_defs)

section \<open>What a query sees\<close>

text \<open>The records an account may pull: its own, and those whose group hint names a group
  someone shares with it.\<close>

definition shared_with :: "tables \<Rightarrow> string \<Rightarrow> string \<Rightarrow> bool" where
  "shared_with t g u \<longleftrightarrow> (\<exists>s \<in> set (shares t). sh_group_id s = g \<and> sh_user_id s = u)"

definition visible :: "tables \<Rightarrow> string \<Rightarrow> record_row \<Rightarrow> bool" where
  "visible t a r \<longleftrightarrow> r_account_id r = a \<or> (case r_group_id r of None \<Rightarrow> False | Some g \<Rightarrow> shared_with t g a)"

definition log_after :: "tables \<Rightarrow> string \<Rightarrow> i64 \<Rightarrow> record_row list" where
  "log_after t a c = sort_key r_seq (filter (\<lambda>r. c < r_seq r \<and> visible t a r) (records t))"

lemma set_log_after: "set (log_after t a c) = {r \<in> set (records t). c < r_seq r \<and> visible t a r}"
  by (auto simp: log_after_def)

lemma sorted_log_after: "sorted (map r_seq (log_after t a c))"
  by (simp add: log_after_def)

lemma distinct_log_after:
  assumes "seqs_ok t q"
  shows "distinct (map r_seq (log_after t a c))"
proof -
  from assms have "distinct (map r_seq (filter (\<lambda>r. c < r_seq r \<and> visible t a r) (records t)))"
    by (simp add: seqs_ok_def distinct_map_filter_key)
  then show ?thesis by (simp add: log_after_def distinct_map)
qed

text \<open>Continuing from the last record of a page gives exactly the rest of the log.\<close>

lemma log_after_continue:
  assumes "seqs_ok t q" "log_after t a c = xs @ r # ys"
  shows "log_after t a (r_seq r) = ys"
proof (rule sorted_key_unique [where f = r_seq])
  have s: "sorted (map r_seq (xs @ r # ys))" and d: "distinct (map r_seq (xs @ r # ys))"
    using sorted_log_after [of t a c] distinct_log_after [OF assms(1), of a c] by (simp_all add: assms(2))
  show "sorted (map r_seq ys)" "distinct (map r_seq ys)" using s d by (simp_all add: sorted_append)
  have less: "\<forall>y \<in> set ys. r_seq r < r_seq y" and before: "\<forall>x \<in> set xs. r_seq x \<le> r_seq r"
    using s d by (auto simp: sorted_append order_le_less)
  have all: "set (xs @ r # ys) = {r \<in> set (records t). c < r_seq r \<and> visible t a r}"
    using set_log_after [of t a c] by (simp add: assms(2))
  then have "c < r_seq r" by auto
  then have "set (log_after t a (r_seq r)) = {y \<in> set (xs @ r # ys). r_seq r < r_seq y}"
    unfolding set_log_after all by auto
  also have "\<dots> = set ys" using less before by auto
  finally show "set (log_after t a (r_seq r)) = set ys" .
  show "sorted (map r_seq (log_after t a (r_seq r)))" by (rule sorted_log_after)
  show "distinct (map r_seq (log_after t a (r_seq r)))" using assms(1) by (rule distinct_log_after)
qed

end
