(* ===== verification/Wire_Merge.thy ===== *)
theory Wire_Merge
  imports Wire_Record
begin

text \<open>
  \<^verbatim>\<open>crates/remotier-sync-proto/src/merge.rs\<close>: which of two versions of a record wins, and
  which clocks a server believes. The locale \<open>lww\<close> is the contract of a last-write-wins
  order: every replica that keeps the newer of what it has and what it receives ends with a newest
  version, in whatever order the versions arrive. The client's \<open>resolve\<close> provides it here, the
  upserts of the two database backends in their own theories.
\<close>

section \<open>Resolving two claims\<close>

record clock =
  c_updated_at :: i64
  c_device_id :: string

datatype resolution = KeepLocal | TakeRemote

definition resolve :: "clock \<Rightarrow> clock \<Rightarrow> resolution" where
  "resolve local_clock remote_clock =
     (case cmp (c_updated_at remote_clock) (c_updated_at local_clock) of
        Greater \<Rightarrow> TakeRemote
      | Less \<Rightarrow> KeepLocal
      | Equal \<Rightarrow> (if c_device_id remote_clock > c_device_id local_clock then TakeRemote else KeepLocal))"

definition max_clock_skew_ms :: i64 where
  "max_clock_skew_ms = 24 * 60 * 60 * 1000"

definition clock_is_plausible :: "i64 \<Rightarrow> i64 \<Rightarrow> bool" where
  "clock_is_plausible updated_at server_now \<longleftrightarrow> updated_at \<le> i64_wrap (server_now + max_clock_skew_ms)"

lemma resolve_TakeRemote:
  "resolve l r = TakeRemote \<longleftrightarrow>
     c_updated_at l < c_updated_at r \<or> c_updated_at l = c_updated_at r \<and> c_device_id l < c_device_id r"
  by (auto simp: resolve_def cmp_def)

lemma resolve_KeepLocal: "resolve l r = KeepLocal \<longleftrightarrow> resolve l r \<noteq> TakeRemote"
  by (cases "resolve l r") simp_all

text \<open>Claims are ordered by clock, then by device, and \<open>resolve\<close> takes the greater of two.\<close>

instantiation clock_ext :: (linorder) linorder
begin

definition less_clock_ext :: "'a clock_scheme \<Rightarrow> 'a clock_scheme \<Rightarrow> bool" where
  "less_clock_ext a b \<longleftrightarrow> c_updated_at a < c_updated_at b \<or> c_updated_at a = c_updated_at b \<and>
     (c_device_id a < c_device_id b \<or> c_device_id a = c_device_id b \<and> clock.more a < clock.more b)"

definition less_eq_clock_ext :: "'a clock_scheme \<Rightarrow> 'a clock_scheme \<Rightarrow> bool" where
  "less_eq_clock_ext a b \<longleftrightarrow> a < b \<or> a = b"

instance
proof
  fix a b c :: "'a clock_scheme"
  have asym: "a < b \<Longrightarrow> \<not> b < a" for a b :: "'a clock_scheme" by (auto simp: less_clock_ext_def)
  show "a < b \<longleftrightarrow> a \<le> b \<and> \<not> b \<le> a" using asym [of a b] asym [of a a] by (auto simp: less_eq_clock_ext_def)
  show "a \<le> a" by (simp add: less_eq_clock_ext_def)
  show "a \<le> b \<Longrightarrow> b \<le> c \<Longrightarrow> a \<le> c" by (auto simp: less_eq_clock_ext_def less_clock_ext_def)
  show "a \<le> b \<Longrightarrow> b \<le> a \<Longrightarrow> a = b" using asym [of a b] by (auto simp: less_eq_clock_ext_def)
  show "a \<le> b \<or> b \<le> a"
    by (cases a; cases b) (auto simp: less_eq_clock_ext_def less_clock_ext_def neq_iff)
qed

end

lemma resolve_less: "resolve l r = TakeRemote \<longleftrightarrow> l < r"
  by (simp add: resolve_TakeRemote less_clock_ext_def)

text \<open>two devices that hold different claims on one record reach the same winner without talking
  to each other: each compares its own claim as local with the other's as remote, and exactly one
  of them takes the remote one; and a device comparing a claim with itself keeps it.\<close>

theorem resolve_agrees_on_both_devices:
  "(a \<noteq> b \<longrightarrow> (resolve a b = TakeRemote \<longleftrightarrow> resolve b a = KeepLocal)) \<and> resolve a a = KeepLocal"
  unfolding resolve_KeepLocal resolve_less by auto

theorem resolve_agrees_on_both_devices_witness:
  "resolve \<lparr>c_updated_at = 100, c_device_id = ''a''\<rparr> \<lparr>c_updated_at = 100, c_device_id = ''b''\<rparr> = TakeRemote \<and>
   resolve \<lparr>c_updated_at = 100, c_device_id = ''b''\<rparr> \<lparr>c_updated_at = 100, c_device_id = ''a''\<rparr> = KeepLocal"
  using resolve_agrees_on_both_devices
    [of "\<lparr>c_updated_at = 100, c_device_id = ''a''\<rparr>" "\<lparr>c_updated_at = 100, c_device_id = ''b''\<rparr>"]
  by (simp add: resolve_TakeRemote)

text \<open>as long as the server's clock is at least a day away from the end of the \<open>i64\<close> range,
  the plausibility check accepts exactly the clocks at most twenty-four hours ahead of the server,
  however far behind they are: the addition does not wrap.\<close>

theorem plausible_is_at_most_a_day_ahead:
  assumes "is_i64 server_now" "server_now \<le> i64_max - max_clock_skew_ms"
  shows "clock_is_plausible updated_at server_now \<longleftrightarrow> updated_at - server_now \<le> 86400000"
  using assms by (simp add: clock_is_plausible_def is_i64_def i64_max_def max_clock_skew_ms_def algebra_simps)

theorem plausible_is_at_most_a_day_ahead_witness:
  "clock_is_plausible 1700000060000 1700000000000 \<and>
   \<not> clock_is_plausible (1700000000000 + 400 * 24 * 3600 * 1000) 1700000000000"
  using plausible_is_at_most_a_day_ahead [of 1700000000000 1700000060000]
    plausible_is_at_most_a_day_ahead [of 1700000000000 "1700000000000 + 400 * 24 * 3600 * 1000"]
  by (simp add: is_i64_def i64_max_def max_clock_skew_ms_def)

section \<open>Last-write-wins orders\<close>

text \<open>
  \<open>newer incoming stored\<close> says that the incoming version replaces the stored one.
  \<open>lww_merge\<close> is one replica's step and \<open>lww_fold\<close> its state after a list of deliveries.
\<close>

definition lww_merge :: "('v \<Rightarrow> 'v \<Rightarrow> bool) \<Rightarrow> 'v \<Rightarrow> 'v \<Rightarrow> 'v" where
  "lww_merge newer stored incoming = (if newer incoming stored then incoming else stored)"

definition lww_fold :: "('v \<Rightarrow> 'v \<Rightarrow> bool) \<Rightarrow> 'v \<Rightarrow> 'v list \<Rightarrow> 'v" where
  "lww_fold newer v vs = foldl (lww_merge newer) v vs"

lemma lww_fold_simps [simp]:
  "lww_fold newer v [] = v"
  "lww_fold newer v (w # vs) = lww_fold newer (lww_merge newer v w) vs"
  "lww_fold newer v (vs @ [w]) = lww_merge newer (lww_fold newer v vs) w"
  by (simp_all add: lww_fold_def)

lemma lww_fold_in: "lww_fold newer v vs \<in> set (v # vs)"
  by (induction vs arbitrary: v) (auto simp: lww_merge_def)

locale lww =
  fixes newer :: "'v \<Rightarrow> 'v \<Rightarrow> bool"
  assumes irrefl: "\<not> newer a a"
    and trans: "newer a b \<Longrightarrow> newer b c \<Longrightarrow> newer a c"
    and weak: "newer a b \<Longrightarrow> newer a c \<or> newer c b"
begin

lemma asym: "newer a b \<Longrightarrow> \<not> newer b a"
  using irrefl trans by blast

lemma merge_upper: "\<not> newer s (lww_merge newer s i)" "\<not> newer i (lww_merge newer s i)"
  using asym irrefl by (auto simp: lww_merge_def)

lemma not_newer_trans: "\<not> newer a b \<Longrightarrow> \<not> newer b c \<Longrightarrow> \<not> newer a c"
  using weak by blast

lemma fold_newest: "w \<in> set (v # vs) \<Longrightarrow> \<not> newer w (lww_fold newer v vs)"
proof (induction vs arbitrary: v w)
  case Nil
  then show ?case by (simp add: irrefl)
next
  case (Cons x vs)
  have m: "\<not> newer (lww_merge newer v x) (lww_fold newer (lww_merge newer v x) vs)"
    by (rule Cons.IH) simp
  show ?case
  proof (cases "w = v \<or> w = x")
    case True
    then have "\<not> newer w (lww_merge newer v x)" using merge_upper by blast
    with m show ?thesis using not_newer_trans by simp
  next
    case False
    with Cons.prems have "w \<in> set (lww_merge newer v x # vs)" by simp
    then show ?thesis using Cons.IH by simp
  qed
qed

text \<open>Replicas that saw the same versions hold equally new ones, and the same one when no two
  different versions tie.\<close>

lemma fold_converges:
  assumes "set (v # vs) = set (w # ws)"
  shows "\<not> newer (lww_fold newer v vs) (lww_fold newer w ws)"
  using fold_newest [of _ w ws] lww_fold_in [of newer v vs] assms by blast

lemma fold_unique:
  assumes "set (v # vs) = set (w # ws)"
    and "\<And>x y. x \<in> set (v # vs) \<Longrightarrow> y \<in> set (v # vs) \<Longrightarrow> \<not> newer x y \<Longrightarrow> \<not> newer y x \<Longrightarrow> x = y"
  shows "lww_fold newer v vs = lww_fold newer w ws"
  using assms(2) [OF lww_fold_in] lww_fold_in [of newer w ws] fold_converges [OF assms(1)]
    fold_converges [OF assms(1) [symmetric]] assms(1) by blast

text \<open>Delivering a version again changes nothing.\<close>

lemma fold_idem: "w \<in> set (v # vs) \<Longrightarrow> lww_merge newer (lww_fold newer v vs) w = lww_fold newer v vs"
  by (simp add: lww_merge_def fold_newest)

end

text \<open>The clock of an envelope, and the order \<open>resolve\<close> gives on envelopes.\<close>

definition envelope_clock :: "envelope \<Rightarrow> clock" where
  "envelope_clock e = \<lparr>c_updated_at = e_updated_at e, c_device_id = e_device_id e\<rparr>"

definition envelope_newer :: "envelope \<Rightarrow> envelope \<Rightarrow> bool" where
  "envelope_newer incoming stored \<longleftrightarrow> resolve (envelope_clock stored) (envelope_clock incoming) = TakeRemote"

lemma envelope_newer_iff:
  "envelope_newer i s \<longleftrightarrow>
     e_updated_at s < e_updated_at i \<or> e_updated_at s = e_updated_at i \<and> e_device_id s < e_device_id i"
  by (simp add: envelope_newer_def envelope_clock_def resolve_TakeRemote)

text \<open>Being newer is being greater in the order of clocks, which gives the laws.\<close>

interpretation client_lww: lww envelope_newer
  by unfold_locales (auto simp: envelope_newer_def resolve_less)

lemma envelope_newer_tie:
  "\<not> envelope_newer x y \<Longrightarrow> \<not> envelope_newer y x \<Longrightarrow> envelope_clock x = envelope_clock y"
  using less_linear [of "e_updated_at x" "e_updated_at y"] less_linear [of "e_device_id x" "e_device_id y"]
  by (auto simp: envelope_newer_iff envelope_clock_def)

text \<open>C24: clients converge. Two devices that start from some version of a record and apply the versions they
  receive with \<open>resolve\<close>, in any order and with any repetitions, end with versions of the same clock once
  both have seen the same set of versions; and with the same version, provided no two different versions in that set carry
  the same clock (update time and device). Where two do, \<open>resolve\<close> keeps whichever a device saw first.\<close>

theorem clients_converge:
  assumes "set (v # vs) = set (w # ws)"
  shows "envelope_clock (lww_fold envelope_newer v vs) = envelope_clock (lww_fold envelope_newer w ws) \<and>
    ((\<forall>x \<in> set (v # vs). \<forall>y \<in> set (v # vs). envelope_clock x = envelope_clock y \<longrightarrow> x = y) \<longrightarrow>
      lww_fold envelope_newer v vs = lww_fold envelope_newer w ws)"
proof (intro conjI impI)
  show "envelope_clock (lww_fold envelope_newer v vs) = envelope_clock (lww_fold envelope_newer w ws)"
    by (rule envelope_newer_tie) (rule client_lww.fold_converges [OF assms], rule client_lww.fold_converges [OF assms [symmetric]])
  show "lww_fold envelope_newer v vs = lww_fold envelope_newer w ws"
    if "\<forall>x \<in> set (v # vs). \<forall>y \<in> set (v # vs). envelope_clock x = envelope_clock y \<longrightarrow> x = y"
    using assms by (rule client_lww.fold_unique) (use that envelope_newer_tie in blast)
qed

theorem clients_converge_witness:
  "lww_fold envelope_newer sample_envelope [sample_envelope\<lparr>e_updated_at := 5\<rparr>]
   = lww_fold envelope_newer (sample_envelope\<lparr>e_updated_at := 5\<rparr>) [sample_envelope, sample_envelope]"
proof -
  let ?e = "sample_envelope\<lparr>e_updated_at := 5\<rparr>"
  have "set (sample_envelope # [?e]) = set (?e # [sample_envelope, sample_envelope])" by auto
  from clients_converge [OF this] show ?thesis by (auto simp: envelope_clock_def sample_envelope_def)
qed

end
