(* ===== verification/Store_Trait.thy ===== *)
theory Store_Trait
  imports Store_Schema Wire_Merge
begin

text \<open>
  \<^verbatim>\<open>server/src/store/mod.rs\<close>: the \<open>Store\<close> trait. An implementation on states of type
  \<open>'s\<close> is a record of operations, as \<open>Arc<dyn Store>\<close> is a table of methods; a method that
  reads the clock or draws random bytes takes the reading or the bytes as an argument. The locale
  \<open>store_contract\<close> states what the handlers rely on; \<open>Store_Sqlite\<close> and
  \<open>Store_Postgres\<close> interpret it. The clauses and row conversions that both dialects spell the
  same way stand here too.
\<close>

section \<open>The trait\<close>

record 's store =
  s_migrate :: "(error, 's, unit) op"
  s_create_account :: "int \<Rightarrow> u8 list \<Rightarrow> new_account \<Rightarrow> (error, 's, account) op"
  s_account_by_email :: "string \<Rightarrow> (error, 's, account option) op"
  s_account_by_id :: "string \<Rightarrow> (error, 's, account option) op"
  s_rewrap_account :: "string \<Rightarrow> new_account \<Rightarrow> (error, 's, unit) op"
  s_put_token :: "string \<Rightarrow> string \<Rightarrow> string \<Rightarrow> i64 \<Rightarrow> (error, 's, unit) op"
  s_take_token :: "int \<Rightarrow> string \<Rightarrow> string \<Rightarrow> (error, 's, token_row option) op"
  s_consume_token :: "int \<Rightarrow> string \<Rightarrow> string \<Rightarrow> (error, 's, token_row option) op"
  s_revoke_account_tokens :: "string \<Rightarrow> (error, 's, unit) op"
  s_put_envelope :: "string \<Rightarrow> envelope \<Rightarrow> (error, 's, i64 option) op"
  s_pull :: "string \<Rightarrow> i64 \<Rightarrow> i64 \<Rightarrow> (error, 's, envelope list) op"
  s_max_seq :: "string \<Rightarrow> (error, 's, i64) op"
  s_put_share :: "int \<Rightarrow> string \<Rightarrow> string \<Rightarrow> string \<Rightarrow> string \<Rightarrow> (error, 's, unit) op"
  s_shares_for_group :: "string \<Rightarrow> string \<Rightarrow> (error, 's, share_row list) op"
  s_delete_share :: "string \<Rightarrow> string \<Rightarrow> string \<Rightarrow> (error, 's, unit) op"
  s_shares_for_user :: "string \<Rightarrow> (error, 's, share_row list) op"
  s_share_owner :: "string \<Rightarrow> (error, 's, string option) op"
  s_can_write_group :: "string \<Rightarrow> string \<Rightarrow> (error, 's, bool) op"
  s_touch_device :: "int \<Rightarrow> string \<Rightarrow> string \<Rightarrow> string \<Rightarrow> (error, 's, unit) op"
  s_devices :: "string \<Rightarrow> (error, 's, device_row list) op"

section \<open>Rows\<close>

definition email_norm :: "codec \<Rightarrow> string \<Rightarrow> string" where
  "email_norm cd email = to_lowercase (unicode_lowercase cd) (trim email)"

definition account_from_row :: "account_row \<Rightarrow> account" where
  "account_from_row r =
     \<lparr>a_id = ar_id r, a_email = ar_email r, a_auth_hash = ar_auth_hash r,
      a_account_public = ar_account_public r,
      a_wrapped_account_secret = ar_wrapped_account_secret r,
      a_wrapped_personal_key = ar_wrapped_personal_key r,
      a_recovery_account_secret = ar_recovery_account_secret r,
      a_recovery_personal_key = ar_recovery_personal_key r,
      a_recovery_auth_hash = ar_recovery_auth_hash r\<rparr>"

definition account_row_of :: "string \<Rightarrow> string \<Rightarrow> i64 \<Rightarrow> new_account \<Rightarrow> account_row" where
  "account_row_of i email created_at new =
     \<lparr>ar_id = i, ar_email = email, ar_auth_hash = n_auth_hash new,
      ar_recovery_auth_hash = n_recovery_auth_hash new,
      ar_account_public = n_account_public new,
      ar_wrapped_account_secret = n_wrapped_account_secret new,
      ar_wrapped_personal_key = n_wrapped_personal_key new,
      ar_recovery_account_secret = n_recovery_account_secret new,
      ar_recovery_personal_key = n_recovery_personal_key new,
      ar_created_at = created_at\<rparr>"

definition rewrap_row :: "new_account \<Rightarrow> account_row \<Rightarrow> account_row" where
  "rewrap_row new r =
     r\<lparr>ar_auth_hash := n_auth_hash new, ar_recovery_auth_hash := n_recovery_auth_hash new,
       ar_wrapped_account_secret := n_wrapped_account_secret new,
       ar_wrapped_personal_key := n_wrapped_personal_key new,
       ar_recovery_account_secret := n_recovery_account_secret new,
       ar_recovery_personal_key := n_recovery_personal_key new\<rparr>"

definition envelope_from_row :: "codec \<Rightarrow> record_row \<Rightarrow> error + envelope" where
  "envelope_from_row cd r =
     (case parse_kind (r_kind r) of
        None \<Rightarrow> Inl (Internal (''stored record has unknown kind '' @ r_kind r))
      | Some kind \<Rightarrow>
     (case key_ref_of_json cd (r_key_ref r) of
        Inl m \<Rightarrow> Inl (Internal m)
      | Inr key_ref \<Rightarrow>
     (case b64_decode cd (r_nonce r) of
        Inl m \<Rightarrow> Inl (Internal m)
      | Inr nonce \<Rightarrow>
     (case b64_decode cd (r_ciphertext r) of
        Inl m \<Rightarrow> Inl (Internal m)
      | Inr ciphertext \<Rightarrow>
          Inr \<lparr>e_id = r_id r, e_kind = kind, e_key_ref = key_ref, e_group_id = r_group_id r,
               e_parent_id = r_parent_id r, e_sort = r_sort r, e_updated_at = r_updated_at r,
               e_device_id = r_device_id r, e_deleted_at = r_deleted_at r, e_nonce = nonce,
               e_ciphertext = ciphertext, e_seq = r_seq r\<rparr>))))"

definition record_row_of :: "codec \<Rightarrow> string \<Rightarrow> i64 \<Rightarrow> string \<Rightarrow> envelope \<Rightarrow> record_row" where
  "record_row_of cd account_id seq key_ref e =
     \<lparr>r_account_id = account_id, r_kind = as_str (e_kind e), r_id = e_id e, r_seq = seq,
      r_group_id = e_group_id e, r_parent_id = e_parent_id e, r_sort = e_sort e,
      r_updated_at = e_updated_at e, r_device_id = e_device_id e, r_deleted_at = e_deleted_at e,
      r_key_ref = key_ref, r_nonce = b64_encode cd (e_nonce e),
      r_ciphertext = b64_encode cd (e_ciphertext e)\<rparr>"

lemma record_row_of_fields [simp]:
  "r_account_id (record_row_of cd a q j e) = a"
  "r_kind (record_row_of cd a q j e) = as_str (e_kind e)"
  "r_id (record_row_of cd a q j e) = e_id e"
  "r_seq (record_row_of cd a q j e) = q"
  "r_group_id (record_row_of cd a q j e) = e_group_id e"
  "r_updated_at (record_row_of cd a q j e) = e_updated_at e"
  "r_device_id (record_row_of cd a q j e) = e_device_id e"
  "record_key (record_row_of cd a q j e) = (a, as_str (e_kind e), e_id e)"
  by (simp_all add: record_row_of_def record_key_def)

text \<open>The \<open>SET\<close> list of the record upsert: everything but the key.\<close>

definition set_excluded :: "record_row \<Rightarrow> record_row \<Rightarrow> record_row" where
  "set_excluded old excluded =
     old\<lparr>r_seq := r_seq excluded, r_group_id := r_group_id excluded,
         r_parent_id := r_parent_id excluded, r_sort := r_sort excluded,
         r_updated_at := r_updated_at excluded, r_device_id := r_device_id excluded,
         r_deleted_at := r_deleted_at excluded, r_key_ref := r_key_ref excluded,
         r_nonce := r_nonce excluded, r_ciphertext := r_ciphertext excluded\<rparr>"

definition record_on_conflict ::
  "(record_row \<Rightarrow> record_row \<Rightarrow> bool) \<Rightarrow> record_row \<Rightarrow> record_row \<Rightarrow> record_row option" where
  "record_on_conflict newer old excluded = (if newer excluded old then Some (set_excluded old excluded) else None)"

definition token_on_conflict :: "token_db_row \<Rightarrow> token_db_row \<Rightarrow> token_db_row option" where
  "token_on_conflict old excluded = Some (old\<lparr>t_expires_at := t_expires_at excluded\<rparr>)"

definition live_token :: "int \<Rightarrow> string \<Rightarrow> string \<Rightarrow> token_db_row \<Rightarrow> bool" where
  "live_token reading hash kind t \<longleftrightarrow> t_hash t = hash \<and> t_kind t = kind \<and> t_expires_at t > now_ms reading"

definition share_on_conflict :: "share_db_row \<Rightarrow> share_db_row \<Rightarrow> share_db_row option" where
  "share_on_conflict old excluded = Some (old\<lparr>sh_wrapped_group_key := sh_wrapped_group_key excluded\<rparr>)"

definition share_from_row :: "share_db_row \<Rightarrow> account_row \<Rightarrow> share_row" where
  "share_from_row s a =
     \<lparr>sw_group_id = sh_group_id s, sw_owner_id = sh_owner_id s, sw_user_id = sh_user_id s,
      sw_email = ar_email a, sw_wrapped_group_key = sh_wrapped_group_key s,
      sw_created_at = sh_created_at s\<rparr>"

definition device_on_conflict :: "device_db_row \<Rightarrow> device_db_row \<Rightarrow> device_db_row option" where
  "device_on_conflict old excluded =
     Some (old\<lparr>d_name := d_name excluded, d_last_seen := d_last_seen excluded\<rparr>)"

definition device_from_row :: "device_db_row \<Rightarrow> device_row" where
  "device_from_row d = \<lparr>dr_device_id = d_device_id d, dr_name = d_name d, dr_last_seen = d_last_seen d\<rparr>"

section \<open>Queries on shares\<close>

definition group_shared :: "tables \<Rightarrow> string \<Rightarrow> bool" where
  "group_shared t g \<longleftrightarrow> list_ex (\<lambda>s. sh_group_id s = g) (shares t)"

definition in_group :: "tables \<Rightarrow> string \<Rightarrow> string \<Rightarrow> bool" where
  "in_group t a g \<longleftrightarrow>
     list_ex (\<lambda>s. sh_group_id s = g \<and> (sh_owner_id s = a \<or> sh_user_id s = a)) (shares t)"

definition group_owner :: "tables \<Rightarrow> string \<Rightarrow> string option" where
  "group_owner t g = map_option sh_owner_id (find (\<lambda>s. sh_group_id s = g) (shares t))"

section \<open>Tables after a write\<close>

interpretation token_table: keyed_table t_hash token_on_conflict
  by unfold_locales (auto simp: token_on_conflict_def)

interpretation share_table: keyed_table share_key share_on_conflict
  by unfold_locales (auto simp: share_on_conflict_def share_key_def)

interpretation device_table: keyed_table device_key device_on_conflict
  by unfold_locales (auto simp: device_on_conflict_def device_key_def)

lemma set_excluded_eq [simp]: "record_key old = record_key new \<Longrightarrow> set_excluded old new = new"
  by (simp add: record_key_def set_excluded_def)

interpretation record_table: keyed_table record_key "record_on_conflict newer"
  for newer :: "record_row \<Rightarrow> record_row \<Rightarrow> bool"
  by unfold_locales (auto simp: record_on_conflict_def split: if_splits)

text \<open>The record upsert in one equation: the row is written whole or not at all.\<close>

lemma record_upsert_returns:
  "snd (upsert record_key (record_on_conflict newer) new rows) =
     (case row_at record_key (record_key new) rows of
        None \<Rightarrow> Some new
      | Some old \<Rightarrow> if newer new old then Some new else None)"
  by (auto simp: upsert_returns record_on_conflict_def split: option.splits dest: row_at_Some)

lemma tables_ok_put_token:
  assumes "tables_ok t q" "k \<in> {''access'', ''refresh''}"
    and "checked_upsert t_hash token_on_conflict (has_account t a)
           \<lparr>t_hash = h, t_account_id = a, t_kind = k, t_expires_at = x\<rparr> (tokens t) = Inr (ts, ret)"
  shows "tables_ok (t\<lparr>tokens := ts\<rparr>) q"
proof (rule tables_ok_tokens [OF assms(1)])
  show "distinct (map t_hash ts)"
    using assms(1,3) token_table.distinct_keys
    by (simp add: checked_upsert_Inr tables_ok_defs) (metis fst_conv)
  show "\<forall>k \<in> set ts. has_account t (t_account_id k) \<and> t_kind k \<in> {''access'', ''refresh''}"
    using assms by (elim checked_upsert_all) (auto simp: tables_ok_defs token_on_conflict_def)
qed

lemma tables_ok_put_share:
  assumes "tables_ok t q"
    and "checked_upsert share_key share_on_conflict (has_account t a \<and> has_account t u)
           \<lparr>sh_group_id = g, sh_owner_id = a, sh_user_id = u, sh_wrapped_group_key = w, sh_created_at = c\<rparr>
           (shares t) = Inr (ss, ret)"
  shows "tables_ok (t\<lparr>shares := ss\<rparr>) q"
proof (rule tables_ok_shares [OF assms(1)])
  show "distinct (map share_key ss)"
    using assms share_table.distinct_keys
    by (simp add: checked_upsert_Inr tables_ok_defs) (metis fst_conv)
  show "\<forall>s \<in> set ss. has_account t (sh_owner_id s) \<and> has_account t (sh_user_id s)"
    using assms by (elim checked_upsert_all) (auto simp: tables_ok_defs share_on_conflict_def)
qed

lemma tables_ok_touch_device:
  assumes "tables_ok t q"
    and "checked_upsert device_key device_on_conflict (has_account t a)
           \<lparr>d_account_id = a, d_device_id = d, d_name = n, d_last_seen = x\<rparr> (devices t) = Inr (ds, ret)"
  shows "tables_ok (t\<lparr>devices := ds\<rparr>) q"
proof (rule tables_ok_devices [OF assms(1)])
  show "distinct (map device_key ds)"
    using assms device_table.distinct_keys
    by (simp add: checked_upsert_Inr tables_ok_defs) (metis fst_conv)
  show "\<forall>d \<in> set ds. has_account t (d_account_id d)"
    using assms by (elim checked_upsert_all) (auto simp: tables_ok_defs device_on_conflict_def)
qed

lemma distinct_seq_upsert:
  assumes "distinct (map record_key rows)" "distinct (map r_seq rows)" "\<forall>r \<in> set rows. r_seq r < r_seq new"
  shows "distinct (map r_seq (fst (upsert record_key (record_on_conflict newer) new rows)))"
proof -
  have fresh: "r_seq new \<notin> r_seq ` set rows" using assms(3) by auto
  show ?thesis
  proof (cases rule: upsert_cases [of record_key new rows "record_on_conflict newer"])
    case inserted
    with assms(2) fresh show ?thesis by simp
  next
    case (kept old)
    with assms(2) show ?thesis by simp
  next
    case (updated old r)
    then have "r = new" using record_upsert_returns [of newer new rows] by (simp split: if_splits)
    with updated(3) show ?thesis
      unfolding \<open>r = new\<close>
      using distinct_map_replace [OF assms(1,2), of new "record_key new"] fresh by simp
  qed
qed

lemma tables_ok_put_record:
  assumes "tables_ok t q" "q < i64_max" "r_seq new = q + 1"
    and "checked_upsert record_key (record_on_conflict newer) (has_account t (r_account_id new)) new (records t)
           = Inr (rs, ret)"
  shows "tables_ok (t\<lparr>records := rs\<rparr>) (q + 1)"
proof (rule tables_ok_records [OF assms(1)])
  have rs: "rs = fst (upsert record_key (record_on_conflict newer) new (records t))"
    using assms(4) by (simp add: checked_upsert_Inr) (metis fst_conv)
  show "distinct (map record_key rs)"
    using assms(1) unfolding rs by (intro record_table.distinct_keys) (simp add: tables_ok_defs)
  show "distinct (map r_seq rs)"
    using assms(1,3) unfolding rs by (intro distinct_seq_upsert) (auto simp: tables_ok_defs)
  show "\<forall>r \<in> set rs. has_account t (r_account_id r) \<and> 0 < r_seq r \<and> r_seq r \<le> q + 1"
  proof (rule checked_upsert_all [OF assms(4)])
    show "\<forall>r \<in> set (records t). has_account t (r_account_id r) \<and> 0 < r_seq r \<and> r_seq r \<le> q + 1"
      using assms(1) by (auto simp: tables_ok_defs)
    show "has_account t (r_account_id new) \<and> 0 < r_seq new \<and> r_seq new \<le> q + 1"
      if "has_account t (r_account_id new)"
      using that assms(1,3) by (simp add: tables_ok_defs)
    show "has_account t (r_account_id r) \<and> 0 < r_seq r \<and> r_seq r \<le> q + 1"
      if "record_key old = record_key new" "record_on_conflict newer old new = Some r"
        "has_account t (r_account_id old) \<and> 0 < r_seq old \<and> r_seq old \<le> q + 1" for old r
      using that assms(1,3) by (auto simp: record_on_conflict_def tables_ok_defs record_key_def split: if_splits)
  qed
  show "q \<le> q + 1" "q + 1 \<le> i64_max" using assms(2) by simp_all
qed

text \<open>
  \<open>lower_ok\<close> is the fact about Unicode the \<open>NOCASE\<close> column relies on: a lowercased
  string has no ASCII capital. Emails are stored lowercased, so \<open>NOCASE\<close> compares them exactly.
\<close>

definition lower_ok :: "codec \<Rightarrow> bool" where
  "lower_ok cd \<longleftrightarrow> (\<forall>s. to_ascii_lowercase (unicode_lowercase cd s) = unicode_lowercase cd s)"

definition emails_lower :: "tables \<Rightarrow> bool" where
  "emails_lower t \<longleftrightarrow> (\<forall>r \<in> set (accounts t). to_ascii_lowercase (ar_email r) = ar_email r)"

definition rows_decode :: "codec \<Rightarrow> tables \<Rightarrow> bool" where
  "rows_decode cd t \<longleftrightarrow> (\<forall>r \<in> set (records t). \<exists>e. envelope_from_row cd r = Inr e)"

lemma codec_okD:
  assumes "codec_ok cd"
  shows "b64_decode cd (b64_encode cd b) = Inr b"
    and "key_ref_to_json cd k = Inr j \<Longrightarrow> key_ref_of_json cd j = Inr k"
proof -
  show "b64_decode cd (b64_encode cd b) = Inr b" using assms by (simp add: codec_ok_def)
  from assms obtain j' where "key_ref_to_json cd k = Inr j'" "key_ref_of_json cd j' = Inr k"
    by (auto simp: codec_ok_def)
  then show "key_ref_to_json cd k = Inr j \<Longrightarrow> key_ref_of_json cd j = Inr k" by simp
qed

lemma codec_ok_row:
  "codec_ok cd \<Longrightarrow> key_ref_to_json cd (e_key_ref e) = Inr j \<Longrightarrow>
     envelope_from_row cd (record_row_of cd a q j e) = Inr (e\<lparr>e_seq := q\<rparr>)"
  by (simp add: envelope_from_row_def record_row_of_def codec_okD)

text \<open>what is stored is what was pushed: under the codec's round trip, the row written for an envelope reads
  back as that envelope, with the sequence number of the row in place of the pushed one.\<close>

theorem stored_row_reads_back:
  assumes "codec_ok cd" "key_ref_to_json cd (e_key_ref e) = Inr j"
  shows "envelope_from_row cd (record_row_of cd a q j e) = Inr (e\<lparr>e_seq := q\<rparr>)"
  using assms by (rule codec_ok_row)

theorem stored_row_reads_back_witness:
  "envelope_from_row sample_codec (record_row_of sample_codec ''u'' 7 ''P'' sample_envelope)
     = Inr (sample_envelope\<lparr>e_seq := 7\<rparr>)"
  by (rule stored_row_reads_back [OF sample_codec_ok]) (simp add: sample_codec_def sample_envelope_def)

lemma rows_decode_put:
  assumes "rows_decode cd t" "codec_ok cd" "key_ref_to_json cd (e_key_ref e) = Inr j"
  shows "rows_decode cd (t\<lparr>records := fst (upsert record_key (record_on_conflict newer)
           (record_row_of cd a q j e) (records t))\<rparr>)"
proof -
  let ?new = "record_row_of cd a q j e"
  have "\<exists>e. envelope_from_row cd r = Inr e"
    if "r \<in> set (fst (upsert record_key (record_on_conflict newer) ?new (records t)))" for r
    using set_upsertD [OF that] assms(1) codec_ok_row [OF assms(2,3)]
    by (auto simp: rows_decode_def record_upsert_returns split: option.splits if_splits)
  then show ?thesis by (simp add: rows_decode_def)
qed

section \<open>The contract\<close>

text \<open>
  \<open>tab\<close> reads the five tables out of an implementation's state, \<open>counter\<close> the last
  sequence number it handed out, and \<open>inv\<close> is the invariant of an initialised database. Reads
  return what the tables say and change nothing; writes keep the invariant and change the one table
  they are about; a write that fails leaves the tables alone. \<open>newer\<close> is the comparison of the
  record upsert, a last-write-wins order that looks at the clock columns only.
\<close>

locale store_contract = lww newer
  for newer :: "record_row \<Rightarrow> record_row \<Rightarrow> bool" +
  fixes st :: "'s store" and tab :: "'s \<Rightarrow> tables" and counter :: "'s \<Rightarrow> i64"
    and inv :: "'s \<Rightarrow> bool" and cd :: codec
  assumes inv_tables: "inv s \<Longrightarrow> tables_ok (tab s) (counter s)"
    and inv_codec: "inv s \<Longrightarrow> codec_ok cd"
    and inv_decode: "inv s \<Longrightarrow> r \<in> set (records (tab s)) \<Longrightarrow> \<exists>e. envelope_from_row cd r = Inr e"
    and account_by_id:
      "s_account_by_id st i s = (Inr (map_option account_from_row (row_at ar_id i (accounts (tab s)))), s)"
    and account_by_email:
      "inv s \<Longrightarrow> s_account_by_email st m s =
         (Inr (map_option account_from_row (row_at ar_email (email_norm cd m) (accounts (tab s)))), s)"
    and take_token:
      "s_take_token st now h k s =
         (Inr (map_option (\<lambda>t. \<lparr>tr_account_id = t_account_id t\<rparr>) (find (live_token now h k) (tokens (tab s)))), s)"
    and pull:
      "0 \<le> l \<Longrightarrow> s_pull st a c l s =
         (collect_results (map (envelope_from_row cd) (take (nat l) (log_after (tab s) a c))), s)"
    and max_seq: "inv s \<Longrightarrow> \<exists>q \<ge> counter s. s_max_seq st a s = (Inr q, s)"
    and shares_for_group:
      "s_shares_for_group st a g s =
         (Inr [share_from_row h x. h \<leftarrow> shares (tab s), x \<leftarrow> accounts (tab s),
               ar_id x = sh_user_id h \<and> sh_group_id h = g \<and> sh_owner_id h = a], s)"
    and shares_for_user:
      "s_shares_for_user st a s =
         (Inr [share_from_row h x. h \<leftarrow> shares (tab s), x \<leftarrow> accounts (tab s),
               ar_id x = sh_owner_id h \<and> sh_user_id h = a], s)"
    and share_owner: "s_share_owner st g s = (Inr (group_owner (tab s) g), s)"
    and can_write_group:
      "s_can_write_group st a g s = (Inr (\<not> group_shared (tab s) g \<or> in_group (tab s) a g), s)"
    and devices:
      "s_devices st a s =
         (Inr (map device_from_row (sort_key (\<lambda>d. - d_last_seen d)
            (filter (\<lambda>d. d_account_id d = a) (devices (tab s))))), s)"
    and create_account_inv: "inv s \<Longrightarrow> inv (snd (s_create_account st now bytes n s))"
    and create_account_taken:
      "inv s \<Longrightarrow> list_ex (\<lambda>r. ar_id r = hex_encode cd bytes \<or> ar_email r = email_norm cd (n_email n)) (accounts (tab s)) \<Longrightarrow>
         s_create_account st now bytes n s = (Inl EmailTaken, s)"
    and create_account_new:
      "inv s \<Longrightarrow> \<not> list_ex (\<lambda>r. ar_id r = hex_encode cd bytes \<or> ar_email r = email_norm cd (n_email n)) (accounts (tab s)) \<Longrightarrow>
         row = account_row_of (hex_encode cd bytes) (email_norm cd (n_email n)) (now_ms now) n \<Longrightarrow>
         fst (s_create_account st now bytes n s) = Inr (account_from_row row) \<and>
         tab (snd (s_create_account st now bytes n s)) = (tab s)\<lparr>accounts := accounts (tab s) @ [row]\<rparr>"
    and rewrap_inv: "inv s \<Longrightarrow> inv (snd (s_rewrap_account st i n s))"
    and rewrap:
      "fst (s_rewrap_account st i n s) = Inr () \<and>
       tab (snd (s_rewrap_account st i n s)) =
         (tab s)\<lparr>accounts := map (\<lambda>r. if ar_id r = i then rewrap_row n r else r) (accounts (tab s))\<rparr>"
    and put_token_inv: "inv s \<Longrightarrow> inv (snd (s_put_token st h a k x s))"
    and put_token_fail: "fst (s_put_token st h a k x s) = Inl err \<Longrightarrow> tab (snd (s_put_token st h a k x s)) = tab s"
    and put_token:
      "inv s \<Longrightarrow> k \<in> {''access'', ''refresh''} \<Longrightarrow> has_account (tab s) a \<Longrightarrow>
         fst (s_put_token st h a k x s) = Inr () \<and>
         tab (snd (s_put_token st h a k x s)) = (tab s)\<lparr>tokens := fst (upsert t_hash token_on_conflict
           \<lparr>t_hash = h, t_account_id = a, t_kind = k, t_expires_at = x\<rparr> (tokens (tab s)))\<rparr>"
    and consume_token_inv: "inv s \<Longrightarrow> inv (snd (s_consume_token st now h k s))"
    and consume_token:
      "fst (s_consume_token st now h k s) =
         Inr (map_option (\<lambda>t. \<lparr>tr_account_id = t_account_id t\<rparr>) (find (live_token now h k) (tokens (tab s)))) \<and>
       tab (snd (s_consume_token st now h k s)) =
         (tab s)\<lparr>tokens := filter (\<lambda>t. \<not> live_token now h k t) (tokens (tab s))\<rparr>"
    and revoke_inv: "inv s \<Longrightarrow> inv (snd (s_revoke_account_tokens st a s))"
    and revoke:
      "fst (s_revoke_account_tokens st a s) = Inr () \<and>
       tab (snd (s_revoke_account_tokens st a s)) =
         (tab s)\<lparr>tokens := filter (\<lambda>t. t_account_id t \<noteq> a) (tokens (tab s))\<rparr>"
    and put_envelope_inv: "inv s \<Longrightarrow> inv (snd (s_put_envelope st a e s))"
    and put_envelope_frame:
      "\<exists>rs. tab (snd (s_put_envelope st a e s)) = (tab s)\<lparr>records := rs\<rparr>"
    and put_envelope_fail:
      "fst (s_put_envelope st a e s) = Inl err \<Longrightarrow> tab (snd (s_put_envelope st a e s)) = tab s"
    and put_envelope:
      "inv s \<Longrightarrow> has_account (tab s) a \<Longrightarrow> counter s < i64_max \<Longrightarrow>
       key_ref_to_json cd (e_key_ref e) = Inr kr \<Longrightarrow>
       up = upsert record_key (record_on_conflict newer) (record_row_of cd a (counter s + 1) kr e) (records (tab s)) \<Longrightarrow>
         fst (s_put_envelope st a e s) = Inr (map_option r_seq (snd up)) \<and>
         tab (snd (s_put_envelope st a e s)) = (tab s)\<lparr>records := fst up\<rparr> \<and>
         counter (snd (s_put_envelope st a e s)) = counter s + 1"
    and put_share_inv: "inv s \<Longrightarrow> inv (snd (s_put_share st now o' g u w s))"
    and put_share_fail: "fst (s_put_share st now o' g u w s) = Inl err \<Longrightarrow> tab (snd (s_put_share st now o' g u w s)) = tab s"
    and put_share:
      "inv s \<Longrightarrow> has_account (tab s) o' \<Longrightarrow> has_account (tab s) u \<Longrightarrow>
         fst (s_put_share st now o' g u w s) = Inr () \<and>
         tab (snd (s_put_share st now o' g u w s)) = (tab s)\<lparr>shares := fst (upsert share_key share_on_conflict
           \<lparr>sh_group_id = g, sh_owner_id = o', sh_user_id = u, sh_wrapped_group_key = w, sh_created_at = now_ms now\<rparr>
           (shares (tab s)))\<rparr>"
    and delete_share_inv: "inv s \<Longrightarrow> inv (snd (s_delete_share st o' g u s))"
    and delete_share:
      "fst (s_delete_share st o' g u s) = Inr () \<and>
       tab (snd (s_delete_share st o' g u s)) = (tab s)\<lparr>shares := filter (\<lambda>h.
         \<not> (sh_group_id h = g \<and> sh_owner_id h = o' \<and> sh_user_id h = u)) (shares (tab s))\<rparr>"
    and touch_device_inv: "inv s \<Longrightarrow> inv (snd (s_touch_device st now a d nm s))"
    and touch_device_fail: "fst (s_touch_device st now a d nm s) = Inl err \<Longrightarrow> tab (snd (s_touch_device st now a d nm s)) = tab s"
    and touch_device:
      "inv s \<Longrightarrow> has_account (tab s) a \<Longrightarrow>
         fst (s_touch_device st now a d nm s) = Inr () \<and>
         tab (snd (s_touch_device st now a d nm s)) = (tab s)\<lparr>devices := fst (upsert device_key device_on_conflict
           \<lparr>d_account_id = a, d_device_id = d, d_name = nm, d_last_seen = now_ms now\<rparr> (devices (tab s)))\<rparr>"
begin

lemma keeps_max_seq [keeps_intros]: "keeps inv (s_max_seq st a)"
proof (rule keepsI)
  fix s
  assume "inv s"
  with max_seq obtain q where "s_max_seq st a s = (Inr q, s)" by blast
  with \<open>inv s\<close> show "inv (snd (s_max_seq st a s))" by simp
qed

lemma keeps_inv [keeps_intros]:
  "keeps inv (s_account_by_id st i)"
  "keeps inv (s_account_by_email st m)"
  "keeps inv (s_take_token st now h k)"
  "keeps inv (s_shares_for_group st a g)"
  "keeps inv (s_shares_for_user st a)"
  "keeps inv (s_share_owner st g)"
  "keeps inv (s_can_write_group st a g)"
  "keeps inv (s_devices st a)"
  "keeps inv (s_create_account st now bytes n)"
  "keeps inv (s_rewrap_account st i n)"
  "keeps inv (s_put_token st h a k x)"
  "keeps inv (s_consume_token st now h k)"
  "keeps inv (s_revoke_account_tokens st a)"
  "keeps inv (s_put_envelope st a e)"
  "keeps inv (s_put_share st now o' g u w)"
  "keeps inv (s_delete_share st o' g u)"
  "keeps inv (s_touch_device st now a d nm)"
  by (simp_all add: keeps_def account_by_id account_by_email take_token shares_for_group
      shares_for_user share_owner can_write_group devices create_account_inv rewrap_inv put_token_inv
      consume_token_inv revoke_inv put_envelope_inv put_share_inv delete_share_inv touch_device_inv)

end

end
