(* ===== verification/Store_Sqlite.thy ===== *)
theory Store_Sqlite
  imports Store_Trait
begin

text \<open>
  \<^verbatim>\<open>server/src/store/sqlite.rs\<close> over \<^verbatim>\<open>schema_sqlite.sql\<close>: one definition per method of the
  \<open>Store\<close> implementation. SQLite's part of the behaviour is written out: foreign keys are
  enforced, text compares bytewise except the \<open>NOCASE\<close> email column, a negative \<open>LIMIT\<close> is no
  limit, and a transaction that fails leaves no trace. The one-row \<open>sequence\<close> table is an optional
  counter, absent until \<open>migrate\<close> has run. Engine failures (I/O, locking, cancellation) are
  not modelled.
\<close>

section \<open>State and rows\<close>

record sqlite_db =
  tabs :: tables
  sequence :: "i64 option"

text \<open>\<open>COLLATE NOCASE\<close> folds the 26 ASCII letters.\<close>

definition nocase_eq :: "string \<Rightarrow> string \<Rightarrow> bool" where
  "nocase_eq a b \<longleftrightarrow> to_ascii_lowercase a = to_ascii_lowercase b"

definition sqlite_new_id :: "codec \<Rightarrow> u8 list \<Rightarrow> string" where
  "sqlite_new_id cd bytes = hex_encode cd bytes"

section \<open>Schema and accounts\<close>

definition sqlite_migrate :: "(error, sqlite_db, unit) op" where
  "sqlite_migrate db =
     (Inr (), db\<lparr>sequence := (case sequence db of None \<Rightarrow> Some 0 | Some n \<Rightarrow> Some n)\<rparr>)"

definition sqlite_account_by_id :: "string \<Rightarrow> (error, sqlite_db, account option) op" where
  "sqlite_account_by_id i db =
     (Inr (map_option account_from_row (row_at ar_id i (accounts (tabs db)))), db)"

definition sqlite_account_by_email :: "codec \<Rightarrow> string \<Rightarrow> (error, sqlite_db, account option) op" where
  "sqlite_account_by_email cd email db =
     (Inr (map_option account_from_row
        (find (\<lambda>r. nocase_eq (ar_email r) (email_norm cd email)) (accounts (tabs db)))), db)"

text \<open>A primary-key collision of the random id is a unique violation like a taken email.\<close>

definition sqlite_create_account ::
  "codec \<Rightarrow> int \<Rightarrow> u8 list \<Rightarrow> new_account \<Rightarrow> (error, sqlite_db, account) op" where
  "sqlite_create_account cd reading id_bytes new db =
     (let i = sqlite_new_id cd id_bytes;
          created_at = now_ms reading;
          email = email_norm cd (n_email new);
          row = account_row_of i email created_at new
      in if list_ex (\<lambda>r. ar_id r = i \<or> nocase_eq (ar_email r) email) (accounts (tabs db))
         then (Inl EmailTaken, db)
         else bind_op (sqlite_account_by_id i)
                (ok_or (Internal ''account vanished after insert''))
                (db\<lparr>tabs := (tabs db)\<lparr>accounts := accounts (tabs db) @ [row]\<rparr>\<rparr>))"

definition sqlite_rewrap_account :: "string \<Rightarrow> new_account \<Rightarrow> (error, sqlite_db, unit) op" where
  "sqlite_rewrap_account i new db =
     (Inr (), db\<lparr>tabs := (tabs db)\<lparr>accounts :=
        map (\<lambda>r. if ar_id r = i then rewrap_row new r else r) (accounts (tabs db))\<rparr>\<rparr>)"

section \<open>Tokens\<close>

definition sqlite_put_token ::
  "string \<Rightarrow> string \<Rightarrow> string \<Rightarrow> i64 \<Rightarrow> (error, sqlite_db, unit) op" where
  "sqlite_put_token hash account_id kind expires_at db =
     (if kind \<notin> {''access'', ''refresh''} then (Inl (Db CheckViolation), db)
      else case checked_upsert t_hash token_on_conflict (has_account (tabs db) account_id)
             \<lparr>t_hash = hash, t_account_id = account_id, t_kind = kind, t_expires_at = expires_at\<rparr>
             (tokens (tabs db)) of
        Inl e \<Rightarrow> (Inl e, db)
      | Inr (ts, _) \<Rightarrow> (Inr (), db\<lparr>tabs := (tabs db)\<lparr>tokens := ts\<rparr>\<rparr>))"

definition sqlite_take_token ::
  "int \<Rightarrow> string \<Rightarrow> string \<Rightarrow> (error, sqlite_db, token_row option) op" where
  "sqlite_take_token reading hash kind db =
     (Inr (map_option (\<lambda>t. \<lparr>tr_account_id = t_account_id t\<rparr>)
        (find (live_token reading hash kind) (tokens (tabs db)))), db)"

definition sqlite_consume_token ::
  "int \<Rightarrow> string \<Rightarrow> string \<Rightarrow> (error, sqlite_db, token_row option) op" where
  "sqlite_consume_token reading hash kind db =
     (let (ts, ret) = delete_returning (live_token reading hash kind) (tokens (tabs db))
      in (Inr (map_option (\<lambda>t. \<lparr>tr_account_id = t_account_id t\<rparr>) ret),
          db\<lparr>tabs := (tabs db)\<lparr>tokens := ts\<rparr>\<rparr>))"

definition sqlite_revoke_account_tokens :: "string \<Rightarrow> (error, sqlite_db, unit) op" where
  "sqlite_revoke_account_tokens account_id db =
     (Inr (), db\<lparr>tabs := (tabs db)\<lparr>tokens := filter (\<lambda>t. t_account_id t \<noteq> account_id) (tokens (tabs db))\<rparr>\<rparr>)"

section \<open>Records\<close>

text \<open>The \<open>WHERE\<close> of the conflict clause is the last-write-wins comparison.\<close>

definition sqlite_newer :: "record_row \<Rightarrow> record_row \<Rightarrow> bool" where
  "sqlite_newer excluded stored \<longleftrightarrow>
     r_updated_at excluded > r_updated_at stored \<or>
     r_updated_at excluded = r_updated_at stored \<and> r_device_id excluded > r_device_id stored"

text \<open>One transaction: the counter, then the upsert. A failure inside it rolls the counter back. At the last
  \<open>i64\<close> SQLite turns \<open>next + 1\<close> into a floating-point number, which cannot be read back as
  an \<open>i64\<close>: \<^verbatim>\<open>get\<close> panics before the commit, and the dropped transaction rolls back. The model returns an
  error there; the source sends no response at all.\<close>

definition sqlite_put_envelope ::
  "codec \<Rightarrow> string \<Rightarrow> envelope \<Rightarrow> (error, sqlite_db, i64 option) op" where
  "sqlite_put_envelope cd account_id e db =
     (case sequence db of
        None \<Rightarrow> (Inl (Db RowNotFound), db)
      | Some n \<Rightarrow>
          if n \<ge> i64_max then (Inl (Db SequenceExhausted), db)
          else
            (case key_ref_to_json cd (e_key_ref e) of
               Inl m \<Rightarrow> (Inl (Internal m), db)
             | Inr key_ref \<Rightarrow>
                 (case checked_upsert record_key (record_on_conflict sqlite_newer) (has_account (tabs db) account_id)
                         (record_row_of cd account_id (n + 1) key_ref e) (records (tabs db)) of
                    Inl err \<Rightarrow> (Inl err, db)
                  | Inr (rs, ret) \<Rightarrow>
                      (Inr (map_option r_seq ret),
                       db\<lparr>sequence := Some (n + 1), tabs := (tabs db)\<lparr>records := rs\<rparr>\<rparr>))))"

definition sqlite_pull ::
  "codec \<Rightarrow> string \<Rightarrow> i64 \<Rightarrow> i64 \<Rightarrow> (error, sqlite_db, envelope list) op" where
  "sqlite_pull cd account_id cursor limit db =
     (let rows = log_after (tabs db) account_id cursor;
          page = (if limit < 0 then rows else take (nat limit) rows)
      in (collect_results (map (envelope_from_row cd) page), db))"

definition sqlite_max_seq :: "string \<Rightarrow> (error, sqlite_db, i64) op" where
  "sqlite_max_seq account_id db =
     (case sequence db of None \<Rightarrow> (Inl (Db RowNotFound), db) | Some n \<Rightarrow> (Inr n, db))"

section \<open>Shares\<close>

definition sqlite_put_share ::
  "int \<Rightarrow> string \<Rightarrow> string \<Rightarrow> string \<Rightarrow> string \<Rightarrow> (error, sqlite_db, unit) op" where
  "sqlite_put_share reading owner_id group_id user_id wrapped db =
     (case checked_upsert share_key share_on_conflict
             (has_account (tabs db) owner_id \<and> has_account (tabs db) user_id)
             \<lparr>sh_group_id = group_id, sh_owner_id = owner_id, sh_user_id = user_id,
              sh_wrapped_group_key = wrapped, sh_created_at = now_ms reading\<rparr>
             (shares (tabs db)) of
        Inl e \<Rightarrow> (Inl e, db)
      | Inr (ss, _) \<Rightarrow> (Inr (), db\<lparr>tabs := (tabs db)\<lparr>shares := ss\<rparr>\<rparr>))"

definition sqlite_shares_for_group ::
  "string \<Rightarrow> string \<Rightarrow> (error, sqlite_db, share_row list) op" where
  "sqlite_shares_for_group owner_id group_id db =
     (Inr [share_from_row s a. s \<leftarrow> shares (tabs db), a \<leftarrow> accounts (tabs db),
           ar_id a = sh_user_id s \<and> sh_group_id s = group_id \<and> sh_owner_id s = owner_id], db)"

definition sqlite_delete_share ::
  "string \<Rightarrow> string \<Rightarrow> string \<Rightarrow> (error, sqlite_db, unit) op" where
  "sqlite_delete_share owner_id group_id user_id db =
     (Inr (), db\<lparr>tabs := (tabs db)\<lparr>shares := filter (\<lambda>s.
        \<not> (sh_group_id s = group_id \<and> sh_owner_id s = owner_id \<and> sh_user_id s = user_id)) (shares (tabs db))\<rparr>\<rparr>)"

definition sqlite_shares_for_user :: "string \<Rightarrow> (error, sqlite_db, share_row list) op" where
  "sqlite_shares_for_user user_id db =
     (Inr [share_from_row s a. s \<leftarrow> shares (tabs db), a \<leftarrow> accounts (tabs db),
           ar_id a = sh_owner_id s \<and> sh_user_id s = user_id], db)"

text \<open>\<open>LIMIT 1\<close> without an \<open>ORDER BY\<close>: the first row of the scan.\<close>

definition sqlite_share_owner :: "string \<Rightarrow> (error, sqlite_db, string option) op" where
  "sqlite_share_owner group_id db =
     (Inr (group_owner (tabs db) group_id), db)"

definition sqlite_can_write_group :: "string \<Rightarrow> string \<Rightarrow> (error, sqlite_db, bool) op" where
  "sqlite_can_write_group account_id group_id db =
     (Inr (\<not> group_shared (tabs db) group_id \<or> in_group (tabs db) account_id group_id), db)"

section \<open>Devices\<close>

definition sqlite_touch_device ::
  "int \<Rightarrow> string \<Rightarrow> string \<Rightarrow> string \<Rightarrow> (error, sqlite_db, unit) op" where
  "sqlite_touch_device reading account_id device_id name db =
     (case checked_upsert device_key device_on_conflict (has_account (tabs db) account_id)
             \<lparr>d_account_id = account_id, d_device_id = device_id, d_name = name, d_last_seen = now_ms reading\<rparr>
             (devices (tabs db)) of
        Inl e \<Rightarrow> (Inl e, db)
      | Inr (ds, _) \<Rightarrow> (Inr (), db\<lparr>tabs := (tabs db)\<lparr>devices := ds\<rparr>\<rparr>))"

definition sqlite_devices :: "string \<Rightarrow> (error, sqlite_db, device_row list) op" where
  "sqlite_devices account_id db =
     (Inr (map device_from_row (sort_key (\<lambda>d. - d_last_seen d) (filter (\<lambda>d. d_account_id d = account_id) (devices (tabs db))))), db)"

section \<open>The store\<close>

definition sqlite_store :: "codec \<Rightarrow> sqlite_db store" where
  "sqlite_store cd =
     \<lparr>s_migrate = sqlite_migrate,
      s_create_account = sqlite_create_account cd,
      s_account_by_email = sqlite_account_by_email cd,
      s_account_by_id = sqlite_account_by_id,
      s_rewrap_account = sqlite_rewrap_account,
      s_put_token = sqlite_put_token,
      s_take_token = sqlite_take_token,
      s_consume_token = sqlite_consume_token,
      s_revoke_account_tokens = sqlite_revoke_account_tokens,
      s_put_envelope = sqlite_put_envelope cd,
      s_pull = sqlite_pull cd,
      s_max_seq = sqlite_max_seq,
      s_put_share = sqlite_put_share,
      s_shares_for_group = sqlite_shares_for_group,
      s_delete_share = sqlite_delete_share,
      s_shares_for_user = sqlite_shares_for_user,
      s_share_owner = sqlite_share_owner,
      s_can_write_group = sqlite_can_write_group,
      s_touch_device = sqlite_touch_device,
      s_devices = sqlite_devices\<rparr>"

section \<open>Invariant\<close>

definition sqlite_counter :: "sqlite_db \<Rightarrow> i64" where
  "sqlite_counter db = (case sequence db of None \<Rightarrow> 0 | Some n \<Rightarrow> n)"

definition sqlite_inv :: "codec \<Rightarrow> sqlite_db \<Rightarrow> bool" where
  "sqlite_inv cd db \<longleftrightarrow> codec_ok cd \<and> lower_ok cd \<and> sequence db \<noteq> None \<and>
     tables_ok (tabs db) (sqlite_counter db) \<and> emails_lower (tabs db) \<and> rows_decode cd (tabs db)"

lemmas sqlite_defs =
  sqlite_create_account_def sqlite_rewrap_account_def sqlite_put_token_def sqlite_consume_token_def
  sqlite_revoke_account_tokens_def sqlite_put_envelope_def sqlite_put_share_def sqlite_delete_share_def
  sqlite_touch_device_def

lemmas sqlite_read_defs =
  sqlite_account_by_id_def sqlite_account_by_email_def sqlite_take_token_def sqlite_pull_def
  sqlite_max_seq_def sqlite_shares_for_group_def sqlite_shares_for_user_def sqlite_share_owner_def
  sqlite_can_write_group_def sqlite_devices_def

lemma sqlite_inv_tabs:
  assumes "sqlite_inv cd db" "tables_ok t (sqlite_counter db)" "emails_lower t" "rows_decode cd t"
  shows "sqlite_inv cd (db\<lparr>tabs := t\<rparr>)"
  using assms by (simp add: sqlite_inv_def sqlite_counter_def)

lemma sqlite_inv_tabs_frame:
  assumes "sqlite_inv cd db" "tables_ok t (sqlite_counter db)"
    and "accounts t = accounts (tabs db)" "records t = records (tabs db)"
  shows "sqlite_inv cd (db\<lparr>tabs := t\<rparr>)"
  using assms by (intro sqlite_inv_tabs) (simp_all add: sqlite_inv_def emails_lower_def rows_decode_def)

lemma email_norm_lower: "lower_ok cd \<Longrightarrow> to_ascii_lowercase (email_norm cd m) = email_norm cd m"
  by (simp add: lower_ok_def email_norm_def to_lowercase_def)

lemma nocase_eq_norm:
  assumes "lower_ok cd" "emails_lower t" "r \<in> set (accounts t)"
  shows "nocase_eq (ar_email r) (email_norm cd m) \<longleftrightarrow> ar_email r = email_norm cd m"
  using assms by (auto simp: nocase_eq_def emails_lower_def email_norm_lower)

lemma sqlite_taken:
  assumes "sqlite_inv cd db"
  shows "list_ex (\<lambda>r. ar_id r = i \<or> nocase_eq (ar_email r) (email_norm cd m)) (accounts (tabs db)) \<longleftrightarrow>
    list_ex (\<lambda>r. ar_id r = i \<or> ar_email r = email_norm cd m) (accounts (tabs db))"
  using assms nocase_eq_norm by (auto simp: sqlite_inv_def list_ex_iff)

lemma sqlite_create_account_new:
  assumes "sqlite_inv cd db"
    and free: "\<not> list_ex (\<lambda>r. ar_id r = hex_encode cd bytes \<or> ar_email r = email_norm cd (n_email n)) (accounts (tabs db))"
    and row: "row = account_row_of (hex_encode cd bytes) (email_norm cd (n_email n)) (now_ms now) n"
  shows "sqlite_create_account cd now bytes n db =
    (Inr (account_from_row row), db\<lparr>tabs := (tabs db)\<lparr>accounts := accounts (tabs db) @ [row]\<rparr>\<rparr>)"
proof -
  have "ar_id row = hex_encode cd bytes" by (simp add: row account_row_of_def)
  moreover from free have "row_at ar_id (hex_encode cd bytes) (accounts (tabs db)) = None"
    unfolding row_at_None by (auto simp: list_ex_iff)
  ultimately have "row_at ar_id (hex_encode cd bytes) (accounts (tabs db) @ [row]) = Some row"
    by (simp add: row_at_append)
  then show ?thesis
    using free by (simp add: sqlite_create_account_def Let_def sqlite_taken [OF assms(1)] sqlite_new_id_def
        sqlite_account_by_id_def bind_op_def ok_or_def ok_op_def row)
qed

lemma sqlite_create_account_taken:
  assumes "sqlite_inv cd db"
    and "list_ex (\<lambda>r. ar_id r = hex_encode cd bytes \<or> ar_email r = email_norm cd (n_email n)) (accounts (tabs db))"
  shows "sqlite_create_account cd now bytes n db = (Inl EmailTaken, db)"
  using assms(2) by (simp add: sqlite_create_account_def Let_def sqlite_taken [OF assms(1)] sqlite_new_id_def)

lemma sqlite_create_account_inv:
  assumes "sqlite_inv cd db"
  shows "sqlite_inv cd (snd (sqlite_create_account cd now bytes n db))"
proof (cases "list_ex (\<lambda>r. ar_id r = hex_encode cd bytes \<or> ar_email r = email_norm cd (n_email n)) (accounts (tabs db))")
  case True
  with assms show ?thesis by (simp add: sqlite_create_account_taken)
next
  case False
  define row where "row = account_row_of (hex_encode cd bytes) (email_norm cd (n_email n)) (now_ms now) n"
  have "tables_ok ((tabs db)\<lparr>accounts := accounts (tabs db) @ [row]\<rparr>) (sqlite_counter db)"
    using assms False
    by (intro tables_ok_accounts) (auto simp: sqlite_inv_def tables_ok_defs row_def account_row_of_def list_ex_iff)
  moreover have "emails_lower ((tabs db)\<lparr>accounts := accounts (tabs db) @ [row]\<rparr>)"
    using assms by (auto simp: sqlite_inv_def emails_lower_def row_def account_row_of_def email_norm_lower)
  ultimately have "sqlite_inv cd (db\<lparr>tabs := (tabs db)\<lparr>accounts := accounts (tabs db) @ [row]\<rparr>\<rparr>)"
    using assms by (intro sqlite_inv_tabs) (simp_all add: sqlite_inv_def rows_decode_def)
  then show ?thesis using sqlite_create_account_new [OF assms False row_def] by simp
qed

lemma sqlite_rewrap_inv:
  assumes "sqlite_inv cd db"
  shows "sqlite_inv cd (snd (sqlite_rewrap_account i n db))"
proof -
  let ?as = "map (\<lambda>r. if ar_id r = i then rewrap_row n r else r) (accounts (tabs db))"
  have ids: "map ar_id ?as = map ar_id (accounts (tabs db))" and mails: "map ar_email ?as = map ar_email (accounts (tabs db))"
    by (auto simp: rewrap_row_def)
  have "tables_ok ((tabs db)\<lparr>accounts := ?as\<rparr>) (sqlite_counter db)"
    using assms by (intro tables_ok_accounts) (simp_all only: ids mails, simp_all add: sqlite_inv_def tables_ok_defs)
  moreover have "emails_lower ((tabs db)\<lparr>accounts := ?as\<rparr>)"
    using assms by (auto simp: sqlite_inv_def emails_lower_def rewrap_row_def)
  ultimately show ?thesis
    using assms by (simp add: sqlite_rewrap_account_def sqlite_inv_tabs sqlite_inv_def rows_decode_def sqlite_counter_def)
qed

lemma sqlite_inv_ok: "sqlite_inv cd db \<Longrightarrow> tables_ok (tabs db) (sqlite_counter db)"
  by (simp add: sqlite_inv_def)

lemma sqlite_token_writes_inv:
  assumes "sqlite_inv cd db"
  shows "sqlite_inv cd (snd (sqlite_put_token h a k x db))"
    and "sqlite_inv cd (snd (sqlite_consume_token now h k db))"
    and "sqlite_inv cd (snd (sqlite_revoke_account_tokens a db))"
proof -
  note ok = sqlite_inv_ok [OF assms]
  show "sqlite_inv cd (snd (sqlite_put_token h a k x db))"
  proof (cases "k \<in> {''access'', ''refresh''}")
    case True
    from tables_ok_put_token [OF ok True] True assms show ?thesis
      by (auto simp: sqlite_put_token_def split: sum.splits intro!: sqlite_inv_tabs_frame)
  next
    case False
    with assms show ?thesis by (simp add: sqlite_put_token_def)
  qed
  have filter: "tables_ok ((tabs db)\<lparr>tokens := filter p (tokens (tabs db))\<rparr>) (sqlite_counter db)" for p
    using ok by (intro tables_ok_tokens) (auto simp: tables_ok_defs distinct_map_filter_key)
  show "sqlite_inv cd (snd (sqlite_consume_token now h k db))"
    and "sqlite_inv cd (snd (sqlite_revoke_account_tokens a db))"
    using assms filter
    by (auto simp: sqlite_consume_token_def sqlite_revoke_account_tokens_def delete_returning_def
        intro!: sqlite_inv_tabs_frame)
qed

lemma sqlite_share_writes_inv:
  assumes "sqlite_inv cd db"
  shows "sqlite_inv cd (snd (sqlite_put_share now a g u w db))"
    and "sqlite_inv cd (snd (sqlite_delete_share a g u db))"
    and "sqlite_inv cd (snd (sqlite_touch_device now a d m db))"
proof -
  note ok = sqlite_inv_ok [OF assms]
  show "sqlite_inv cd (snd (sqlite_put_share now a g u w db))"
    using assms tables_ok_put_share [OF ok]
    by (auto simp: sqlite_put_share_def split: sum.splits intro!: sqlite_inv_tabs_frame)
  have "tables_ok ((tabs db)\<lparr>shares := filter p (shares (tabs db))\<rparr>) (sqlite_counter db)" for p
    using ok by (intro tables_ok_shares) (auto simp: tables_ok_defs distinct_map_filter_key)
  with assms show "sqlite_inv cd (snd (sqlite_delete_share a g u db))"
    by (auto simp: sqlite_delete_share_def intro!: sqlite_inv_tabs_frame)
  show "sqlite_inv cd (snd (sqlite_touch_device now a d m db))"
    using assms tables_ok_touch_device [OF ok]
    by (auto simp: sqlite_touch_device_def split: sum.splits intro!: sqlite_inv_tabs_frame)
qed

lemma sqlite_put_envelope_inv:
  assumes "sqlite_inv cd db"
  shows "sqlite_inv cd (snd (sqlite_put_envelope cd a e db))"
proof -
  obtain n where n: "sequence db = Some n" using assms by (auto simp: sqlite_inv_def)
  have ok: "tables_ok (tabs db) n" using sqlite_inv_ok [OF assms] n by (simp add: sqlite_counter_def)
  show ?thesis
  proof (cases "n \<ge> i64_max")
    case True
    with assms n show ?thesis by (simp add: sqlite_put_envelope_def)
  next
    case False
    show ?thesis
    proof (cases "\<exists>j rs ret. key_ref_to_json cd (e_key_ref e) = Inr j \<and>
        checked_upsert record_key (record_on_conflict sqlite_newer) (has_account (tabs db) a)
          (record_row_of cd a (n + 1) j e) (records (tabs db)) = Inr (rs, ret)")
      case True
      then obtain j rs ret where j: "key_ref_to_json cd (e_key_ref e) = Inr j"
        and up: "checked_upsert record_key (record_on_conflict sqlite_newer) (has_account (tabs db) a)
          (record_row_of cd a (n + 1) j e) (records (tabs db)) = Inr (rs, ret)" by blast
      have "rs = fst (upsert record_key (record_on_conflict sqlite_newer) (record_row_of cd a (n + 1) j e) (records (tabs db)))"
        using up by (simp add: checked_upsert_Inr) (metis fst_conv)
      then have "rows_decode cd ((tabs db)\<lparr>records := rs\<rparr>)"
        using rows_decode_put [OF _ _ j] assms by (simp add: sqlite_inv_def)
      moreover have "tables_ok ((tabs db)\<lparr>records := rs\<rparr>) (n + 1)"
        using tables_ok_put_record [OF ok _ _ _, of "record_row_of cd a (n + 1) j e" sqlite_newer rs ret] up False
        by simp
      ultimately show ?thesis
        using assms n False j up
        by (simp add: sqlite_put_envelope_def sqlite_inv_def sqlite_counter_def emails_lower_def)
    next
      case none: False
      then have "snd (sqlite_put_envelope cd a e db) = db"
        using n False by (auto simp: sqlite_put_envelope_def split: sum.splits)
      with assms show ?thesis by simp
    qed
  qed
qed

section \<open>SQLite keeps the contract\<close>

lemma row_at_find: "row_at key k rows = find (\<lambda>r. key r = k) rows"
  by (simp add: row_at_def)

lemma sqlite_find_email:
  assumes "sqlite_inv cd db"
  shows "find (\<lambda>r. nocase_eq (ar_email r) (email_norm cd m)) (accounts (tabs db)) =
    row_at ar_email (email_norm cd m) (accounts (tabs db))"
  using assms nocase_eq_norm unfolding row_at_def
  by (intro find_cong) (auto simp: sqlite_inv_def)

lemma sqlite_put_envelope_frame:
  "\<exists>rs. tabs (snd (sqlite_put_envelope cd a e db)) = (tabs db)\<lparr>records := rs\<rparr>"
  by (auto simp: sqlite_put_envelope_def split: option.splits sum.splits prod.splits
      intro: exI [where x = "records (tabs db)"])

lemma sqlite_put_envelope_fail:
  "fst (sqlite_put_envelope cd a e db) = Inl err \<Longrightarrow> tabs (snd (sqlite_put_envelope cd a e db)) = tabs db"
  by (auto simp: sqlite_put_envelope_def split: option.splits sum.splits prod.splits if_splits)

lemma sqlite_put_envelope_eq:
  assumes "sqlite_inv cd db" "has_account (tabs db) a" "sqlite_counter db < i64_max"
    and "key_ref_to_json cd (e_key_ref e) = Inr j"
    and "up = upsert record_key (record_on_conflict sqlite_newer)
           (record_row_of cd a (sqlite_counter db + 1) j e) (records (tabs db))"
  shows "sqlite_put_envelope cd a e db = (Inr (map_option r_seq (snd up)),
     db\<lparr>sequence := Some (sqlite_counter db + 1), tabs := (tabs db)\<lparr>records := fst up\<rparr>\<rparr>)"
proof -
  obtain n where n: "sequence db = Some n" using assms(1) by (auto simp: sqlite_inv_def)
  obtain rs ret where up: "up = (rs, ret)" by (cases up)
  have "checked_upsert record_key (record_on_conflict sqlite_newer) (has_account (tabs db) a)
      (record_row_of cd a (n + 1) j e) (records (tabs db)) = Inr (rs, ret)"
    using assms(2,5) n up by (simp add: checked_upsert_Inr sqlite_counter_def)
  with assms(3,4) n up show ?thesis by (simp add: sqlite_put_envelope_def sqlite_counter_def)
qed

lemma sqlite_put_token_eq:
  assumes "k \<in> {''access'', ''refresh''}" "has_account (tabs db) a"
  shows "sqlite_put_token h a k x db = (Inr (), db\<lparr>tabs := (tabs db)\<lparr>tokens :=
    fst (upsert t_hash token_on_conflict \<lparr>t_hash = h, t_account_id = a, t_kind = k, t_expires_at = x\<rparr>
      (tokens (tabs db)))\<rparr>\<rparr>)"
  using assms by (auto simp: sqlite_put_token_def checked_upsert_def split: prod.splits)

lemma sqlite_put_share_eq:
  assumes "has_account (tabs db) a" "has_account (tabs db) u"
  shows "sqlite_put_share now a g u w db = (Inr (), db\<lparr>tabs := (tabs db)\<lparr>shares :=
    fst (upsert share_key share_on_conflict \<lparr>sh_group_id = g, sh_owner_id = a, sh_user_id = u,
      sh_wrapped_group_key = w, sh_created_at = now_ms now\<rparr> (shares (tabs db)))\<rparr>\<rparr>)"
  using assms by (auto simp: sqlite_put_share_def checked_upsert_def split: prod.splits)

lemma sqlite_touch_device_eq:
  assumes "has_account (tabs db) a"
  shows "sqlite_touch_device now a d m db = (Inr (), db\<lparr>tabs := (tabs db)\<lparr>devices :=
    fst (upsert device_key device_on_conflict \<lparr>d_account_id = a, d_device_id = d, d_name = m,
      d_last_seen = now_ms now\<rparr> (devices (tabs db)))\<rparr>\<rparr>)"
  using assms by (auto simp: sqlite_touch_device_def checked_upsert_def split: prod.splits)

lemma sqlite_write_fails:
  "fst (sqlite_put_token h a k x db) = Inl err \<Longrightarrow> tabs (snd (sqlite_put_token h a k x db)) = tabs db"
  "fst (sqlite_put_share now a g u w db) = Inl err \<Longrightarrow> tabs (snd (sqlite_put_share now a g u w db)) = tabs db"
  "fst (sqlite_touch_device now a d m db) = Inl err \<Longrightarrow> tabs (snd (sqlite_touch_device now a d m db)) = tabs db"
  by (auto simp: sqlite_put_token_def sqlite_put_share_def sqlite_touch_device_def split: sum.splits if_splits)

lemma sqlite_max_seq_eq: "sqlite_inv cd db \<Longrightarrow> sqlite_max_seq a db = (Inr (sqlite_counter db), db)"
  by (auto simp: sqlite_inv_def sqlite_max_seq_def sqlite_counter_def)

lemmas sqlite_write_invs = sqlite_create_account_inv sqlite_rewrap_inv sqlite_token_writes_inv
  sqlite_put_envelope_inv sqlite_share_writes_inv

lemmas sqlite_write_eqs = sqlite_create_account_taken sqlite_create_account_new sqlite_put_token_eq
  sqlite_put_share_eq sqlite_touch_device_eq sqlite_put_envelope_eq

lemma sqlite_reads:
  "sqlite_inv cd db \<Longrightarrow> sqlite_account_by_email cd m db =
     (Inr (map_option account_from_row (row_at ar_email (email_norm cd m) (accounts (tabs db)))), db)"
  "0 \<le> l \<Longrightarrow> sqlite_pull cd a c l db =
     (collect_results (map (envelope_from_row cd) (take (nat l) (log_after (tabs db) a c))), db)"
  by (simp_all add: sqlite_account_by_email_def sqlite_find_email sqlite_pull_def)

lemma sqlite_filters:
  "fst (sqlite_rewrap_account i n db) = Inr ()"
  "tabs (snd (sqlite_rewrap_account i n db)) =
     (tabs db)\<lparr>accounts := map (\<lambda>r. if ar_id r = i then rewrap_row n r else r) (accounts (tabs db))\<rparr>"
  "fst (sqlite_consume_token now h k db) =
     Inr (map_option (\<lambda>t. \<lparr>tr_account_id = t_account_id t\<rparr>) (find (live_token now h k) (tokens (tabs db))))"
  "tabs (snd (sqlite_consume_token now h k db)) =
     (tabs db)\<lparr>tokens := filter (\<lambda>t. \<not> live_token now h k t) (tokens (tabs db))\<rparr>"
  "fst (sqlite_revoke_account_tokens a db) = Inr ()"
  "tabs (snd (sqlite_revoke_account_tokens a db)) =
     (tabs db)\<lparr>tokens := filter (\<lambda>t. t_account_id t \<noteq> a) (tokens (tabs db))\<rparr>"
  "fst (sqlite_delete_share a g u db) = Inr ()"
  "tabs (snd (sqlite_delete_share a g u db)) = (tabs db)\<lparr>shares := filter (\<lambda>h.
     \<not> (sh_group_id h = g \<and> sh_owner_id h = a \<and> sh_user_id h = u)) (shares (tabs db))\<rparr>"
  by (simp_all add: sqlite_rewrap_account_def sqlite_consume_token_def delete_returning_def
      sqlite_revoke_account_tokens_def sqlite_delete_share_def)

lemma sqlite_counter_update [simp]: "sqlite_counter (db\<lparr>sequence := Some n, tabs := t\<rparr>) = n"
  by (simp add: sqlite_counter_def)

lemma sqlite_inv_facts:
  assumes "sqlite_inv cd db"
  shows "tables_ok (tabs db) (sqlite_counter db)" "codec_ok cd"
    and "r \<in> set (records (tabs db)) \<Longrightarrow> \<exists>e. envelope_from_row cd r = Inr e"
  using assms by (simp_all add: sqlite_inv_def rows_decode_def)

interpretation sqlite: store_contract sqlite_newer "sqlite_store cd" tabs sqlite_counter "sqlite_inv cd" cd
  for cd
proof unfold_locales
  fix a b c :: record_row
  show "\<not> sqlite_newer a a" by (simp add: sqlite_newer_def)
  show "sqlite_newer a b \<Longrightarrow> sqlite_newer b c \<Longrightarrow> sqlite_newer a c" by (auto simp: sqlite_newer_def)
  show "sqlite_newer a b \<Longrightarrow> sqlite_newer a c \<or> sqlite_newer c b" by (auto simp: sqlite_newer_def)
qed (simp_all add: sqlite_store_def sqlite_write_invs sqlite_write_eqs sqlite_reads sqlite_inv_facts
    sqlite_account_by_id_def sqlite_take_token_def sqlite_max_seq_eq sqlite_shares_for_group_def
    sqlite_shares_for_user_def sqlite_share_owner_def sqlite_can_write_group_def sqlite_devices_def
    sqlite_filters sqlite_write_fails sqlite_put_envelope_frame sqlite_put_envelope_fail)

end
