(* ===== verification/Store_Postgres.thy ===== *)
theory Store_Postgres
  imports Store_Trait
begin

text \<open>
  \<^verbatim>\<open>server/src/store/postgres.rs\<close> over \<^verbatim>\<open>schema_postgres.sql\<close>, method by method. What
  differs from SQLite is written out: emails compare exactly, text comparison follows the collation of the
  database (an argument, \<open>coll_gt a b\<close> for \<open>a > b\<close>), a negative \<open>LIMIT\<close> is an error, and
  record numbers come from a sequence object, whose state is its \<open>last_value\<close> and
  \<open>is_called\<close> flag and which a failing statement does not roll back. The file has its own row
  conversions; they give what those of SQLite give.
\<close>

section \<open>State\<close>

record pg_db =
  pg_tabs :: tables
  record_seq :: "(i64 \<times> bool) option"

text \<open>\<open>nextval\<close>: the start value on the first call, then the successor; at the end of \<open>BIGINT\<close> an error.\<close>

definition pg_nextval :: "(i64 \<times> bool) option \<Rightarrow> error + i64" where
  "pg_nextval sq =
     (case sq of
        None \<Rightarrow> Inl (Db UndefinedRelation)
      | Some (last_value, is_called) \<Rightarrow>
          (if \<not> is_called then Inr last_value
           else if last_value \<ge> i64_max then Inl (Db SequenceExhausted)
           else Inr (last_value + 1)))"

definition pg_new_id :: "codec \<Rightarrow> u8 list \<Rightarrow> string" where
  "pg_new_id cd bytes = hex_encode cd bytes"

section \<open>Rows\<close>

definition pg_account_from_row :: "account_row \<Rightarrow> account" where
  "pg_account_from_row r =
     \<lparr>a_id = ar_id r, a_email = ar_email r, a_auth_hash = ar_auth_hash r,
      a_account_public = ar_account_public r,
      a_wrapped_account_secret = ar_wrapped_account_secret r,
      a_wrapped_personal_key = ar_wrapped_personal_key r,
      a_recovery_account_secret = ar_recovery_account_secret r,
      a_recovery_personal_key = ar_recovery_personal_key r,
      a_recovery_auth_hash = ar_recovery_auth_hash r\<rparr>"

text \<open>The source moves nonce and ciphertext out of the row before it decodes them, in that order.\<close>

definition pg_envelope_from_row :: "codec \<Rightarrow> record_row \<Rightarrow> error + envelope" where
  "pg_envelope_from_row cd r =
     (case parse_kind (r_kind r) of
        None \<Rightarrow> Inl (Internal (''stored record has unknown kind '' @ r_kind r))
      | Some kind \<Rightarrow>
     (case map_sum Internal id (key_ref_of_json cd (r_key_ref r)) of
        Inl err \<Rightarrow> Inl err
      | Inr key_ref \<Rightarrow>
     (let nonce = r_nonce r; ciphertext = r_ciphertext r in
      case map_sum Internal id (b64_decode cd nonce) of
        Inl err \<Rightarrow> Inl err
      | Inr nonce \<Rightarrow>
     (case map_sum Internal id (b64_decode cd ciphertext) of
        Inl err \<Rightarrow> Inl err
      | Inr ciphertext \<Rightarrow>
          Inr \<lparr>e_id = r_id r, e_kind = kind, e_key_ref = key_ref, e_group_id = r_group_id r,
               e_parent_id = r_parent_id r, e_sort = r_sort r, e_updated_at = r_updated_at r,
               e_device_id = r_device_id r, e_deleted_at = r_deleted_at r, e_nonce = nonce,
               e_ciphertext = ciphertext, e_seq = r_seq r\<rparr>))))"

definition pg_share_from_row :: "share_db_row \<Rightarrow> account_row \<Rightarrow> share_row" where
  "pg_share_from_row s a =
     \<lparr>sw_group_id = sh_group_id s, sw_owner_id = sh_owner_id s, sw_user_id = sh_user_id s,
      sw_email = ar_email a, sw_wrapped_group_key = sh_wrapped_group_key s,
      sw_created_at = sh_created_at s\<rparr>"

lemma pg_rows [simp]:
  "pg_account_from_row = account_from_row" "pg_envelope_from_row cd = envelope_from_row cd" "pg_share_from_row = share_from_row"
  by ((rule ext)+, simp add: pg_account_from_row_def account_from_row_def pg_envelope_from_row_def envelope_from_row_def Let_def
      pg_share_from_row_def share_from_row_def split: option.split sum.split)+

section \<open>Schema and accounts\<close>

definition pg_migrate :: "(error, pg_db, unit) op" where
  "pg_migrate db =
     (Inr (), db\<lparr>record_seq := (case record_seq db of None \<Rightarrow> Some (1, False) | Some sq \<Rightarrow> Some sq)\<rparr>)"

definition pg_account_by_id :: "string \<Rightarrow> (error, pg_db, account option) op" where
  "pg_account_by_id i db =
     (Inr (map_option pg_account_from_row (row_at ar_id i (accounts (pg_tabs db)))), db)"

definition pg_account_by_email :: "codec \<Rightarrow> string \<Rightarrow> (error, pg_db, account option) op" where
  "pg_account_by_email cd email db =
     (Inr (map_option pg_account_from_row
        (row_at ar_email (email_norm cd email) (accounts (pg_tabs db)))), db)"

text \<open>A primary-key collision of the random id is a unique violation like a taken email.\<close>

definition pg_create_account ::
  "codec \<Rightarrow> int \<Rightarrow> u8 list \<Rightarrow> new_account \<Rightarrow> (error, pg_db, account) op" where
  "pg_create_account cd reading id_bytes new db =
     (let i = pg_new_id cd id_bytes;
          created_at = now_ms reading;
          email = email_norm cd (n_email new);
          row = account_row_of i email created_at new
      in if list_ex (\<lambda>r. ar_id r = i \<or> ar_email r = email) (accounts (pg_tabs db))
         then (Inl EmailTaken, db)
         else bind_op (pg_account_by_id i)
                (ok_or (Internal ''account vanished after insert''))
                (db\<lparr>pg_tabs := (pg_tabs db)\<lparr>accounts := accounts (pg_tabs db) @ [row]\<rparr>\<rparr>))"

definition pg_rewrap_account :: "string \<Rightarrow> new_account \<Rightarrow> (error, pg_db, unit) op" where
  "pg_rewrap_account i new db =
     (Inr (), db\<lparr>pg_tabs := (pg_tabs db)\<lparr>accounts :=
        map (\<lambda>r. if ar_id r = i then rewrap_row new r else r) (accounts (pg_tabs db))\<rparr>\<rparr>)"

section \<open>Tokens\<close>

definition pg_put_token ::
  "string \<Rightarrow> string \<Rightarrow> string \<Rightarrow> i64 \<Rightarrow> (error, pg_db, unit) op" where
  "pg_put_token hash account_id kind expires_at db =
     (if kind \<notin> {''access'', ''refresh''} then (Inl (Db CheckViolation), db)
      else case checked_upsert t_hash token_on_conflict (has_account (pg_tabs db) account_id)
             \<lparr>t_hash = hash, t_account_id = account_id, t_kind = kind, t_expires_at = expires_at\<rparr>
             (tokens (pg_tabs db)) of
        Inl e \<Rightarrow> (Inl e, db)
      | Inr (ts, _) \<Rightarrow> (Inr (), db\<lparr>pg_tabs := (pg_tabs db)\<lparr>tokens := ts\<rparr>\<rparr>))"

definition pg_take_token ::
  "int \<Rightarrow> string \<Rightarrow> string \<Rightarrow> (error, pg_db, token_row option) op" where
  "pg_take_token reading hash kind db =
     (Inr (map_option (\<lambda>t. \<lparr>tr_account_id = t_account_id t\<rparr>)
        (find (live_token reading hash kind) (tokens (pg_tabs db)))), db)"

definition pg_consume_token ::
  "int \<Rightarrow> string \<Rightarrow> string \<Rightarrow> (error, pg_db, token_row option) op" where
  "pg_consume_token reading hash kind db =
     (let (ts, ret) = delete_returning (live_token reading hash kind) (tokens (pg_tabs db))
      in (Inr (map_option (\<lambda>t. \<lparr>tr_account_id = t_account_id t\<rparr>) ret),
          db\<lparr>pg_tabs := (pg_tabs db)\<lparr>tokens := ts\<rparr>\<rparr>))"

definition pg_revoke_account_tokens :: "string \<Rightarrow> (error, pg_db, unit) op" where
  "pg_revoke_account_tokens account_id db =
     (Inr (), db\<lparr>pg_tabs := (pg_tabs db)\<lparr>tokens := filter (\<lambda>t. t_account_id t \<noteq> account_id) (tokens (pg_tabs db))\<rparr>\<rparr>)"

section \<open>Records\<close>

text \<open>The \<open>WHERE\<close> of the conflict clause compares device ids in the database's collation.\<close>

definition pg_newer :: "(string \<Rightarrow> string \<Rightarrow> bool) \<Rightarrow> record_row \<Rightarrow> record_row \<Rightarrow> bool" where
  "pg_newer coll_gt excluded stored \<longleftrightarrow>
     r_updated_at excluded > r_updated_at stored \<or>
     r_updated_at excluded = r_updated_at stored \<and> coll_gt (r_device_id excluded) (r_device_id stored)"

text \<open>One statement. The number is drawn before the row is checked, and stays drawn when the
  statement fails or its \<open>WHERE\<close> is false.\<close>

definition pg_put_envelope ::
  "(string \<Rightarrow> string \<Rightarrow> bool) \<Rightarrow> codec \<Rightarrow> string \<Rightarrow> envelope \<Rightarrow> (error, pg_db, i64 option) op" where
  "pg_put_envelope coll_gt cd account_id e db =
     (case key_ref_to_json cd (e_key_ref e) of
        Inl m \<Rightarrow> (Inl (Internal m), db)
      | Inr key_ref \<Rightarrow>
          (case pg_nextval (record_seq db) of
             Inl err \<Rightarrow> (Inl err, db)
           | Inr q \<Rightarrow>
               (case checked_upsert record_key (record_on_conflict (pg_newer coll_gt))
                       (has_account (pg_tabs db) account_id)
                       (record_row_of cd account_id q key_ref e) (records (pg_tabs db)) of
                  Inl err \<Rightarrow> (Inl err, db\<lparr>record_seq := Some (q, True)\<rparr>)
                | Inr (rs, ret) \<Rightarrow>
                    (Inr (map_option r_seq ret),
                     db\<lparr>record_seq := Some (q, True), pg_tabs := (pg_tabs db)\<lparr>records := rs\<rparr>\<rparr>))))"

definition pg_pull ::
  "codec \<Rightarrow> string \<Rightarrow> i64 \<Rightarrow> i64 \<Rightarrow> (error, pg_db, envelope list) op" where
  "pg_pull cd account_id cursor limit db =
     (if limit < 0 then (Inl (Db NegativeLimit), db)
      else (collect_results (map (pg_envelope_from_row cd)
              (take (nat limit) (log_after (pg_tabs db) account_id cursor))), db))"

text \<open>\<open>SELECT last_value\<close>: on a sequence that was never called this is its start value.\<close>

definition pg_max_seq :: "string \<Rightarrow> (error, pg_db, i64) op" where
  "pg_max_seq account_id db =
     (case record_seq db of
        None \<Rightarrow> (Inl (Db UndefinedRelation), db)
      | Some (last_value, is_called) \<Rightarrow> (Inr last_value, db))"

section \<open>Shares\<close>

definition pg_put_share ::
  "int \<Rightarrow> string \<Rightarrow> string \<Rightarrow> string \<Rightarrow> string \<Rightarrow> (error, pg_db, unit) op" where
  "pg_put_share reading owner_id group_id user_id wrapped db =
     (case checked_upsert share_key share_on_conflict
             (has_account (pg_tabs db) owner_id \<and> has_account (pg_tabs db) user_id)
             \<lparr>sh_group_id = group_id, sh_owner_id = owner_id, sh_user_id = user_id,
              sh_wrapped_group_key = wrapped, sh_created_at = now_ms reading\<rparr>
             (shares (pg_tabs db)) of
        Inl e \<Rightarrow> (Inl e, db)
      | Inr (ss, _) \<Rightarrow> (Inr (), db\<lparr>pg_tabs := (pg_tabs db)\<lparr>shares := ss\<rparr>\<rparr>))"

definition pg_shares_for_group ::
  "string \<Rightarrow> string \<Rightarrow> (error, pg_db, share_row list) op" where
  "pg_shares_for_group owner_id group_id db =
     (Inr [pg_share_from_row s a. s \<leftarrow> shares (pg_tabs db), a \<leftarrow> accounts (pg_tabs db),
           ar_id a = sh_user_id s \<and> sh_group_id s = group_id \<and> sh_owner_id s = owner_id], db)"

definition pg_delete_share ::
  "string \<Rightarrow> string \<Rightarrow> string \<Rightarrow> (error, pg_db, unit) op" where
  "pg_delete_share owner_id group_id user_id db =
     (Inr (), db\<lparr>pg_tabs := (pg_tabs db)\<lparr>shares := filter (\<lambda>s.
        \<not> (sh_group_id s = group_id \<and> sh_owner_id s = owner_id \<and> sh_user_id s = user_id)) (shares (pg_tabs db))\<rparr>\<rparr>)"

definition pg_shares_for_user :: "string \<Rightarrow> (error, pg_db, share_row list) op" where
  "pg_shares_for_user user_id db =
     (Inr [pg_share_from_row s a. s \<leftarrow> shares (pg_tabs db), a \<leftarrow> accounts (pg_tabs db),
           ar_id a = sh_owner_id s \<and> sh_user_id s = user_id], db)"

text \<open>\<open>LIMIT 1\<close> without an \<open>ORDER BY\<close>: the first row of the scan.\<close>

definition pg_share_owner :: "string \<Rightarrow> (error, pg_db, string option) op" where
  "pg_share_owner group_id db =
     (Inr (group_owner (pg_tabs db) group_id), db)"

definition pg_can_write_group :: "string \<Rightarrow> string \<Rightarrow> (error, pg_db, bool) op" where
  "pg_can_write_group account_id group_id db =
     (Inr (\<not> group_shared (pg_tabs db) group_id \<or> in_group (pg_tabs db) account_id group_id), db)"

section \<open>Devices\<close>

definition pg_touch_device ::
  "int \<Rightarrow> string \<Rightarrow> string \<Rightarrow> string \<Rightarrow> (error, pg_db, unit) op" where
  "pg_touch_device reading account_id device_id name db =
     (case checked_upsert device_key device_on_conflict (has_account (pg_tabs db) account_id)
             \<lparr>d_account_id = account_id, d_device_id = device_id, d_name = name, d_last_seen = now_ms reading\<rparr>
             (devices (pg_tabs db)) of
        Inl e \<Rightarrow> (Inl e, db)
      | Inr (ds, _) \<Rightarrow> (Inr (), db\<lparr>pg_tabs := (pg_tabs db)\<lparr>devices := ds\<rparr>\<rparr>))"

definition pg_devices :: "string \<Rightarrow> (error, pg_db, device_row list) op" where
  "pg_devices account_id db =
     (Inr (map device_from_row (sort_key (\<lambda>d. - d_last_seen d) (filter (\<lambda>d. d_account_id d = account_id) (devices (pg_tabs db))))), db)"

section \<open>The store\<close>

definition pg_store :: "(string \<Rightarrow> string \<Rightarrow> bool) \<Rightarrow> codec \<Rightarrow> pg_db store" where
  "pg_store coll_gt cd =
     \<lparr>s_migrate = pg_migrate,
      s_create_account = pg_create_account cd,
      s_account_by_email = pg_account_by_email cd,
      s_account_by_id = pg_account_by_id,
      s_rewrap_account = pg_rewrap_account,
      s_put_token = pg_put_token,
      s_take_token = pg_take_token,
      s_consume_token = pg_consume_token,
      s_revoke_account_tokens = pg_revoke_account_tokens,
      s_put_envelope = pg_put_envelope coll_gt cd,
      s_pull = pg_pull cd,
      s_max_seq = pg_max_seq,
      s_put_share = pg_put_share,
      s_shares_for_group = pg_shares_for_group,
      s_delete_share = pg_delete_share,
      s_shares_for_user = pg_shares_for_user,
      s_share_owner = pg_share_owner,
      s_can_write_group = pg_can_write_group,
      s_touch_device = pg_touch_device,
      s_devices = pg_devices\<rparr>"

section \<open>Invariant\<close>

definition pg_counter :: "pg_db \<Rightarrow> i64" where
  "pg_counter db = (case record_seq db of None \<Rightarrow> 0
     | Some (last_value, is_called) \<Rightarrow> if is_called then last_value else last_value - 1)"

definition pg_inv :: "codec \<Rightarrow> pg_db \<Rightarrow> bool" where
  "pg_inv cd db \<longleftrightarrow> codec_ok cd \<and>
     (case record_seq db of None \<Rightarrow> False | Some (last_value, is_called) \<Rightarrow> last_value \<le> i64_max) \<and>
     tables_ok (pg_tabs db) (pg_counter db) \<and> rows_decode cd (pg_tabs db)"

lemma pg_shares_eq:
  "pg_shares_for_group owner_id group_id db =
     (Inr [share_from_row s a. s \<leftarrow> shares (pg_tabs db), a \<leftarrow> accounts (pg_tabs db),
           ar_id a = sh_user_id s \<and> sh_group_id s = group_id \<and> sh_owner_id s = owner_id], db)"
  "pg_shares_for_user user_id db =
     (Inr [share_from_row s a. s \<leftarrow> shares (pg_tabs db), a \<leftarrow> accounts (pg_tabs db),
           ar_id a = sh_owner_id s \<and> sh_user_id s = user_id], db)"
  unfolding pg_shares_for_group_def pg_shares_for_user_def pg_rows by (rule refl)+

lemma pg_inv_tabs:
  assumes "pg_inv cd db" "tables_ok t (pg_counter db)" "rows_decode cd t"
  shows "pg_inv cd (db\<lparr>pg_tabs := t\<rparr>)"
  using assms by (simp add: pg_inv_def pg_counter_def)

lemma pg_inv_tabs_frame:
  assumes "pg_inv cd db" "tables_ok t (pg_counter db)"
    and "accounts t = accounts (pg_tabs db)" "records t = records (pg_tabs db)"
  shows "pg_inv cd (db\<lparr>pg_tabs := t\<rparr>)"
  using assms by (intro pg_inv_tabs) (simp_all add: pg_inv_def rows_decode_def)

lemma pg_create_account_new:
  assumes free: "\<not> list_ex (\<lambda>r. ar_id r = hex_encode cd bytes \<or> ar_email r = email_norm cd (n_email n)) (accounts (pg_tabs db))"
    and row: "row = account_row_of (hex_encode cd bytes) (email_norm cd (n_email n)) (now_ms now) n"
  shows "pg_create_account cd now bytes n db =
    (Inr (account_from_row row), db\<lparr>pg_tabs := (pg_tabs db)\<lparr>accounts := accounts (pg_tabs db) @ [row]\<rparr>\<rparr>)"
proof -
  have "ar_id row = hex_encode cd bytes" by (simp add: row account_row_of_def)
  moreover from free have "row_at ar_id (hex_encode cd bytes) (accounts (pg_tabs db)) = None"
    unfolding row_at_None by (auto simp: list_ex_iff)
  ultimately have "row_at ar_id (hex_encode cd bytes) (accounts (pg_tabs db) @ [row]) = Some row"
    by (simp add: row_at_append)
  then show ?thesis
    using free by (simp add: pg_create_account_def Let_def pg_new_id_def
        pg_account_by_id_def bind_op_def ok_or_def ok_op_def row)
qed

lemma pg_create_account_taken:
  assumes "list_ex (\<lambda>r. ar_id r = hex_encode cd bytes \<or> ar_email r = email_norm cd (n_email n)) (accounts (pg_tabs db))"
  shows "pg_create_account cd now bytes n db = (Inl EmailTaken, db)"
  using assms by (simp add: pg_create_account_def Let_def pg_new_id_def)

lemma pg_create_account_inv:
  assumes "pg_inv cd db"
  shows "pg_inv cd (snd (pg_create_account cd now bytes n db))"
proof (cases "list_ex (\<lambda>r. ar_id r = hex_encode cd bytes \<or> ar_email r = email_norm cd (n_email n)) (accounts (pg_tabs db))")
  case True
  with assms show ?thesis by (simp add: pg_create_account_taken)
next
  case False
  define row where "row = account_row_of (hex_encode cd bytes) (email_norm cd (n_email n)) (now_ms now) n"
  have "tables_ok ((pg_tabs db)\<lparr>accounts := accounts (pg_tabs db) @ [row]\<rparr>) (pg_counter db)"
    using assms False
    by (intro tables_ok_accounts) (auto simp: pg_inv_def tables_ok_defs row_def account_row_of_def list_ex_iff)
  then have "pg_inv cd (db\<lparr>pg_tabs := (pg_tabs db)\<lparr>accounts := accounts (pg_tabs db) @ [row]\<rparr>\<rparr>)"
    using assms by (intro pg_inv_tabs) (simp_all add: pg_inv_def rows_decode_def)
  then show ?thesis using pg_create_account_new [OF False row_def] by simp
qed

lemma pg_rewrap_inv:
  assumes "pg_inv cd db"
  shows "pg_inv cd (snd (pg_rewrap_account i n db))"
proof -
  let ?as = "map (\<lambda>r. if ar_id r = i then rewrap_row n r else r) (accounts (pg_tabs db))"
  have ids: "map ar_id ?as = map ar_id (accounts (pg_tabs db))" and mails: "map ar_email ?as = map ar_email (accounts (pg_tabs db))"
    by (auto simp: rewrap_row_def)
  have "tables_ok ((pg_tabs db)\<lparr>accounts := ?as\<rparr>) (pg_counter db)"
    using assms by (intro tables_ok_accounts) (simp_all only: ids mails, simp_all add: pg_inv_def tables_ok_defs)
  then show ?thesis
    using assms by (simp add: pg_rewrap_account_def pg_inv_tabs pg_inv_def rows_decode_def pg_counter_def)
qed

lemma pg_inv_ok: "pg_inv cd db \<Longrightarrow> tables_ok (pg_tabs db) (pg_counter db)"
  by (simp add: pg_inv_def)

lemma pg_token_writes_inv:
  assumes "pg_inv cd db"
  shows "pg_inv cd (snd (pg_put_token h a k x db))"
    and "pg_inv cd (snd (pg_consume_token now h k db))"
    and "pg_inv cd (snd (pg_revoke_account_tokens a db))"
proof -
  note ok = pg_inv_ok [OF assms]
  show "pg_inv cd (snd (pg_put_token h a k x db))"
  proof (cases "k \<in> {''access'', ''refresh''}")
    case True
    from tables_ok_put_token [OF ok True] True assms show ?thesis
      by (auto simp: pg_put_token_def split: sum.splits intro!: pg_inv_tabs_frame)
  next
    case False
    with assms show ?thesis by (simp add: pg_put_token_def)
  qed
  have filter: "tables_ok ((pg_tabs db)\<lparr>tokens := filter p (tokens (pg_tabs db))\<rparr>) (pg_counter db)" for p
    using ok by (intro tables_ok_tokens) (auto simp: tables_ok_defs distinct_map_filter_key)
  show "pg_inv cd (snd (pg_consume_token now h k db))"
    and "pg_inv cd (snd (pg_revoke_account_tokens a db))"
    using assms filter
    by (auto simp: pg_consume_token_def pg_revoke_account_tokens_def delete_returning_def
        intro!: pg_inv_tabs_frame)
qed

lemma pg_share_writes_inv:
  assumes "pg_inv cd db"
  shows "pg_inv cd (snd (pg_put_share now a g u w db))"
    and "pg_inv cd (snd (pg_delete_share a g u db))"
    and "pg_inv cd (snd (pg_touch_device now a d m db))"
proof -
  note ok = pg_inv_ok [OF assms]
  show "pg_inv cd (snd (pg_put_share now a g u w db))"
    using assms tables_ok_put_share [OF ok]
    by (auto simp: pg_put_share_def split: sum.splits intro!: pg_inv_tabs_frame)
  have "tables_ok ((pg_tabs db)\<lparr>shares := filter p (shares (pg_tabs db))\<rparr>) (pg_counter db)" for p
    using ok by (intro tables_ok_shares) (auto simp: tables_ok_defs distinct_map_filter_key)
  with assms show "pg_inv cd (snd (pg_delete_share a g u db))"
    by (auto simp: pg_delete_share_def intro!: pg_inv_tabs_frame)
  show "pg_inv cd (snd (pg_touch_device now a d m db))"
    using assms tables_ok_touch_device [OF ok]
    by (auto simp: pg_touch_device_def split: sum.splits intro!: pg_inv_tabs_frame)
qed

text \<open>The sequence after a draw, and the number drawn.\<close>

lemma pg_nextval_counter:
  assumes "pg_inv cd db"
  shows "pg_nextval (record_seq db) =
    (if pg_counter db < i64_max then Inr (pg_counter db + 1) else Inl (Db SequenceExhausted))"
proof -
  obtain v c where sq: "record_seq db = Some (v, c)"
    using assms by (auto simp: pg_inv_def split: option.splits)
  have "pg_counter db \<le> i64_max" using assms by (simp add: pg_inv_def tables_ok_defs)
  with sq assms show ?thesis by (auto simp: pg_nextval_def pg_counter_def pg_inv_def)
qed

lemma pg_inv_draw:
  assumes "pg_inv cd db" "pg_counter db < i64_max"
  shows "pg_inv cd (db\<lparr>record_seq := Some (pg_counter db + 1, True)\<rparr>)"
proof -
  have "tables_ok (pg_tabs db) (pg_counter db)" using assms by (simp add: pg_inv_def)
  then have "tables_ok (pg_tabs db) (pg_counter db + 1)"
    using assms(2) by (auto simp: tables_ok_defs)
  moreover have "pg_counter db + 1 \<le> i64_max" using assms(2) by simp
  moreover have "pg_counter (db\<lparr>record_seq := Some (pg_counter db + 1, True)\<rparr>) = pg_counter db + 1"
    by (simp add: pg_counter_def)
  ultimately show ?thesis using assms(1) by (simp add: pg_inv_def)
qed

lemma pg_put_envelope_inv:
  assumes "pg_inv cd db"
  shows "pg_inv cd (snd (pg_put_envelope coll_gt cd a e db))"
proof (cases "pg_counter db < i64_max")
  case False
  with assms show ?thesis
    by (simp add: pg_put_envelope_def pg_nextval_counter [OF assms] split: sum.splits)
next
  case lt: True
  let ?new = "\<lambda>j. record_row_of cd a (pg_counter db + 1) j e"
  let ?up = "\<lambda>j. checked_upsert record_key (record_on_conflict (pg_newer coll_gt))
    (has_account (pg_tabs db) a) (?new j) (records (pg_tabs db))"
  have ok: "tables_ok (pg_tabs db) (pg_counter db)" using assms by (simp add: pg_inv_def)
  show ?thesis
  proof (cases "\<exists>j rs ret. key_ref_to_json cd (e_key_ref e) = Inr j \<and> ?up j = Inr (rs, ret)")
    case True
    then obtain j rs ret where j: "key_ref_to_json cd (e_key_ref e) = Inr j" and up: "?up j = Inr (rs, ret)"
      by blast
    have "rs = fst (upsert record_key (record_on_conflict (pg_newer coll_gt)) (?new j) (records (pg_tabs db)))"
      using up by (simp add: checked_upsert_Inr) (metis fst_conv)
    then have "rows_decode cd ((pg_tabs db)\<lparr>records := rs\<rparr>)"
      using rows_decode_put [OF _ _ j] assms by (simp add: pg_inv_def)
    moreover have "tables_ok ((pg_tabs db)\<lparr>records := rs\<rparr>) (pg_counter db + 1)"
      using tables_ok_put_record [OF ok lt, of "?new j" "pg_newer coll_gt" rs ret] up by simp
    ultimately show ?thesis
      using assms lt j up
      by (simp add: pg_put_envelope_def pg_nextval_counter [OF assms]) (simp add: pg_inv_def pg_counter_def)
  next
    case False
    with assms lt pg_inv_draw [OF assms lt] show ?thesis
      by (auto simp: pg_put_envelope_def pg_nextval_counter [OF assms] split: sum.splits)
  qed
qed

section \<open>Postgres keeps the contract\<close>

lemma pg_put_envelope_frame:
  "\<exists>rs. pg_tabs (snd (pg_put_envelope coll_gt cd a e db)) = (pg_tabs db)\<lparr>records := rs\<rparr>"
  by (auto simp: pg_put_envelope_def split: option.splits sum.splits prod.splits
      intro: exI [where x = "records (pg_tabs db)"])

lemma pg_put_envelope_fail:
  "fst (pg_put_envelope coll_gt cd a e db) = Inl err \<Longrightarrow>
     pg_tabs (snd (pg_put_envelope coll_gt cd a e db)) = pg_tabs db"
  by (auto simp: pg_put_envelope_def split: option.splits sum.splits prod.splits if_splits)

lemma pg_put_envelope_eq:
  assumes "pg_inv cd db" "has_account (pg_tabs db) a" "pg_counter db < i64_max"
    and "key_ref_to_json cd (e_key_ref e) = Inr j"
    and "up = upsert record_key (record_on_conflict (pg_newer coll_gt))
           (record_row_of cd a (pg_counter db + 1) j e) (records (pg_tabs db))"
  shows "pg_put_envelope coll_gt cd a e db = (Inr (map_option r_seq (snd up)),
     db\<lparr>record_seq := Some (pg_counter db + 1, True), pg_tabs := (pg_tabs db)\<lparr>records := fst up\<rparr>\<rparr>)"
proof -
  obtain rs ret where up: "up = (rs, ret)" by (cases up)
  have "checked_upsert record_key (record_on_conflict (pg_newer coll_gt)) (has_account (pg_tabs db) a)
      (record_row_of cd a (pg_counter db + 1) j e) (records (pg_tabs db)) = Inr (rs, ret)"
    using assms(2,5) up by (simp add: checked_upsert_Inr)
  with assms(3,4) up show ?thesis by (simp add: pg_put_envelope_def pg_nextval_counter [OF assms(1)])
qed

lemma pg_put_token_eq:
  assumes "k \<in> {''access'', ''refresh''}" "has_account (pg_tabs db) a"
  shows "pg_put_token h a k x db = (Inr (), db\<lparr>pg_tabs := (pg_tabs db)\<lparr>tokens :=
    fst (upsert t_hash token_on_conflict \<lparr>t_hash = h, t_account_id = a, t_kind = k, t_expires_at = x\<rparr>
      (tokens (pg_tabs db)))\<rparr>\<rparr>)"
  using assms by (auto simp: pg_put_token_def checked_upsert_def split: prod.splits)

lemma pg_put_share_eq:
  assumes "has_account (pg_tabs db) a" "has_account (pg_tabs db) u"
  shows "pg_put_share now a g u w db = (Inr (), db\<lparr>pg_tabs := (pg_tabs db)\<lparr>shares :=
    fst (upsert share_key share_on_conflict \<lparr>sh_group_id = g, sh_owner_id = a, sh_user_id = u,
      sh_wrapped_group_key = w, sh_created_at = now_ms now\<rparr> (shares (pg_tabs db)))\<rparr>\<rparr>)"
  using assms by (auto simp: pg_put_share_def checked_upsert_def split: prod.splits)

lemma pg_touch_device_eq:
  assumes "has_account (pg_tabs db) a"
  shows "pg_touch_device now a d m db = (Inr (), db\<lparr>pg_tabs := (pg_tabs db)\<lparr>devices :=
    fst (upsert device_key device_on_conflict \<lparr>d_account_id = a, d_device_id = d, d_name = m,
      d_last_seen = now_ms now\<rparr> (devices (pg_tabs db)))\<rparr>\<rparr>)"
  using assms by (auto simp: pg_touch_device_def checked_upsert_def split: prod.splits)

lemma pg_write_fails:
  "fst (pg_put_token h a k x db) = Inl err \<Longrightarrow> pg_tabs (snd (pg_put_token h a k x db)) = pg_tabs db"
  "fst (pg_put_share now a g u w db) = Inl err \<Longrightarrow> pg_tabs (snd (pg_put_share now a g u w db)) = pg_tabs db"
  "fst (pg_touch_device now a d m db) = Inl err \<Longrightarrow> pg_tabs (snd (pg_touch_device now a d m db)) = pg_tabs db"
  by (auto simp: pg_put_token_def pg_put_share_def pg_touch_device_def split: sum.splits if_splits)

text \<open>Before the first draw \<open>last_value\<close> is one more than the numbers handed out.\<close>

lemma pg_max_seq_eq:
  assumes "pg_inv cd db"
  shows "\<exists>q \<ge> pg_counter db. pg_max_seq a db = (Inr q, db)"
proof -
  obtain v c where "record_seq db = Some (v, c)" using assms by (auto simp: pg_inv_def split: option.splits)
  then show ?thesis by (simp add: pg_max_seq_def pg_counter_def)
qed

lemmas pg_write_invs = pg_create_account_inv pg_rewrap_inv pg_token_writes_inv
  pg_put_envelope_inv pg_share_writes_inv

lemmas pg_write_eqs = pg_create_account_taken pg_create_account_new pg_put_token_eq
  pg_put_share_eq pg_touch_device_eq pg_put_envelope_eq

lemma pg_pull_page:
  "0 \<le> l \<Longrightarrow> pg_pull cd a c l db =
     (collect_results (map (envelope_from_row cd) (take (nat l) (log_after (pg_tabs db) a c))), db)"
  by (simp add: pg_pull_def)

lemma pg_filters:
  "fst (pg_rewrap_account i n db) = Inr ()"
  "pg_tabs (snd (pg_rewrap_account i n db)) =
     (pg_tabs db)\<lparr>accounts := map (\<lambda>r. if ar_id r = i then rewrap_row n r else r) (accounts (pg_tabs db))\<rparr>"
  "fst (pg_consume_token now h k db) =
     Inr (map_option (\<lambda>t. \<lparr>tr_account_id = t_account_id t\<rparr>) (find (live_token now h k) (tokens (pg_tabs db))))"
  "pg_tabs (snd (pg_consume_token now h k db)) =
     (pg_tabs db)\<lparr>tokens := filter (\<lambda>t. \<not> live_token now h k t) (tokens (pg_tabs db))\<rparr>"
  "fst (pg_revoke_account_tokens a db) = Inr ()"
  "pg_tabs (snd (pg_revoke_account_tokens a db)) =
     (pg_tabs db)\<lparr>tokens := filter (\<lambda>t. t_account_id t \<noteq> a) (tokens (pg_tabs db))\<rparr>"
  "fst (pg_delete_share a g u db) = Inr ()"
  "pg_tabs (snd (pg_delete_share a g u db)) = (pg_tabs db)\<lparr>shares := filter (\<lambda>h.
     \<not> (sh_group_id h = g \<and> sh_owner_id h = a \<and> sh_user_id h = u)) (shares (pg_tabs db))\<rparr>"
  by (simp_all add: pg_rewrap_account_def pg_consume_token_def delete_returning_def
      pg_revoke_account_tokens_def pg_delete_share_def)

lemma pg_counter_update [simp]: "pg_counter (db\<lparr>record_seq := Some (n, True), pg_tabs := t\<rparr>) = n"
  by (simp add: pg_counter_def)

lemma pg_inv_facts:
  assumes "pg_inv cd db"
  shows "tables_ok (pg_tabs db) (pg_counter db)" "codec_ok cd"
    and "r \<in> set (records (pg_tabs db)) \<Longrightarrow> \<exists>e. envelope_from_row cd r = Inr e"
  using assms by (simp_all add: pg_inv_def rows_decode_def)

text \<open>What a database collation promises of \<open>>\<close>: a strict linear order. Postgres breaks ties of
  a linguistic collation bytewise, so two different texts never compare equal.\<close>

locale collation =
  fixes coll_gt :: "string \<Rightarrow> string \<Rightarrow> bool"
  assumes coll_irrefl: "\<not> coll_gt a a"
    and coll_trans: "coll_gt a b \<Longrightarrow> coll_gt b c \<Longrightarrow> coll_gt a c"
    and coll_total: "a \<noteq> b \<Longrightarrow> coll_gt a b \<or> coll_gt b a"
begin

lemma coll_weak: "coll_gt a b \<Longrightarrow> coll_gt a c \<or> coll_gt c b"
  using coll_total [of a c] coll_trans [of c a b] by (cases "a = c") auto

end

sublocale collation \<subseteq> pg: store_contract "pg_newer coll_gt" "pg_store coll_gt cd" pg_tabs pg_counter "pg_inv cd" cd
  for cd
proof unfold_locales
  fix a b c :: record_row
  show "\<not> pg_newer coll_gt a a" by (simp add: pg_newer_def coll_irrefl)
  show "pg_newer coll_gt a b \<Longrightarrow> pg_newer coll_gt b c \<Longrightarrow> pg_newer coll_gt a c"
    using coll_trans [of "r_device_id a" "r_device_id b" "r_device_id c"] by (auto simp: pg_newer_def)
  show "pg_newer coll_gt a b \<Longrightarrow> pg_newer coll_gt a c \<or> pg_newer coll_gt c b"
    using coll_weak [of "r_device_id a" "r_device_id b" "r_device_id c"]
    by (cases "r_updated_at a" "r_updated_at c" rule: linorder_cases) (simp_all add: pg_newer_def, auto)
qed (simp_all add: pg_store_def pg_write_invs pg_write_eqs pg_pull_page pg_inv_facts
    pg_account_by_id_def pg_account_by_email_def pg_take_token_def pg_max_seq_eq pg_shares_eq pg_share_owner_def pg_can_write_group_def pg_devices_def
    pg_filters pg_write_fails pg_put_envelope_frame pg_put_envelope_fail)

text \<open>The \<open>C\<close> collation compares bytes.\<close>

definition c_collation :: "string \<Rightarrow> string \<Rightarrow> bool" where
  "c_collation a b \<longleftrightarrow> b < a"

interpretation c_collation: collation c_collation
  by unfold_locales (auto simp: c_collation_def)

end
