(* ===== verification/Server_Config.thy ===== *)
theory Server_Config
  imports Rust_Text
begin

text \<open>
  \<^verbatim>\<open>server/src/config.rs\<close>: the configuration, from the environment. An environment is a partial map
  from variable names to values; the parser of socket addresses is the standard library's and an argument,
  since nothing of the server depends on how an address is written.
\<close>

datatype ip_addr = V4 u8 u8 u8 u8 | V6 "128 word"

record socket_addr =
  sa_ip :: ip_addr
  sa_port :: "16 word"

record config =
  cf_bind :: socket_addr
  cf_database_url :: string
  cf_instance_name :: string
  cf_registration_open :: bool
  cf_access_ttl_secs :: i64
  cf_max_record_bytes :: nat
  cf_max_page :: i64

type_synonym environment = "string \<Rightarrow> string option"

definition var :: "environment \<Rightarrow> string \<Rightarrow> string \<Rightarrow> string" where
  "var env k fallback = (case env k of None \<Rightarrow> fallback | Some v \<Rightarrow> v)"

definition from_env :: "(string \<Rightarrow> string + socket_addr) \<Rightarrow> environment \<Rightarrow> string + config" where
  "from_env parse_addr env =
     (case parse_addr (var env ''REMOTIER_BIND'' ''0.0.0.0:8787'') of
        Inl e \<Rightarrow> Inl (''REMOTIER_BIND is not an address: '' @ e)
      | Inr bind \<Rightarrow> Inr
          \<lparr>cf_bind = bind,
           cf_database_url = var env ''DATABASE_URL'' ''sqlite://remotier-sync.db?mode=rwc'',
           cf_instance_name = var env ''REMOTIER_INSTANCE_NAME'' ''Remotier Sync'',
           cf_registration_open = (var env ''REMOTIER_REGISTRATION_OPEN'' ''false'' = ''true''),
           cf_access_ttl_secs = 3600,
           cf_max_record_bytes = 256 * 1024,
           cf_max_page = 500\<rparr>)"

text \<open>The limits the rest of the server relies on.\<close>

definition config_sane :: "config \<Rightarrow> bool" where
  "config_sane cf \<longleftrightarrow> 0 < cf_max_page cf \<and> cf_max_page cf < i64_max \<and>
     0 < cf_access_ttl_secs cf \<and> cf_access_ttl_secs cf * 1000 \<le> 7776000000"

text \<open>an instance is closed unless it is opened explicitly: a configuration read from the environment accepts
  registrations exactly when the variable is present and is literally \<open>true\<close>, and every
  configuration the server can start with has a positive page size, a one-hour access token and a
  256 KiB record limit.\<close>

theorem registration_is_closed_by_default:
  assumes "from_env parse_addr env = Inr cf"
  shows "(cf_registration_open cf \<longleftrightarrow> env ''REMOTIER_REGISTRATION_OPEN'' = Some ''true'') \<and>
     config_sane cf \<and> cf_max_record_bytes cf = 262144 \<and> cf_access_ttl_secs cf = 3600"
  using assms
  by (auto simp: from_env_def var_def config_sane_def i64_max_def split: sum.splits option.splits)

definition sample_addr :: socket_addr where
  "sample_addr = \<lparr>sa_ip = V4 0 0 0 0, sa_port = 8787\<rparr>"

definition default_config :: config where
  "default_config = \<lparr>cf_bind = sample_addr, cf_database_url = ''sqlite://remotier-sync.db?mode=rwc'',
     cf_instance_name = ''Remotier Sync'', cf_registration_open = False, cf_access_ttl_secs = 3600,
     cf_max_record_bytes = 262144, cf_max_page = 500\<rparr>"

theorem registration_is_closed_by_default_witness:
  "from_env (\<lambda>_. Inr sample_addr) (\<lambda>_. None) = Inr default_config \<and> \<not> cf_registration_open default_config"
proof -
  have h: "from_env (\<lambda>_. Inr sample_addr) (\<lambda>_. None) = Inr default_config"
    by (simp add: from_env_def var_def default_config_def)
  show ?thesis using h registration_is_closed_by_default [OF h] by simp
qed

end
