(* ===== verification/Server_Ratelimit.thy ===== *)
theory Server_Ratelimit
  imports Server_Config
begin

text \<open>
  \<^verbatim>\<open>server/src/ratelimit.rs\<close>: the limiter in front of \<open>/v1/auth/*\<close>. Instants and durations
  are numbers of nanoseconds; \<open>Instant::duration_since\<close> saturates at zero, as subtraction on
  naturals does. The mutex makes \<open>check\<close> one step. The reference it is compared with is a sliding
  window over the log of accepted attempts.
\<close>

record rate_limit =
  rl_window :: nat
  rl_max :: nat
  rl_hits :: "ip_addr \<Rightarrow> nat list option"

definition new_limit :: "nat \<Rightarrow> nat \<Rightarrow> rate_limit" where
  "new_limit m window = \<lparr>rl_window = window, rl_max = m, rl_hits = (\<lambda>_. None)\<rparr>"

text \<open>The sweep: both \<open>retain\<close> calls.\<close>

definition sweep :: "nat \<Rightarrow> nat \<Rightarrow> (ip_addr \<Rightarrow> nat list option) \<Rightarrow> ip_addr \<Rightarrow> nat list option" where
  "sweep now window hits ip =
     (case hits ip of
        None \<Rightarrow> None
      | Some seen \<Rightarrow>
          (let kept = filter (\<lambda>t. now - t < window) seen
           in if kept = [] then None else Some kept))"

definition check :: "nat \<Rightarrow> ip_addr \<Rightarrow> rate_limit \<Rightarrow> bool \<times> rate_limit" where
  "check now ip rl =
     (let hits = sweep now (rl_window rl) (rl_hits rl);
          seen = (case hits ip of None \<Rightarrow> [] | Some ts \<Rightarrow> ts)
      in if rl_max rl \<le> length seen then (False, rl\<lparr>rl_hits := hits(ip \<mapsto> seen)\<rparr>)
         else (True, rl\<lparr>rl_hits := hits(ip \<mapsto> seen @ [now])\<rparr>))"

text \<open>The attempts of a run that were let through, in order, and the limiter after it.\<close>

fun check_all :: "rate_limit \<Rightarrow> (nat \<times> ip_addr) list \<Rightarrow> (nat \<times> ip_addr) list \<times> rate_limit" where
  "check_all rl [] = ([], rl)"
| "check_all rl ((now, ip) # es) =
     (let (ok, rl') = check now ip rl; (acc, rl'') = check_all rl' es
      in (if ok then (now, ip) # acc else acc, rl''))"

section \<open>The sliding window\<close>

definition in_window :: "nat \<Rightarrow> nat \<Rightarrow> ip_addr \<Rightarrow> nat \<times> ip_addr \<Rightarrow> bool" where
  "in_window window now ip e \<longleftrightarrow> snd e = ip \<and> fst e \<le> now \<and> now - fst e < window"

definition sliding_step :: "nat \<Rightarrow> nat \<Rightarrow> (nat \<times> ip_addr) list \<Rightarrow> nat \<times> ip_addr \<Rightarrow> (nat \<times> ip_addr) list" where
  "sliding_step window m log e =
     (if length (filter (in_window window (fst e) (snd e)) log) < m then log @ [e] else log)"

definition sliding :: "nat \<Rightarrow> nat \<Rightarrow> (nat \<times> ip_addr) list \<Rightarrow> (nat \<times> ip_addr) list" where
  "sliding window m es = foldl (sliding_step window m) [] es"

section \<open>The limiter is the sliding window\<close>

definition hits_of :: "rate_limit \<Rightarrow> ip_addr \<Rightarrow> nat list" where
  "hits_of rl ip = (case rl_hits rl ip of None \<Rightarrow> [] | Some ts \<Rightarrow> ts)"

lemma sweep_hits: "(case sweep now w hits ip of None \<Rightarrow> [] | Some ts \<Rightarrow> ts) =
    filter (\<lambda>t. now - t < w) (case hits ip of None \<Rightarrow> [] | Some ts \<Rightarrow> ts)"
  by (simp add: sweep_def Let_def split: option.splits)

lemma check_verdict: "fst (check now ip rl) \<longleftrightarrow>
    length (filter (\<lambda>t. now - t < rl_window rl) (hits_of rl ip)) < rl_max rl"
  by (simp add: check_def Let_def sweep_hits hits_of_def)

lemma check_hits: "hits_of (snd (check now ip rl)) ip' =
    filter (\<lambda>t. now - t < rl_window rl) (hits_of rl ip') @
      (if ip' = ip \<and> fst (check now ip rl) then [now] else [])"
  by (auto simp: check_def Let_def hits_of_def sweep_hits)

lemma check_params [simp]:
  "rl_window (snd (check now ip rl)) = rl_window rl" "rl_max (snd (check now ip rl)) = rl_max rl"
  by (simp_all add: check_def Let_def)

text \<open>The table represents a log up to what is still in a window at \<open>now\<close> or later.\<close>

definition represents :: "nat \<Rightarrow> rate_limit \<Rightarrow> (nat \<times> ip_addr) list \<Rightarrow> bool" where
  "represents now rl log \<longleftrightarrow> (\<forall>e \<in> set log. fst e \<le> now) \<and>
     (\<forall>ip t. now \<le> t \<longrightarrow> filter (\<lambda>u. t - u < rl_window rl) (hits_of rl ip) =
        map fst (filter (in_window (rl_window rl) t ip) log))"

lemma in_window_past: "\<forall>e \<in> set log. fst e \<le> t \<Longrightarrow>
    filter (in_window w t ip) log = filter (\<lambda>e. snd e = ip \<and> t - fst e < w) log"
  by (intro filter_cong) (auto simp: in_window_def)

lemma represents_check:
  assumes "represents t0 rl log" "t0 \<le> now"
  shows "fst (check now ip rl) \<longleftrightarrow> length (filter (in_window (rl_window rl) now ip) log) < rl_max rl"
    and "represents now (snd (check now ip rl)) (sliding_step (rl_window rl) (rl_max rl) log (now, ip))"
proof -
  have at: "filter (\<lambda>u. t - u < rl_window rl) (hits_of rl i) =
      map fst (filter (in_window (rl_window rl) t i) log)" if "now \<le> t" for i t
    using assms that by (simp add: represents_def)
  show verdict: "fst (check now ip rl) \<longleftrightarrow> length (filter (in_window (rl_window rl) now ip) log) < rl_max rl"
    by (simp add: check_verdict at)
  have old: "\<forall>e \<in> set log. fst e \<le> now" using assms by (auto simp: represents_def)
  have again: "filter (\<lambda>u. now - u < rl_window rl \<and> t - u < rl_window rl) us =
      filter (\<lambda>u. t - u < rl_window rl) us" if "now \<le> t" for us and t
    using that by (intro filter_cong) auto
  have "filter (\<lambda>u. t - u < rl_window rl) (hits_of (snd (check now ip rl)) i) =
      map fst (filter (in_window (rl_window rl) t i) (sliding_step (rl_window rl) (rl_max rl) log (now, ip)))"
    if "now \<le> t" for i t
  proof -
    have "filter (\<lambda>u. t - u < rl_window rl) (hits_of (snd (check now ip rl)) i) =
        filter (\<lambda>u. t - u < rl_window rl) (hits_of rl i) @
        filter (\<lambda>u. t - u < rl_window rl) (if i = ip \<and> fst (check now ip rl) then [now] else [])"
      by (simp add: check_hits again [OF that])
    also have "\<dots> = map fst (filter (in_window (rl_window rl) t i) log) @
        filter (\<lambda>u. t - u < rl_window rl) (if i = ip \<and> fst (check now ip rl) then [now] else [])"
      by (simp add: at [OF that])
    finally show ?thesis using that by (auto simp: verdict sliding_step_def in_window_def)
  qed
  moreover have "\<forall>e \<in> set (sliding_step (rl_window rl) (rl_max rl) log (now, ip)). fst e \<le> now"
    using old by (auto simp: sliding_step_def)
  ultimately show "represents now (snd (check now ip rl)) (sliding_step (rl_window rl) (rl_max rl) log (now, ip))"
    by (simp add: represents_def)
qed

lemma check_all_sliding:
  assumes "represents t0 rl log" "sorted (t0 # map fst es)"
  shows "log @ fst (check_all rl es) = foldl (sliding_step (rl_window rl) (rl_max rl)) log es"
  using assms
proof (induction es arbitrary: t0 rl log)
  case Nil
  then show ?case by simp
next
  case (Cons e es)
  obtain now ip where e: "e = (now, ip)" by (cases e)
  let ?rl = "snd (check now ip rl)" and ?log = "sliding_step (rl_window rl) (rl_max rl) log (now, ip)"
  have "t0 \<le> now" using Cons.prems(2) e by simp
  note step = represents_check [OF Cons.prems(1) this, of ip]
  have "?log @ fst (check_all ?rl es) = foldl (sliding_step (rl_window rl) (rl_max rl)) ?log es"
    using Cons.IH [OF step(2)] Cons.prems(2) e by simp
  moreover have "?log = (if fst (check now ip rl) then log @ [(now, ip)] else log)"
    by (simp add: step(1) sliding_step_def)
  ultimately show ?case by (auto simp: e split: prod.splits if_splits)
qed

lemma hits_of_new [simp]: "hits_of (new_limit m w) ip = []"
  by (simp add: hits_of_def new_limit_def)

lemma represents_new: "represents t (new_limit m w) []"
  by (simp add: represents_def)

lemma sorted_from_zero: "sorted (map fst es) \<Longrightarrow> sorted (0 # map fst es)" for es :: "(nat \<times> 'a) list"
  by simp

text \<open>C33: the limiter is exactly a sliding-window log. Over any run of attempts in time order, the
  attempts it lets through are those the reference lets through: an attempt passes if and only if
  fewer than the maximum number of attempts from the same address passed within the window ending at
  it. The sweep of the whole table, which forgets old instants, never changes a verdict. (The source reads the clock before
  it takes the lock; attempts that overlap may reach the table out of order, and are not covered.)\<close>

theorem limiter_is_sliding_window:
  assumes "sorted (map fst es)"
  shows "fst (check_all (new_limit m w) es) = sliding w m es"
  using check_all_sliding [OF represents_new sorted_from_zero [OF assms], of m w]
  by (simp add: sliding_def new_limit_def)

definition sample_ip :: ip_addr where
  "sample_ip = V4 127 0 0 1"

definition sample_attempts :: "(nat \<times> ip_addr) list" where
  "sample_attempts = [(1, sample_ip), (2, sample_ip), (3, V4 127 0 0 2), (4, sample_ip), (11, sample_ip)]"

theorem limiter_is_sliding_window_witness:
  "fst (check_all (new_limit 2 10) sample_attempts) = sliding 10 2 sample_attempts \<and>
   sliding 10 2 sample_attempts = [(1, sample_ip), (2, sample_ip), (3, V4 127 0 0 2), (11, sample_ip)]"
proof (rule conjI)
  show "fst (check_all (new_limit 2 10) sample_attempts) = sliding 10 2 sample_attempts"
    by (rule limiter_is_sliding_window) (simp add: sample_attempts_def)
  show "sliding 10 2 sample_attempts = [(1, sample_ip), (2, sample_ip), (3, V4 127 0 0 2), (11, sample_ip)]"
    by (simp add: sliding_def sliding_step_def sample_attempts_def in_window_def sample_ip_def)
qed

section \<open>The bound\<close>

lemma sliding_bound:
  assumes "sorted (map fst es)"
  shows "length (filter (in_window w t ip) (sliding w m es)) \<le> m \<and> set (sliding w m es) \<subseteq> set es"
  using assms
proof (induction es arbitrary: t ip rule: rev_induct)
  case Nil
  then show ?case by (simp add: sliding_def)
next
  case (snoc e es)
  let ?log = "sliding w m es"
  have sorted: "sorted (map fst es)" and last: "\<forall>x \<in> set es. fst x \<le> fst e"
    using snoc.prems by (simp_all add: sorted_append)
  have sub: "set ?log \<subseteq> set es" using snoc.IH [OF sorted] by blast
  have next_log: "sliding w m (es @ [e]) = sliding_step w m ?log e" by (simp add: sliding_def)
  have "length (filter (in_window w t ip) (sliding_step w m ?log e)) \<le> m"
  proof (cases "in_window w t ip e \<and> length (filter (in_window w (fst e) (snd e)) ?log) < m")
    case True
    then have "in_window w (fst e) (snd e) x" if "in_window w t ip x" "x \<in> set ?log" for x
      using that sub last by (auto simp: in_window_def)
    then have "set (filter (in_window w t ip) ?log) \<subseteq> {x. in_window w (fst e) (snd e) x}" by auto
    then have "filter (in_window w t ip) ?log = filter (in_window w t ip) (filter (in_window w (fst e) (snd e)) ?log)"
      unfolding filter_filter by (intro filter_cong) auto
    then have "length (filter (in_window w t ip) ?log) \<le> length (filter (in_window w (fst e) (snd e)) ?log)"
      by (metis length_filter_le)
    with True show ?thesis by (simp add: sliding_step_def)
  next
    case False
    with snoc.IH [OF sorted, of t ip] show ?thesis by (auto simp: sliding_step_def)
  qed
  moreover have "set (sliding_step w m ?log e) \<subseteq> set (es @ [e])" using sub by (auto simp: sliding_step_def)
  ultimately show ?case by (simp add: next_log)
qed

text \<open>no address ever gets more than the maximum through in any window, wherever the window is
  placed: for every instant \<open>t\<close>, at most \<open>m\<close> of the attempts let through from one
  address lie in the window of length \<open>w\<close> ending at \<open>t\<close>. A fixed window would let
  twice as many through around its boundary.\<close>

theorem limiter_bound:
  assumes "sorted (map fst es)"
  shows "length (filter (in_window w t ip) (fst (check_all (new_limit m w) es))) \<le> m"
  using sliding_bound [OF assms] check_all_sliding [OF represents_new sorted_from_zero [OF assms], of m w]
  by (simp add: sliding_def new_limit_def)

theorem limiter_bound_witness:
  "length (filter (in_window 10 12 sample_ip) (fst (check_all (new_limit 2 10) sample_attempts))) \<le> 2"
  by (rule limiter_bound) (simp add: sample_attempts_def)

section \<open>The table does not grow\<close>

text \<open>the limiter does not leak. After any attempt, every instant in the table is within the
  window, and every address in it other than the caller's has at least one; so addresses that stopped
  trying leave the table with the next attempt of anyone, and an attempt from one address leaves the
  live instants of every other address exactly as they were.\<close>

theorem limiter_keeps_only_live_hits:
  "(\<forall>ts. rl_hits (snd (check now ip rl)) i = Some ts \<longrightarrow>
      (i \<noteq> ip \<longrightarrow> ts \<noteq> []) \<and> (\<forall>t \<in> set ts. now - t < rl_window rl \<or> t = now)) \<and>
   (i \<noteq> ip \<longrightarrow> hits_of (snd (check now ip rl)) i = filter (\<lambda>t. now - t < rl_window rl) (hits_of rl i))"
proof -
  have "ts \<noteq> [] \<and> (\<forall>t \<in> set ts. now - t < rl_window rl)"
    if "sweep now (rl_window rl) (rl_hits rl) i = Some ts" for ts
    using that by (auto simp: sweep_def Let_def split: option.splits if_splits)
  moreover have "\<forall>t \<in> set (case sweep now (rl_window rl) (rl_hits rl) i of None \<Rightarrow> [] | Some ts \<Rightarrow> ts).
      now - t < rl_window rl"
    by (simp add: sweep_hits)
  ultimately have "\<forall>ts. rl_hits (snd (check now ip rl)) i = Some ts \<longrightarrow>
      (i \<noteq> ip \<longrightarrow> ts \<noteq> []) \<and> (\<forall>t \<in> set ts. now - t < rl_window rl \<or> t = now)"
    by (auto simp: check_def Let_def split: if_splits)
  then show ?thesis by (simp add: check_hits)
qed

theorem limiter_keeps_only_live_hits_witness:
  "rl_hits (snd (check 20 sample_ip (snd (check 1 (V4 10 0 0 1) (new_limit 1 10))))) (V4 10 0 0 1) = None"
proof -
  let ?rl = "snd (check 1 (V4 10 0 0 1) (new_limit 1 10))"
  have ne: "V4 10 0 0 1 \<noteq> sample_ip" by (simp add: sample_ip_def)
  have "hits_of (snd (check 20 sample_ip ?rl)) (V4 10 0 0 1) = filter (\<lambda>t. 20 - t < rl_window ?rl) (hits_of ?rl (V4 10 0 0 1))"
    using limiter_keeps_only_live_hits [of 20 sample_ip ?rl "V4 10 0 0 1"] ne by blast
  also have "\<dots> = []" by (simp add: check_hits) (simp add: new_limit_def)
  finally have "hits_of (snd (check 20 sample_ip ?rl)) (V4 10 0 0 1) = []" .
  then show ?thesis
    using limiter_keeps_only_live_hits [of 20 sample_ip ?rl "V4 10 0 0 1"] ne
    by (cases "rl_hits (snd (check 20 sample_ip ?rl)) (V4 10 0 0 1)") (auto simp: hits_of_def)
qed

end
