(* ===== verification/Server_Auth.thy ===== *)
theory Server_Auth
  imports Store_Sqlite Store_Postgres Server_Ratelimit
begin

text \<open>
  \<^verbatim>\<open>server/src/auth.rs\<close> and \<^verbatim>\<open>server/src/state.rs\<close>: bearer tokens, the hashing of the
  client's auth key, the shared state of the handlers and the extraction of the caller. SHA-256, the Argon2
  crate with its PHC strings, and \<open>HeaderValue::to_str\<close> are third-party and fields of
  \<open>platform\<close>; random bytes and clock readings are fields of the request.
\<close>

section \<open>Third-party functions\<close>

text \<open>A parsed PHC string borrows from the string it is parsed from, which stands for it.\<close>

record platform =
  lib_sha256 :: "u8 list \<Rightarrow> u8 list"
  lib_salt_encode :: "u8 list \<Rightarrow> string + string"
  lib_hash_password :: "u8 list \<Rightarrow> string \<Rightarrow> string + string"
  lib_phc_parses :: "string \<Rightarrow> bool"
  lib_verify_password :: "u8 list \<Rightarrow> string \<Rightarrow> bool"
  lib_header_to_str :: "u8 list \<Rightarrow> string option"
  lib_codec :: codec

text \<open>What the crates document and a login relies on: sixteen bytes are a salt, hashing under a salt
  succeeds, and its result parses and verifies the password it was made from.\<close>

definition hashing_ok :: "platform \<Rightarrow> bool" where
  "hashing_ok lib \<longleftrightarrow> (\<forall>b. length b = 16 \<longrightarrow> (\<exists>salt. lib_salt_encode lib b = Inr salt \<and>
     (\<forall>k. \<exists>h. lib_hash_password lib k salt = Inr h \<and> lib_phc_parses lib h \<and> lib_verify_password lib k h)))"

section \<open>Shared state and requests\<close>

text \<open>The store and the limiter are what a handler can change; the configuration, the dummy hash of
  \<^verbatim>\<open>routes/auth.rs\<close> (made once, at first use) and the libraries are fixed for a process.\<close>

record 's app =
  ap_db :: 's
  ap_limit :: rate_limit

record 's server =
  sv_store :: "'s store"
  sv_config :: config
  sv_dummy_hash :: string
  sv_lib :: platform

text \<open>The readings of the clocks and the random bytes one request draws, its peer and its
  \<open>Authorization\<close> header. \<open>rn_caller\<close> is read in the extractor, \<open>rn_store\<close> in the
  handler's own store call (or in \<open>push\<close>), \<open>rn_issue\<close> and \<open>rn_touch\<close> while a session is issued.\<close>

record request =
  rq_peer :: socket_addr
  rq_authorization :: "u8 list option"
  rn_instant :: nat
  rn_caller :: int
  rn_store :: int
  rn_issue :: int
  rn_touch :: int
  rn_id :: "u8 list"
  rn_auth_salt :: "u8 list"
  rn_recovery_salt :: "u8 list"
  rn_access :: "u8 list"
  rn_refresh :: "u8 list"

definition on_db :: "('e, 's, 'a) op \<Rightarrow> ('e, 's app, 'a) op" where
  "on_db f ap = (fst (f (ap_db ap)), ap\<lparr>ap_db := snd (f (ap_db ap))\<rparr>)"

section \<open>Tokens and keys\<close>

definition ACCESS :: string where
  "ACCESS = ''access''"

definition REFRESH :: string where
  "REFRESH = ''refresh''"

definition REFRESH_TTL_MS :: i64 where
  "REFRESH_TTL_MS = 90 * 24 * 3600 * 1000"

definition hash_token :: "platform \<Rightarrow> string \<Rightarrow> string" where
  "hash_token lib token = hex_encode (lib_codec lib) (lib_sha256 lib (as_bytes token))"

definition mint_token :: "platform \<Rightarrow> u8 list \<Rightarrow> string \<times> string" where
  "mint_token lib bytes =
     (let token = hex_encode (lib_codec lib) bytes; hash = hash_token lib token in (token, hash))"

definition hash_auth_key :: "platform \<Rightarrow> u8 list \<Rightarrow> string \<Rightarrow> error + string" where
  "hash_auth_key lib salt_bytes auth_key =
     (case lib_salt_encode lib salt_bytes of
        Inl m \<Rightarrow> Inl (Internal (''salt encoding failed: '' @ m))
      | Inr salt \<Rightarrow>
          (case lib_hash_password lib (as_bytes auth_key) salt of
             Inl m \<Rightarrow> Inl (Internal (''hashing failed: '' @ m))
           | Inr h \<Rightarrow> Inr h))"

definition verify_auth_key :: "platform \<Rightarrow> string \<Rightarrow> string \<Rightarrow> bool" where
  "verify_auth_key lib auth_key stored =
     (if \<not> lib_phc_parses lib stored then False
      else lib_verify_password lib (as_bytes auth_key) stored)"

section \<open>The caller\<close>

definition bearer :: "platform \<Rightarrow> request \<Rightarrow> string option" where
  "bearer lib rq =
     (case rq_authorization rq of
        None \<Rightarrow> None
      | Some v \<Rightarrow>
          (case lib_header_to_str lib v of
             None \<Rightarrow> None
           | Some t \<Rightarrow> strip_prefix ''Bearer '' t))"

definition caller :: "'s server \<Rightarrow> request \<Rightarrow> (error, 's app, string) op" where
  "caller sv rq =
     bind_op (ok_or Unauthorised (bearer (sv_lib sv) rq)) (\<lambda>header.
     bind_op (on_db (s_take_token (sv_store sv) (rn_caller rq) (hash_token (sv_lib sv) (trim header)) ACCESS)) (\<lambda>row.
     bind_op (ok_or Unauthorised row) (\<lambda>row.
       ok_op (tr_account_id row))))"

section \<open>Sequencing over the shared state\<close>

lemma on_db_simps [simp]:
  "fst (on_db f ap) = fst (f (ap_db ap))"
  "ap_db (snd (on_db f ap)) = snd (f (ap_db ap))"
  "ap_limit (snd (on_db f ap)) = ap_limit ap"
  by (simp_all add: on_db_def)

lemma on_db_read [op_simps]: "f (ap_db ap) = (r, ap_db ap) \<Longrightarrow> on_db f ap = (r, ap)"
  by (simp add: on_db_def)

lemma bind_op_fst:
  "fst (f s) = Inr x \<Longrightarrow> bind_op f g s = g x (snd (f s))"
  "fst (f s) = Inl e \<Longrightarrow> bind_op f g s = (Inl e, snd (f s))"
  by (cases "f s"; simp add: bind_op_def)+

lemma keeps_on_db [keeps_intros]: "keeps P f \<Longrightarrow> keeps (\<lambda>ap. P (ap_db ap)) (on_db f)"
  by (simp add: keeps_def)

lemma bind_ok_or [simp]:
  "bind_op (ok_or e None) g s = (Inl e, s)"
  "bind_op (ok_or e (Some x)) g s = g x s"
  "bind_op (ok_op x) g s = g x s"
  "bind_op (err_op e) g s = (Inl e, s)"
  "bind_op (lift_result (Inr x)) g s = g x s"
  "bind_op (lift_result (Inl e)) g s = (Inl e, s)"
  by (simp_all add: op_defs)

section \<open>Who is the caller\<close>

definition session_token :: "tables \<Rightarrow> int \<Rightarrow> string \<Rightarrow> string \<Rightarrow> string \<Rightarrow> bool" where
  "session_token t reading hash kind a \<longleftrightarrow>
     (\<exists>k \<in> set (tokens t). live_token reading hash kind k \<and> t_account_id k = a)"

lemma find_live_distinct:
  "distinct (map t_hash ts) \<Longrightarrow>
     find (live_token now h k) ts = Some tok \<longleftrightarrow> tok \<in> set ts \<and> live_token now h k tok"
proof (induction ts)
  case Nil
  then show ?case by simp
next
  case (Cons x ts)
  then have "live_token now h k x \<Longrightarrow> live_token now h k tok \<Longrightarrow> tok \<notin> set ts"
    by (auto simp: live_token_def image_iff)
  with Cons show ?case by auto
qed

lemma session_token_iff:
  assumes "distinct (map t_hash (tokens t))"
  shows "session_token t now h k a \<longleftrightarrow>
    map_option t_account_id (find (live_token now h k) (tokens t)) = Some a"
  by (auto simp: session_token_def find_live_distinct [OF assms])

lemma find_live_None:
  "find (live_token now h k) (tokens t) = None \<longleftrightarrow> (\<forall>a. \<not> session_token t now h k a)"
  by (auto simp: find_None_iff session_token_def)

context store_contract
begin

lemma tokens_distinct: "inv s \<Longrightarrow> distinct (map t_hash (tokens (tab s)))"
  using inv_tables by (simp add: tables_ok_defs)

lemma on_db_take_token:
  "on_db (s_take_token st now h k) ap =
     (Inr (map_option (\<lambda>t. \<lparr>tr_account_id = t_account_id t\<rparr>)
        (find (live_token now h k) (tokens (tab (ap_db ap))))), ap)"
  by (simp add: on_db_def take_token)

lemma caller_eq:
  assumes "sv_store sv = st"
  shows "caller sv rq ap =
    ((case bearer (sv_lib sv) rq of
        None \<Rightarrow> Inl Unauthorised
      | Some h \<Rightarrow>
          (case find (live_token (rn_caller rq) (hash_token (sv_lib sv) (trim h)) ACCESS) (tokens (tab (ap_db ap))) of
             None \<Rightarrow> Inl Unauthorised
           | Some tok \<Rightarrow> Inr (t_account_id tok))), ap)"
  using assms by (auto simp: caller_def bind_op_eqs on_db_take_token split: option.splits)

lemma caller_read: "sv_store sv = st \<Longrightarrow> snd (caller sv rq ap) = ap"
  by (simp add: caller_eq)

lemma caller_iff:
  assumes "sv_store sv = st" "inv (ap_db ap)"
  shows "fst (caller sv rq ap) = Inr a \<longleftrightarrow> (\<exists>h. bearer (sv_lib sv) rq = Some h \<and>
    session_token (tab (ap_db ap)) (rn_caller rq) (hash_token (sv_lib sv) (trim h)) ACCESS a)"
  by (auto simp: caller_eq [OF assms(1)] session_token_iff [OF tokens_distinct [OF assms(2)]]
      split: option.splits)

lemma caller_error: "sv_store sv = st \<Longrightarrow> fst (caller sv rq ap) = Inl e \<Longrightarrow> e = Unauthorised"
  by (auto simp: caller_eq split: option.splits)

lemma caller_account:
  assumes "sv_store sv = st" "inv (ap_db ap)" "fst (caller sv rq ap) = Inr a"
  shows "has_account (tab (ap_db ap)) a"
  using assms(3) inv_tables [OF assms(2)]
  unfolding caller_iff [OF assms(1,2)] session_token_def tables_ok_defs by blast

lemma keeps_caller [keeps_intros]: "sv_store sv = st \<Longrightarrow> keeps (\<lambda>ap. inv (ap_db ap)) (caller sv rq)"
  by (simp add: keeps_def caller_read)

end

section \<open>Keys\<close>

lemma verify_own_hash:
  assumes "hashing_ok lib" "length b = 16"
  shows "\<exists>h. hash_auth_key lib b k = Inr h \<and> verify_auth_key lib k h"
proof -
  from assms obtain salt where salt: "lib_salt_encode lib b = Inr salt"
    and "\<forall>k. \<exists>h. lib_hash_password lib k salt = Inr h \<and> lib_phc_parses lib h \<and> lib_verify_password lib k h"
    unfolding hashing_ok_def by blast
  then obtain h where "lib_hash_password lib (as_bytes k) salt = Inr h" "lib_phc_parses lib h"
    "lib_verify_password lib (as_bytes k) h"
    by blast
  with salt show ?thesis by (simp add: hash_auth_key_def verify_auth_key_def)
qed

lemma hash_verifies:
  assumes "hashing_ok lib" "length b = 16" "hash_auth_key lib b k = Inr h"
  shows "verify_auth_key lib k h"
  using verify_own_hash [OF assms(1,2), of k] assms(3) by simp

text \<open>A platform that satisfies the hypotheses, for concrete runs: a salted identity hash.\<close>

definition sample_platform :: platform where
  "sample_platform =
     \<lparr>lib_sha256 = (\<lambda>b. 0x5a # b), lib_salt_encode = (\<lambda>b. Inr (hex_encode sample_codec b)),
      lib_hash_password = (\<lambda>k salt. Inr (CHR ''$'' # hex_encode sample_codec k)),
      lib_phc_parses = (\<lambda>s. s \<noteq> [] \<and> hd s = CHR ''$''),
      lib_verify_password = (\<lambda>k s. s = CHR ''$'' # hex_encode sample_codec k),
      lib_header_to_str = (\<lambda>b. Some (hex_encode sample_codec b)),
      lib_codec = sample_codec\<rparr>"

lemma sample_hex [simp]: "hex_encode sample_codec (as_bytes s) = s"
  by (induction s) (simp_all add: sample_codec_def unat_byte_of_char)

lemma sample_platform_ok: "hashing_ok sample_platform"
  by (simp add: hashing_ok_def sample_platform_def)

definition sample_request :: request where
  "sample_request =
     \<lparr>rq_peer = sample_addr, rq_authorization = None, rn_instant = 0, rn_caller = 1000000000,
      rn_store = 1000000000, rn_issue = 1000000000, rn_touch = 1000000000, rn_id = as_bytes ''u'',
      rn_auth_salt = replicate 16 1, rn_recovery_salt = replicate 16 2,
      rn_access = as_bytes ''a'', rn_refresh = as_bytes ''r''\<rparr>"

text \<open>a key verifies against the hash made for it, under any salt; and a stored string that is not a PHC
  string verifies no key at all, so a corrupt row is a failed login and never a panic.\<close>

theorem auth_key_verifies:
  assumes "hashing_ok lib" "length salt = 16" "hash_auth_key lib salt key = Inr h"
  shows "verify_auth_key lib key h \<and> (\<forall>k s. \<not> lib_phc_parses lib s \<longrightarrow> \<not> verify_auth_key lib k s)"
  using hash_verifies [OF assms] by (simp add: verify_auth_key_def)

theorem auth_key_verifies_witness:
  "verify_auth_key sample_platform ''deadbeef'' ''$deadbeef'' \<and> \<not> verify_auth_key sample_platform ''deadbeef'' ''x''"
proof -
  have "hash_auth_key sample_platform (replicate 16 7) ''deadbeef'' = Inr ''$deadbeef''"
    by (simp add: hash_auth_key_def sample_platform_def del: as_bytes_simps)
  then show ?thesis
    using auth_key_verifies [OF sample_platform_ok, of "replicate 16 7" "''deadbeef''" "''$deadbeef''"]
    by (simp add: sample_platform_def)
qed

end
