(* ===== verification/Server_Instance.thy ===== *)
theory Server_Instance
  imports Server_Auth
begin

text \<open>
  \<^verbatim>\<open>server/src/main.rs\<close>: which backend a database URL picks, the state an instance starts with, and the
  pure parts of the health probe. \<open>Startup\<close> puts them together; tokio, axum and tracing are not modelled.
\<close>

section \<open>Start-up\<close>

definition uses_postgres :: "string \<Rightarrow> bool" where
  "uses_postgres url \<longleftrightarrow> strip_prefix ''postgres'' url \<noteq> None"

text \<open>Ten attempts in sixty seconds, in nanoseconds.\<close>

definition auth_limit :: rate_limit where
  "auth_limit = new_limit 10 (60 * 1000000000)"

definition sqlite_server :: "config \<Rightarrow> platform \<Rightarrow> string \<Rightarrow> sqlite_db server" where
  "sqlite_server cf lib dummy =
     \<lparr>sv_store = sqlite_store (lib_codec lib), sv_config = cf, sv_dummy_hash = dummy, sv_lib = lib\<rparr>"

definition pg_server :: "(string \<Rightarrow> string \<Rightarrow> bool) \<Rightarrow> config \<Rightarrow> platform \<Rightarrow> string \<Rightarrow> pg_db server" where
  "pg_server coll_gt cf lib dummy =
     \<lparr>sv_store = pg_store coll_gt (lib_codec lib), sv_config = cf, sv_dummy_hash = dummy, sv_lib = lib\<rparr>"

text \<open>What \<open>main\<close> does before it listens: migrate, and make the shared state.\<close>

definition boot :: "'s server \<Rightarrow> 's \<Rightarrow> error + 's app" where
  "boot sv db =
     (case s_migrate (sv_store sv) db of
        (Inl e, _) \<Rightarrow> Inl e
      | (Inr _, db') \<Rightarrow> Inr \<lparr>ap_db = db', ap_limit = auth_limit\<rparr>)"

lemma server_simps [simp]:
  "sv_store (sqlite_server cf lib dummy) = sqlite_store (lib_codec lib)"
  "sv_lib (sqlite_server cf lib dummy) = lib"
  "sv_config (sqlite_server cf lib dummy) = cf"
  "sv_dummy_hash (sqlite_server cf lib dummy) = dummy"
  "sv_store (pg_server coll_gt cf lib dummy) = pg_store coll_gt (lib_codec lib)"
  "sv_lib (pg_server coll_gt cf lib dummy) = lib"
  "sv_config (pg_server coll_gt cf lib dummy) = cf"
  "sv_dummy_hash (pg_server coll_gt cf lib dummy) = dummy"
  by (simp_all add: sqlite_server_def pg_server_def)

section \<open>The health probe\<close>

definition probe_address :: "string option \<Rightarrow> string" where
  "probe_address bind_var =
     (let bind = (case bind_var of None \<Rightarrow> ''0.0.0.0:8787'' | Some v \<Rightarrow> v)
      in ''127.0.0.1:'' @ after_last CHR '':'' bind)"

definition probe_request :: "string \<Rightarrow> string" where
  "probe_request address =
     ''GET /v1/instance HTTP/1.1'' @ [CHR 0x0D, CHR 0x0A] @ ''Host: '' @ address @
     [CHR 0x0D, CHR 0x0A] @ ''Connection: close'' @ [CHR 0x0D, CHR 0x0A, CHR 0x0D, CHR 0x0A]"

text \<open>\<open>lines().next()\<close>: up to the first newline, less a carriage return before it.\<close>

definition first_line :: "string \<Rightarrow> string" where
  "first_line s =
     (case split_once (CHR 0x0A) s of
        None \<Rightarrow> s
      | Some (l, _) \<Rightarrow> (case strip_suffix [CHR 0x0D] l of None \<Rightarrow> l | Some l' \<Rightarrow> l'))"

definition probe_verdict :: "string \<Rightarrow> string + unit" where
  "probe_verdict response =
     (if strip_prefix ''HTTP/1.1 200'' response \<noteq> None then Inr ()
      else Inl (''unexpected response: '' @ first_line response))"

section \<open>A booted instance\<close>

definition fresh_sqlite :: sqlite_db where
  "fresh_sqlite = \<lparr>tabs = no_tables, sequence = None\<rparr>"

definition fresh_pg :: pg_db where
  "fresh_pg = \<lparr>pg_tabs = no_tables, record_seq = None\<rparr>"

lemma no_tables_facts [simp]:
  "emails_lower no_tables" "rows_decode cd no_tables" "tables_ok no_tables 0"
  by (simp_all add: emails_lower_def rows_decode_def no_tables_def no_tables_ok [unfolded no_tables_def] i64_max_def)

text \<open>Migrating an empty database establishes the invariant, and migrating again changes nothing.\<close>

lemma boot_sqlite:
  assumes "codec_ok (lib_codec lib)" "lower_ok (lib_codec lib)"
  shows "\<exists>ap. boot (sqlite_server cf lib dummy) fresh_sqlite = Inr ap \<and> sqlite_inv (lib_codec lib) (ap_db ap) \<and>
    ap_limit ap = auth_limit"
  using assms
  by (simp add: boot_def sqlite_store_def sqlite_migrate_def fresh_sqlite_def sqlite_inv_def sqlite_counter_def)

lemma boot_pg:
  assumes "codec_ok (lib_codec lib)"
  shows "\<exists>ap. boot (pg_server coll_gt cf lib dummy) fresh_pg = Inr ap \<and> pg_inv (lib_codec lib) (ap_db ap) \<and>
    ap_limit ap = auth_limit"
  using assms
  by (simp add: boot_def pg_store_def pg_migrate_def fresh_pg_def pg_inv_def pg_counter_def i64_max_def)

lemma migrate_again:
  "sqlite_inv cd db \<Longrightarrow> sqlite_migrate db = (Inr (), db)"
  "pg_inv cd db' \<Longrightarrow> pg_migrate db' = (Inr (), db')"
  by (auto simp: sqlite_migrate_def sqlite_inv_def pg_migrate_def pg_inv_def split: option.splits)

lemma lower_ok_sample: "lower_ok (sample_codec\<lparr>unicode_lowercase := to_ascii_lowercase\<rparr>)"
  by (simp add: lower_ok_def)

definition sample_lib :: platform where
  "sample_lib = sample_platform\<lparr>lib_codec := sample_codec\<lparr>unicode_lowercase := to_ascii_lowercase\<rparr>\<rparr>"

lemma sample_lib_ok: "codec_ok (lib_codec sample_lib)" "lower_ok (lib_codec sample_lib)" "hashing_ok sample_lib"
proof -
  show "codec_ok (lib_codec sample_lib)" using sample_codec_ok by (simp add: sample_lib_def codec_ok_def)
  show "lower_ok (lib_codec sample_lib)" using lower_ok_sample by (simp add: sample_lib_def)
  show "hashing_ok sample_lib" using sample_platform_ok by (simp add: sample_lib_def hashing_ok_def)
qed

lemma sample_hash: "hash_token sample_lib t = CHR ''Z'' # t"
proof -
  have "(0x5a # as_bytes t) = as_bytes (CHR ''Z'' # t)" by simp
  then show ?thesis
    by (simp add: hash_token_def sample_lib_def sample_platform_def del: as_bytes_simps)
qed

lemma sample_mint: "mint_token sample_lib (as_bytes t) = (t, CHR ''Z'' # t)"
  by (simp add: mint_token_def sample_hash Let_def)
    (simp add: sample_lib_def sample_platform_def)

end
