(* ===== verification/Routes_Auth.thy ===== *)
theory Routes_Auth
  imports Server_Instance
begin

text \<open>
  \<^verbatim>\<open>server/src/routes/auth.rs\<close>: registration, sign-in, refresh, recovery, rewrap and the
  key-material handoff, as operations on the shared state of \<open>Server_Auth\<close>. A handler takes the
  request's readings and bytes and the decoded body; a handler with a \<open>Caller\<close> argument runs the
  extractor first. The arithmetic on expiry times is that of a release build.
\<close>

section \<open>Helpers\<close>

definition guard :: "request \<Rightarrow> (error, 's app, unit) op" where
  "guard rq ap =
     (let (ok, limit) = check (rn_instant rq) (sa_ip (rq_peer rq)) (ap_limit ap)
      in (if ok then Inr () else Inl RateLimited, ap\<lparr>ap_limit := limit\<rparr>))"

definition encode :: "sealed_blob \<Rightarrow> string" where
  "encode blob = sb_nonce blob @ CHR ''.'' # sb_ciphertext blob"

definition decode :: "string \<Rightarrow> sealed_blob" where
  "decode stored =
     (let (nonce, ciphertext) = (case split_once CHR ''.'' stored of None \<Rightarrow> ('''', stored) | Some p \<Rightarrow> p)
      in \<lparr>sb_nonce = nonce, sb_ciphertext = ciphertext\<rparr>)"

definition key_material_of :: "account \<Rightarrow> key_material" where
  "key_material_of account =
     \<lparr>km_account_public = a_account_public account,
      km_wrapped_account_secret = decode (a_wrapped_account_secret account),
      km_wrapped_personal_key = decode (a_wrapped_personal_key account)\<rparr>"

definition validate_email :: "string \<Rightarrow> error + unit" where
  "validate_email email =
     (let email = trim email
      in if length email < 3 \<or> length email > 254 \<or> CHR ''@'' \<notin> set email \<or> CHR '' '' \<in> set email
         then Inl (BadRequest ''that is not an email address'')
         else Inr ())"

text \<open>The dummy hash: of a token minted from fresh bytes, under a fresh salt. A failure would be a panic
  at first use.\<close>

definition DUMMY_HASH :: "platform \<Rightarrow> u8 list \<Rightarrow> u8 list \<Rightarrow> error + string" where
  "DUMMY_HASH lib bytes salt = (let (throwaway, _) = mint_token lib bytes in hash_auth_key lib salt throwaway)"

definition issue_session ::
  "'s server \<Rightarrow> request \<Rightarrow> account \<Rightarrow> string \<Rightarrow> string \<Rightarrow> (error, 's app, session) op" where
  "issue_session sv rq account device_id device_name =
     (let now = now_ms (rn_issue rq);
          (access, access_hash) = mint_token (sv_lib sv) (rn_access rq);
          (refresh_token, refresh_hash) = mint_token (sv_lib sv) (rn_refresh rq);
          ttl = cf_access_ttl_secs (sv_config sv)
      in bind_op (on_db (s_put_token (sv_store sv) access_hash (a_id account) ACCESS
                    (i64_wrap (now + i64_wrap (ttl * 1000))))) (\<lambda>_.
         bind_op (on_db (s_put_token (sv_store sv) refresh_hash (a_id account) REFRESH
                    (i64_wrap (now + REFRESH_TTL_MS)))) (\<lambda>_.
         bind_op (if device_id \<noteq> [] then on_db (s_touch_device (sv_store sv) (rn_touch rq) (a_id account) device_id device_name)
                  else ok_op ()) (\<lambda>_.
         ok_op \<lparr>ss_account_id = a_id account, ss_email = a_email account, ss_access_token = access,
                ss_refresh_token = refresh_token, ss_expires_in = ttl,
                ss_key_material = key_material_of account\<rparr>))))"

section \<open>Handlers\<close>

definition register :: "'s server \<Rightarrow> request \<Rightarrow> register_request \<Rightarrow> (error, 's app, session) op" where
  "register sv rq body =
     bind_op (guard rq) (\<lambda>_.
     if \<not> cf_registration_open (sv_config sv) then err_op RegistrationClosed
     else bind_op (lift_result (validate_email (rr_email body))) (\<lambda>_.
     if sb_ciphertext (km_wrapped_personal_key (rr_recovery_material body)) = []
     then err_op (BadRequest
       ''recovery material is required - without it a forgotten password is unrecoverable'')
     else bind_op (lift_result (hash_auth_key (sv_lib sv) (rn_auth_salt rq) (rr_auth_key body))) (\<lambda>auth_hash.
     bind_op (lift_result (hash_auth_key (sv_lib sv) (rn_recovery_salt rq) (rr_recovery_auth_key body))) (\<lambda>recovery_hash.
     bind_op (on_db (s_create_account (sv_store sv) (rn_store rq) (rn_id rq)
       \<lparr>n_email = rr_email body, n_auth_hash = auth_hash, n_recovery_auth_hash = recovery_hash,
        n_account_public = km_account_public (rr_key_material body),
        n_wrapped_account_secret = encode (km_wrapped_account_secret (rr_key_material body)),
        n_wrapped_personal_key = encode (km_wrapped_personal_key (rr_key_material body)),
        n_recovery_account_secret = encode (km_wrapped_account_secret (rr_recovery_material body)),
        n_recovery_personal_key = encode (km_wrapped_personal_key (rr_recovery_material body))\<rparr>)) (\<lambda>account.
     issue_session sv rq account (rr_device_id body) (rr_device_name body))))))"

text \<open>For an unknown address the dummy hash is verified and the verdict dropped.\<close>

definition login :: "'s server \<Rightarrow> request \<Rightarrow> login_request \<Rightarrow> (error, 's app, session) op" where
  "login sv rq body =
     bind_op (guard rq) (\<lambda>_.
     bind_op (on_db (s_account_by_email (sv_store sv) (lr_email body))) (\<lambda>account.
     case account of
       None \<Rightarrow> (let _ = verify_auth_key (sv_lib sv) (lr_auth_key body) (sv_dummy_hash sv) in err_op BadCredentials)
     | Some account \<Rightarrow>
         if \<not> verify_auth_key (sv_lib sv) (lr_auth_key body) (a_auth_hash account) then err_op BadCredentials
         else issue_session sv rq account (lr_device_id body) (lr_device_name body)))"

definition refresh :: "'s server \<Rightarrow> request \<Rightarrow> refresh_request \<Rightarrow> (error, 's app, session) op" where
  "refresh sv rq body =
     bind_op (on_db (s_consume_token (sv_store sv) (rn_store rq)
       (hash_token (sv_lib sv) (rf_refresh_token body)) REFRESH)) (\<lambda>row.
     bind_op (ok_or Unauthorised row) (\<lambda>row.
     bind_op (on_db (s_account_by_id (sv_store sv) (tr_account_id row))) (\<lambda>account.
     bind_op (ok_or Unauthorised account) (\<lambda>account.
     issue_session sv rq account [] []))))"

definition logout :: "'s server \<Rightarrow> request \<Rightarrow> (error, 's app, unit) op" where
  "logout sv rq =
     bind_op (caller sv rq) (\<lambda>account_id.
     on_db (s_revoke_account_tokens (sv_store sv) account_id))"

definition keys :: "'s server \<Rightarrow> request \<Rightarrow> (error, 's app, key_material) op" where
  "keys sv rq =
     bind_op (caller sv rq) (\<lambda>account_id.
     bind_op (on_db (s_account_by_id (sv_store sv) account_id)) (\<lambda>account.
     bind_op (ok_or NotFound account) (\<lambda>account.
     ok_op (key_material_of account))))"

definition lookup :: "'s server \<Rightarrow> request \<Rightarrow> string \<Rightarrow> (error, 's app, user_lookup) op" where
  "lookup sv rq email =
     bind_op (caller sv rq) (\<lambda>_.
     bind_op (on_db (s_account_by_email (sv_store sv) email)) (\<lambda>account.
     bind_op (ok_or NotFound account) (\<lambda>account.
     ok_op \<lparr>ul_user_id = a_id account, ul_email = a_email account,
            ul_account_public = a_account_public account\<rparr>)))"

definition recover :: "'s server \<Rightarrow> request \<Rightarrow> recover_request \<Rightarrow> (error, 's app, session) op" where
  "recover sv rq body =
     bind_op (guard rq) (\<lambda>_.
     bind_op (on_db (s_account_by_email (sv_store sv) (rc_email body))) (\<lambda>account.
     case account of
       None \<Rightarrow> (let _ = verify_auth_key (sv_lib sv) (rc_recovery_auth_key body) (sv_dummy_hash sv) in err_op BadCredentials)
     | Some account \<Rightarrow>
         if \<not> verify_auth_key (sv_lib sv) (rc_recovery_auth_key body) (a_recovery_auth_hash account) then err_op BadCredentials
         else issue_session sv rq
                (account\<lparr>a_wrapped_account_secret := a_recovery_account_secret account,
                         a_wrapped_personal_key := a_recovery_personal_key account\<rparr>)
                (rc_device_id body) (rc_device_name body)))"

definition rewrap :: "'s server \<Rightarrow> request \<Rightarrow> rewrap_request \<Rightarrow> (error, 's app, unit) op" where
  "rewrap sv rq body =
     bind_op (caller sv rq) (\<lambda>account_id.
     bind_op (on_db (s_account_by_id (sv_store sv) account_id)) (\<lambda>account.
     bind_op (ok_or NotFound account) (\<lambda>account.
     bind_op (lift_result (hash_auth_key (sv_lib sv) (rn_auth_salt rq) (rw_auth_key body))) (\<lambda>auth_hash.
     bind_op (lift_result (hash_auth_key (sv_lib sv) (rn_recovery_salt rq) (rw_recovery_auth_key body))) (\<lambda>recovery_hash.
     bind_op (on_db (s_rewrap_account (sv_store sv) (a_id account)
       \<lparr>n_email = a_email account, n_auth_hash = auth_hash, n_recovery_auth_hash = recovery_hash,
        n_account_public = a_account_public account,
        n_wrapped_account_secret = encode (km_wrapped_account_secret (rw_key_material body)),
        n_wrapped_personal_key = encode (km_wrapped_personal_key (rw_key_material body)),
        n_recovery_account_secret = encode (km_wrapped_account_secret (rw_recovery_material body)),
        n_recovery_personal_key = encode (km_wrapped_personal_key (rw_recovery_material body))\<rparr>)) (\<lambda>_.
     on_db (s_revoke_account_tokens (sv_store sv) (a_id account))))))))"

section \<open>Blobs\<close>

lemma decode_encode:
  "CHR ''.'' \<notin> set (sb_nonce blob) \<Longrightarrow> decode (encode blob) = blob"
  by (simp add: encode_def decode_def split_once_append)

text \<open>a sealed blob survives storage. Provided its nonce has no dot (base64 has none), decoding the
  stored string gives the blob back whatever its ciphertext contains; and without that condition
  decoding still loses no character, it only moves the first part of the nonce's rest to the
  ciphertext.\<close>

theorem blob_survives_storage:
  "(CHR ''.'' \<notin> set (sb_nonce blob) \<longleftrightarrow> decode (encode blob) = blob) \<and> encode (decode (encode blob)) = encode blob"
proof -
  obtain a b where ab: "split_once CHR ''.'' (encode blob) = Some (a, b)"
    using split_once_None [of "CHR ''.''" "encode blob"] by (cases "split_once CHR ''.'' (encode blob)") (auto simp: encode_def)
  then have "encode blob = a @ CHR ''.'' # b \<and> CHR ''.'' \<notin> set a" by (rule split_once_Some)
  with ab have "encode (decode (encode blob)) = encode blob" "CHR ''.'' \<notin> set (sb_nonce (decode (encode blob)))"
    by (simp_all add: decode_def encode_def)
  then show ?thesis using decode_encode by metis
qed

section \<open>What the handlers do\<close>

definition admitted :: "request \<Rightarrow> 's app \<Rightarrow> bool" where
  "admitted rq ap \<longleftrightarrow> fst (check (rn_instant rq) (sa_ip (rq_peer rq)) (ap_limit ap))"

lemma guard_simps [simp]:
  "fst (guard rq ap) = (if admitted rq ap then Inr () else Inl RateLimited)"
  "ap_db (snd (guard rq ap)) = ap_db ap"
  by (simp_all add: guard_def admitted_def split_beta)

lemma keeps_guard [keeps_intros]: "keeps (\<lambda>ap. P (ap_db ap)) (guard rq)"
  by (simp add: keeps_def)

lemma bind_guard:
  "bind_op (guard rq) g ap = (if admitted rq ap then g () (snd (guard rq ap)) else (Inl RateLimited, snd (guard rq ap)))"
  using bind_op_fst [of "guard rq" ap _ g] by auto

definition session_for :: "'s server \<Rightarrow> request \<Rightarrow> account \<Rightarrow> session" where
  "session_for sv rq a =
     \<lparr>ss_account_id = a_id a, ss_email = a_email a,
      ss_access_token = fst (mint_token (sv_lib sv) (rn_access rq)),
      ss_refresh_token = fst (mint_token (sv_lib sv) (rn_refresh rq)),
      ss_expires_in = cf_access_ttl_secs (sv_config sv), ss_key_material = key_material_of a\<rparr>"

text \<open>The token rows a session adds, and the table with them in.\<close>

definition access_row :: "'s server \<Rightarrow> request \<Rightarrow> string \<Rightarrow> token_db_row" where
  "access_row sv rq a = \<lparr>t_hash = snd (mint_token (sv_lib sv) (rn_access rq)), t_account_id = a,
     t_kind = ACCESS,
     t_expires_at = i64_wrap (now_ms (rn_issue rq) + i64_wrap (cf_access_ttl_secs (sv_config sv) * 1000))\<rparr>"

definition refresh_row :: "'s server \<Rightarrow> request \<Rightarrow> string \<Rightarrow> token_db_row" where
  "refresh_row sv rq a = \<lparr>t_hash = snd (mint_token (sv_lib sv) (rn_refresh rq)), t_account_id = a,
     t_kind = REFRESH, t_expires_at = i64_wrap (now_ms (rn_issue rq) + REFRESH_TTL_MS)\<rparr>"

definition put_rows :: "token_db_row list \<Rightarrow> token_db_row list \<Rightarrow> token_db_row list" where
  "put_rows new ts = foldl (\<lambda>ts t. fst (upsert t_hash token_on_conflict t ts)) ts new"

text \<open>A session leaves accounts, records and shares as they were.\<close>

definition same_data :: "tables \<Rightarrow> tables \<Rightarrow> bool" where
  "same_data t t' \<longleftrightarrow> accounts t' = accounts t \<and> records t' = records t \<and> shares t' = shares t"

lemma same_data_has_account: "same_data t t' \<Longrightarrow> has_account t' a = has_account t a"
  by (simp add: same_data_def has_account_def)

definition registered :: "register_request \<Rightarrow> string \<Rightarrow> string \<Rightarrow> new_account" where
  "registered body auth_hash recovery_hash =
     \<lparr>n_email = rr_email body, n_auth_hash = auth_hash, n_recovery_auth_hash = recovery_hash,
      n_account_public = km_account_public (rr_key_material body),
      n_wrapped_account_secret = encode (km_wrapped_account_secret (rr_key_material body)),
      n_wrapped_personal_key = encode (km_wrapped_personal_key (rr_key_material body)),
      n_recovery_account_secret = encode (km_wrapped_account_secret (rr_recovery_material body)),
      n_recovery_personal_key = encode (km_wrapped_personal_key (rr_recovery_material body))\<rparr>"

context store_contract
begin

lemma on_db_account_by_email:
  "inv (ap_db ap) \<Longrightarrow> on_db (s_account_by_email st m) ap =
     (Inr (map_option account_from_row (row_at ar_email (email_norm cd m) (accounts (tab (ap_db ap))))), ap)"
  by (simp add: on_db_def account_by_email)

lemma on_db_account_by_id:
  "on_db (s_account_by_id st i) ap = (Inr (map_option account_from_row (row_at ar_id i (accounts (tab (ap_db ap))))), ap)"
  by (simp add: on_db_def account_by_id)

lemma put_token_step:
  assumes "inv (ap_db ap)" "has_account (tab (ap_db ap)) a" "k \<in> {ACCESS, REFRESH}"
  obtains ap' where "on_db (s_put_token st h a k x) ap = (Inr (), ap')" "inv (ap_db ap')"
    "ap_limit ap' = ap_limit ap"
    "tab (ap_db ap') = (tab (ap_db ap))\<lparr>tokens := put_rows [\<lparr>t_hash = h, t_account_id = a, t_kind = k, t_expires_at = x\<rparr>]
       (tokens (tab (ap_db ap)))\<rparr>"
proof
  have k: "k \<in> {''access'', ''refresh''}" using assms(3) by (simp add: ACCESS_def REFRESH_def)
  show "on_db (s_put_token st h a k x) ap = (Inr (), snd (on_db (s_put_token st h a k x) ap))"
    using put_token [OF assms(1) k assms(2), of h x] by (simp add: on_db_def)
  show "inv (ap_db (snd (on_db (s_put_token st h a k x) ap)))"
    using assms(1) by (simp add: put_token_inv)
  show "ap_limit (snd (on_db (s_put_token st h a k x) ap)) = ap_limit ap" by simp
  show "tab (ap_db (snd (on_db (s_put_token st h a k x) ap))) = (tab (ap_db ap))\<lparr>tokens :=
      put_rows [\<lparr>t_hash = h, t_account_id = a, t_kind = k, t_expires_at = x\<rparr>] (tokens (tab (ap_db ap)))\<rparr>"
    using put_token [OF assms(1) k assms(2), of h x] by (simp add: put_rows_def)
qed

lemma touch_step:
  assumes "inv (ap_db ap)" "has_account (tab (ap_db ap)) a"
  obtains ap' where "(if d \<noteq> [] then on_db (s_touch_device st now a d nm) else ok_op ()) ap = (Inr (), ap')"
    "inv (ap_db ap')" "ap_limit ap' = ap_limit ap" "tokens (tab (ap_db ap')) = tokens (tab (ap_db ap))"
    "same_data (tab (ap_db ap)) (tab (ap_db ap'))"
proof (cases "d = []")
  case True
  then show ?thesis using that [of ap] assms by (simp add: same_data_def)
next
  case False
  let ?ap = "snd (on_db (s_touch_device st now a d nm) ap)"
  have "on_db (s_touch_device st now a d nm) ap = (Inr (), ?ap)"
    using touch_device [OF assms, of now d nm] by (simp add: on_db_def)
  then show ?thesis
    using that [of ?ap] False assms touch_device [OF assms, of now d nm]
    by (simp add: same_data_def touch_device_inv)
qed

lemma issue_session_ok:
  assumes sv: "sv_store sv = st" and inv: "inv (ap_db ap)" and acc: "has_account (tab (ap_db ap)) (a_id acc)"
  obtains ap' where "issue_session sv rq acc d nm ap = (Inr (session_for sv rq acc), ap')"
    "inv (ap_db ap')" "ap_limit ap' = ap_limit ap" "same_data (tab (ap_db ap)) (tab (ap_db ap'))"
    "tokens (tab (ap_db ap')) = put_rows [access_row sv rq (a_id acc), refresh_row sv rq (a_id acc)]
       (tokens (tab (ap_db ap)))"
proof -
  obtain access ah where am: "mint_token (sv_lib sv) (rn_access rq) = (access, ah)" by fastforce
  obtain rtok rh where rm: "mint_token (sv_lib sv) (rn_refresh rq) = (rtok, rh)" by fastforce
  obtain ap1 where 1: "on_db (s_put_token st ah (a_id acc) ACCESS (t_expires_at (access_row sv rq (a_id acc)))) ap = (Inr (), ap1)"
      "inv (ap_db ap1)" "ap_limit ap1 = ap_limit ap"
      "tab (ap_db ap1) = (tab (ap_db ap))\<lparr>tokens := put_rows [\<lparr>t_hash = ah, t_account_id = a_id acc, t_kind = ACCESS,
         t_expires_at = t_expires_at (access_row sv rq (a_id acc))\<rparr>] (tokens (tab (ap_db ap)))\<rparr>"
    using put_token_step [OF inv acc, of ACCESS] by (metis insertCI)
  have acc1: "has_account (tab (ap_db ap1)) (a_id acc)" using 1(4) acc by simp
  obtain ap2 where 2: "on_db (s_put_token st rh (a_id acc) REFRESH (t_expires_at (refresh_row sv rq (a_id acc)))) ap1 = (Inr (), ap2)"
      "inv (ap_db ap2)" "ap_limit ap2 = ap_limit ap1"
      "tab (ap_db ap2) = (tab (ap_db ap1))\<lparr>tokens := put_rows [\<lparr>t_hash = rh, t_account_id = a_id acc, t_kind = REFRESH,
         t_expires_at = t_expires_at (refresh_row sv rq (a_id acc))\<rparr>] (tokens (tab (ap_db ap1)))\<rparr>"
    using put_token_step [OF 1(2) acc1, of REFRESH] by (metis insertCI)
  have acc2: "has_account (tab (ap_db ap2)) (a_id acc)" using 2(4) acc1 by simp
  obtain ap3 where 3: "(if d \<noteq> [] then on_db (s_touch_device st (rn_touch rq) (a_id acc) d nm) else ok_op ()) ap2 = (Inr (), ap3)"
      "inv (ap_db ap3)" "ap_limit ap3 = ap_limit ap2" "tokens (tab (ap_db ap3)) = tokens (tab (ap_db ap2))"
      "same_data (tab (ap_db ap2)) (tab (ap_db ap3))"
    by (rule touch_step [OF 2(2) acc2])
  have "issue_session sv rq acc d nm ap = (Inr (session_for sv rq acc), ap3)"
    using 1(1) 2(1) 3(1)
    by (cases "d = []")
      (simp_all add: issue_session_def Let_def am rm sv bind_op_eqs session_for_def access_row_def refresh_row_def)
  moreover have "tokens (tab (ap_db ap3)) = put_rows [access_row sv rq (a_id acc), refresh_row sv rq (a_id acc)]
       (tokens (tab (ap_db ap)))"
    using 1(4) 2(4) 3(4) by (simp add: put_rows_def access_row_def refresh_row_def am rm)
  moreover have "same_data (tab (ap_db ap)) (tab (ap_db ap3))"
    using 1(4) 2(4) 3(5) by (simp add: same_data_def)
  ultimately show ?thesis using that [of ap3] 1 2 3 by simp
qed

lemma login_unknown:
  assumes "sv_store sv = st" "inv (ap_db ap)" "admitted rq ap"
    and "row_at ar_email (email_norm cd (lr_email body)) (accounts (tab (ap_db ap))) = None"
  shows "login sv rq body ap = (Inl BadCredentials, snd (guard rq ap))"
  using assms
  by (simp add: login_def bind_guard bind_op_eqs on_db_account_by_email err_op_def)

lemma login_wrong:
  assumes "sv_store sv = st" "inv (ap_db ap)" "admitted rq ap"
    and "row_at ar_email (email_norm cd (lr_email body)) (accounts (tab (ap_db ap))) = Some r"
    and "\<not> verify_auth_key (sv_lib sv) (lr_auth_key body) (ar_auth_hash r)"
  shows "login sv rq body ap = (Inl BadCredentials, snd (guard rq ap))"
  using assms
  by (simp add: login_def bind_guard bind_op_eqs on_db_account_by_email err_op_def account_from_row_def)

lemma row_has_account: "row_at k i (accounts t) = Some r \<Longrightarrow> has_account t (ar_id r)"
  using row_at_Some [of k i "accounts t" r] by (auto simp: has_account_def)

lemma login_ok:
  assumes "sv_store sv = st" "inv (ap_db ap)" "admitted rq ap"
    and row: "row_at ar_email (email_norm cd (lr_email body)) (accounts (tab (ap_db ap))) = Some r"
    and "verify_auth_key (sv_lib sv) (lr_auth_key body) (ar_auth_hash r)"
  obtains ap' where "login sv rq body ap = (Inr (session_for sv rq (account_from_row r)), ap')"
    "inv (ap_db ap')" "same_data (tab (ap_db ap)) (tab (ap_db ap'))"
    "tokens (tab (ap_db ap')) = put_rows [access_row sv rq (ar_id r), refresh_row sv rq (ar_id r)] (tokens (tab (ap_db ap)))"
proof -
  let ?g = "snd (guard rq ap)"
  have "has_account (tab (ap_db ?g)) (a_id (account_from_row r))"
    using row_has_account [OF row] by (simp add: account_from_row_def)
  moreover have "inv (ap_db ?g)" using assms(2) by simp
  ultimately obtain ap' where "issue_session sv rq (account_from_row r) (lr_device_id body) (lr_device_name body) ?g =
      (Inr (session_for sv rq (account_from_row r)), ap')" "inv (ap_db ap')"
      "same_data (tab (ap_db ?g)) (tab (ap_db ap'))"
      "tokens (tab (ap_db ap')) = put_rows [access_row sv rq (ar_id r), refresh_row sv rq (ar_id r)] (tokens (tab (ap_db ?g)))"
    using issue_session_ok [OF assms(1)] by (metis (no_types, lifting) account_from_row_def account.select_convs(1))
  with assms show ?thesis
    by (intro that) (simp_all add: login_def bind_guard bind_op_eqs on_db_account_by_email account_from_row_def)
qed

lemma recover_cases:
  assumes "sv_store sv = st" "inv (ap_db ap)" "admitted rq ap"
  shows "recover sv rq body ap =
    (case row_at ar_email (email_norm cd (rc_email body)) (accounts (tab (ap_db ap))) of
       None \<Rightarrow> (Inl BadCredentials, snd (guard rq ap))
     | Some r \<Rightarrow>
         if verify_auth_key (sv_lib sv) (rc_recovery_auth_key body) (ar_recovery_auth_hash r)
         then issue_session sv rq ((account_from_row r)\<lparr>a_wrapped_account_secret := ar_recovery_account_secret r,
                a_wrapped_personal_key := ar_recovery_personal_key r\<rparr>)
                (rc_device_id body) (rc_device_name body) (snd (guard rq ap))
         else (Inl BadCredentials, snd (guard rq ap)))"
  using assms
  by (simp add: recover_def bind_guard bind_op_eqs on_db_account_by_email err_op_def account_from_row_def
      split: option.splits)

lemma register_ok:
  assumes "sv_store sv = st" "inv (ap_db ap)" "admitted rq ap" "cf_registration_open (sv_config sv)"
    and "validate_email (rr_email body) = Inr ()"
    and "sb_ciphertext (km_wrapped_personal_key (rr_recovery_material body)) \<noteq> []"
    and "hash_auth_key (sv_lib sv) (rn_auth_salt rq) (rr_auth_key body) = Inr ah"
    and "hash_auth_key (sv_lib sv) (rn_recovery_salt rq) (rr_recovery_auth_key body) = Inr rh"
    and free: "\<not> list_ex (\<lambda>r. ar_id r = hex_encode cd (rn_id rq) \<or> ar_email r = email_norm cd (rr_email body))
      (accounts (tab (ap_db ap)))"
    and row: "row = account_row_of (hex_encode cd (rn_id rq)) (email_norm cd (rr_email body)) (now_ms (rn_store rq))
      (registered body ah rh)"
  obtains ap' where "register sv rq body ap = (Inr (session_for sv rq (account_from_row row)), ap')"
    "inv (ap_db ap')" "same_data ((tab (ap_db ap))\<lparr>accounts := accounts (tab (ap_db ap)) @ [row]\<rparr>) (tab (ap_db ap'))"
    "tokens (tab (ap_db ap')) = put_rows [access_row sv rq (ar_id row), refresh_row sv rq (ar_id row)] (tokens (tab (ap_db ap)))"
    "ap_limit ap' = ap_limit (snd (guard rq ap))"
proof -
  let ?g = "snd (guard rq ap)" and ?n = "registered body ah rh"
  let ?c = "snd (on_db (s_create_account st (rn_store rq) (rn_id rq) ?n) ?g)"
  have free': "\<not> list_ex (\<lambda>r. ar_id r = hex_encode cd (rn_id rq) \<or> ar_email r = email_norm cd (n_email ?n)) (accounts (tab (ap_db ap)))"
    using free by (simp add: registered_def)
  have row': "row = account_row_of (hex_encode cd (rn_id rq)) (email_norm cd (n_email ?n)) (now_ms (rn_store rq)) ?n"
    using row by (simp add: registered_def)
  note create = create_account_new [OF assms(2) free' row']
  have inv: "inv (ap_db ?c)" using assms(2) by (simp add: create_account_inv)
  have tabs: "tab (ap_db ?c) = (tab (ap_db ap))\<lparr>accounts := accounts (tab (ap_db ap)) @ [row]\<rparr>" using create by simp
  have id: "a_id (account_from_row row) = ar_id row" by (simp add: account_from_row_def)
  have acc: "has_account (tab (ap_db ?c)) (a_id (account_from_row row))" unfolding id has_account_def tabs by simp
  obtain ap' where ap': "issue_session sv rq (account_from_row row) (rr_device_id body) (rr_device_name body) ?c =
      (Inr (session_for sv rq (account_from_row row)), ap')" "inv (ap_db ap')" "ap_limit ap' = ap_limit ?c" "same_data (tab (ap_db ?c)) (tab (ap_db ap'))"
      "tokens (tab (ap_db ap')) = put_rows [access_row sv rq (ar_id row), refresh_row sv rq (ar_id row)] (tokens (tab (ap_db ?c)))"
    by (rule issue_session_ok [OF assms(1) inv acc, of rq "rr_device_id body" "rr_device_name body", unfolded id])
  have "register sv rq body ap =
      bind_op (on_db (s_create_account st (rn_store rq) (rn_id rq) ?n))
        (\<lambda>account. issue_session sv rq account (rr_device_id body) (rr_device_name body)) ?g"
    using assms by (simp add: register_def bind_guard registered_def)
  also have "\<dots> = (Inr (session_for sv rq (account_from_row row)), ap')"
    using create ap'(1) by (subst bind_op_fst(1) [where x = "account_from_row row"]) simp_all
  finally show ?thesis using that ap'(2-5) unfolding tabs by simp
qed

text \<open>A registration that answers with a session passed every check.\<close>

lemma register_InrD:
  assumes "sv_store sv = st" "inv (ap_db ap)" "fst (register sv rq body ap) = Inr x"
  shows "admitted rq ap" "cf_registration_open (sv_config sv)" "validate_email (rr_email body) = Inr ()"
    and "sb_ciphertext (km_wrapped_personal_key (rr_recovery_material body)) \<noteq> []"
    and "\<exists>ah. hash_auth_key (sv_lib sv) (rn_auth_salt rq) (rr_auth_key body) = Inr ah"
    and "\<exists>rh. hash_auth_key (sv_lib sv) (rn_recovery_salt rq) (rr_recovery_auth_key body) = Inr rh"
    and "\<not> list_ex (\<lambda>r. ar_id r = hex_encode cd (rn_id rq) \<or> ar_email r = email_norm cd (rr_email body))
      (accounts (tab (ap_db ap)))"
proof -
  have step: "admitted rq ap \<and> cf_registration_open (sv_config sv) \<and> validate_email (rr_email body) = Inr () \<and>
    sb_ciphertext (km_wrapped_personal_key (rr_recovery_material body)) \<noteq> [] \<and>
    (\<exists>ah rh. hash_auth_key (sv_lib sv) (rn_auth_salt rq) (rr_auth_key body) = Inr ah \<and>
      hash_auth_key (sv_lib sv) (rn_recovery_salt rq) (rr_recovery_auth_key body) = Inr rh \<and>
      fst (bind_op (on_db (s_create_account st (rn_store rq) (rn_id rq) (registered body ah rh)))
        (\<lambda>account. issue_session sv rq account (rr_device_id body) (rr_device_name body)) (snd (guard rq ap))) = Inr x)"
    using assms(1,3)
    by (cases "validate_email (rr_email body)";
        cases "hash_auth_key (sv_lib sv) (rn_auth_salt rq) (rr_auth_key body)";
        cases "hash_auth_key (sv_lib sv) (rn_recovery_salt rq) (rr_recovery_auth_key body)")
      (auto simp: register_def bind_guard registered_def err_op_def split: if_splits)
  then obtain ah rh where created: "fst (bind_op (on_db (s_create_account st (rn_store rq) (rn_id rq) (registered body ah rh)))
        (\<lambda>account. issue_session sv rq account (rr_device_id body) (rr_device_name body)) (snd (guard rq ap))) = Inr x"
    by blast
  show "\<not> list_ex (\<lambda>r. ar_id r = hex_encode cd (rn_id rq) \<or> ar_email r = email_norm cd (rr_email body)) (accounts (tab (ap_db ap)))"
  proof
    assume taken: "list_ex (\<lambda>r. ar_id r = hex_encode cd (rn_id rq) \<or> ar_email r = email_norm cd (rr_email body)) (accounts (tab (ap_db ap)))"
    then have "s_create_account st (rn_store rq) (rn_id rq) (registered body ah rh) (ap_db ap) = (Inl EmailTaken, ap_db ap)"
      using assms(2) by (intro create_account_taken) (simp_all add: registered_def)
    with created show False by (subst (asm) bind_op_fst(2)) simp_all
  qed
  from step show "admitted rq ap" "cf_registration_open (sv_config sv)" "validate_email (rr_email body) = Inr ()"
    "sb_ciphertext (km_wrapped_personal_key (rr_recovery_material body)) \<noteq> []"
    "\<exists>ah. hash_auth_key (sv_lib sv) (rn_auth_salt rq) (rr_auth_key body) = Inr ah"
    "\<exists>rh. hash_auth_key (sv_lib sv) (rn_recovery_salt rq) (rr_recovery_auth_key body) = Inr rh"
    by blast+
qed

end

section \<open>Sign-in\<close>

text \<open>sign-in succeeds exactly with the right key. On any well-formed SQLite instance, for a request the
  limiter admits, a login returns a session if and only if the normalised address belongs to an account
  whose stored hash the presented key verifies, and the session is then for that account. In every
  other case the answer is one and the same error, whether the address is unknown or the key wrong,
  and the database is left untouched.\<close>

theorem login_iff_key_verifies:
  assumes "sqlite_inv (lib_codec lib) (ap_db ap)" "admitted rq ap"
  shows "if \<exists>r \<in> set (accounts (tabs (ap_db ap))). ar_email r = email_norm (lib_codec lib) (lr_email body) \<and>
       verify_auth_key lib (lr_auth_key body) (ar_auth_hash r)
     then \<exists>s r. fst (login (sqlite_server cf lib dummy) rq body ap) = Inr s \<and> r \<in> set (accounts (tabs (ap_db ap))) \<and>
       ar_email r = email_norm (lib_codec lib) (lr_email body) \<and> ss_account_id s = ar_id r \<and> ss_email s = ar_email r
     else fst (login (sqlite_server cf lib dummy) rq body ap) = Inl BadCredentials \<and>
       ap_db (snd (login (sqlite_server cf lib dummy) rq body ap)) = ap_db ap"
proof -
  let ?sv = "sqlite_server cf lib dummy" and ?as = "accounts (tabs (ap_db ap))"
  let ?m = "email_norm (lib_codec lib) (lr_email body)"
  have sv: "sv_store ?sv = sqlite_store (lib_codec lib)" by simp
  note at = row_at_in [of ar_email ?as ?m]
  have distinct: "distinct (map ar_email ?as)"
    using sqlite.inv_tables [OF assms(1)] by (simp add: tables_ok_defs)
  show ?thesis
  proof (cases "row_at ar_email ?m ?as")
    case None
    with sqlite.login_unknown [OF sv assms None] show ?thesis by (auto simp: row_at_None image_iff)
  next
    case (Some r)
    then have r: "r \<in> set ?as" "ar_email r = ?m" using row_at_Some by metis+
    have unique: "x = r" if "x \<in> set ?as" "ar_email x = ?m" for x
      using at [OF distinct, of x] Some that by simp
    show ?thesis
    proof (cases "verify_auth_key lib (lr_auth_key body) (ar_auth_hash r)")
      case True
      then have v: "verify_auth_key (sv_lib ?sv) (lr_auth_key body) (ar_auth_hash r)" by simp
      obtain ap' where "login ?sv rq body ap = (Inr (session_for ?sv rq (account_from_row r)), ap')"
        by (rule sqlite.login_ok [OF sv assms Some v])
      with True r show ?thesis by (auto simp: session_for_def account_from_row_def)
    next
      case False
      then have "\<not> verify_auth_key (sv_lib ?sv) (lr_auth_key body) (ar_auth_hash r)" by simp
      with sqlite.login_wrong [OF sv assms Some] False unique show ?thesis by auto
    qed
  qed
qed

end
