(* ===== verification/Sessions.thy ===== *)
theory Sessions
  imports Routes_Auth
begin

text \<open>
  What the handlers of \<open>Routes_Auth\<close> promise together: registration followed by sign-in or recovery,
  the life of the two tokens of a session, and the ends of it (refresh, logout, rewrap). Each fact is
  proved over the store contract and stated for the SQLite instance.
\<close>

section \<open>Registration and the ways back in\<close>

context store_contract
begin

text \<open>After a registration the account's row is found under every spelling of the address.\<close>

lemma register_row:
  assumes sv: "sv_store sv = st" "inv (ap_db ap)" and reg: "register sv rq body ap = (Inr s, ap1)"
    and hash: "hashing_ok (sv_lib sv)" "length (rn_auth_salt rq) = 16" "length (rn_recovery_salt rq) = 16"
  obtains row ah rh where "row_at ar_email (email_norm cd (rr_email body)) (accounts (tab (ap_db ap1))) = Some row"
    "row = account_row_of (hex_encode cd (rn_id rq)) (email_norm cd (rr_email body)) (now_ms (rn_store rq)) (registered body ah rh)"
    "verify_auth_key (sv_lib sv) (rr_auth_key body) (ar_auth_hash row)"
    "verify_auth_key (sv_lib sv) (rr_recovery_auth_key body) (ar_recovery_auth_hash row)"
    "s = session_for sv rq (account_from_row row)" "inv (ap_db ap1)"
proof -
  have ok: "fst (register sv rq body ap) = Inr s" by (simp add: reg)
  note pre = register_InrD [OF sv ok]
  obtain ah rh where h: "hash_auth_key (sv_lib sv) (rn_auth_salt rq) (rr_auth_key body) = Inr ah"
    "hash_auth_key (sv_lib sv) (rn_recovery_salt rq) (rr_recovery_auth_key body) = Inr rh"
    using pre(5,6) by blast
  define row where "row = account_row_of (hex_encode cd (rn_id rq)) (email_norm cd (rr_email body))
    (now_ms (rn_store rq)) (registered body ah rh)"
  obtain ap' where ap': "register sv rq body ap = (Inr (session_for sv rq (account_from_row row)), ap')" "inv (ap_db ap')"
    "same_data ((tab (ap_db ap))\<lparr>accounts := accounts (tab (ap_db ap)) @ [row]\<rparr>) (tab (ap_db ap'))"
    by (rule register_ok [OF sv pre(1-4) h pre(7) row_def])
  have "row_at ar_email (email_norm cd (rr_email body)) (accounts (tab (ap_db ap))) = None"
    using pre(7) by (auto simp: row_at_None list_ex_iff)
  then have "row_at ar_email (email_norm cd (rr_email body)) (accounts (tab (ap_db ap'))) = Some row"
    using ap'(3) by (simp add: same_data_def row_at_append row_def account_row_of_def)
  moreover have "verify_auth_key (sv_lib sv) (rr_auth_key body) (ar_auth_hash row)"
    using hash_verifies [OF hash(1,2) h(1)] by (simp add: row_def account_row_of_def registered_def)
  moreover have "verify_auth_key (sv_lib sv) (rr_recovery_auth_key body) (ar_recovery_auth_hash row)"
    using hash_verifies [OF hash(1,3) h(2)] by (simp add: row_def account_row_of_def registered_def)
  ultimately show ?thesis using that [OF _ row_def] ap' reg by simp
qed

lemma register_then_login_ok:
  assumes "sv_store sv = st" "inv (ap_db ap)" "register sv rq body ap = (Inr s, ap1)"
    and "hashing_ok (sv_lib sv)" "length (rn_auth_salt rq) = 16" "length (rn_recovery_salt rq) = 16"
    and "admitted rq' ap1" "email_norm cd (lr_email lg) = email_norm cd (rr_email body)"
    and "lr_auth_key lg = rr_auth_key body"
    and "CHR ''.'' \<notin> set (sb_nonce (km_wrapped_account_secret (rr_key_material body)))"
    and "CHR ''.'' \<notin> set (sb_nonce (km_wrapped_personal_key (rr_key_material body)))"
  shows "\<exists>s' ap2. login sv rq' lg ap1 = (Inr s', ap2) \<and> ss_account_id s' = ss_account_id s \<and>
    ss_key_material s' = rr_key_material body \<and> ss_key_material s = rr_key_material body"
proof -
  obtain row ah rh where r: "row_at ar_email (email_norm cd (rr_email body)) (accounts (tab (ap_db ap1))) = Some row"
    "row = account_row_of (hex_encode cd (rn_id rq)) (email_norm cd (rr_email body)) (now_ms (rn_store rq)) (registered body ah rh)"
    "verify_auth_key (sv_lib sv) (rr_auth_key body) (ar_auth_hash row)"
    "s = session_for sv rq (account_from_row row)" "inv (ap_db ap1)"
    by (rule register_row [OF assms(1-6)])
  have at: "row_at ar_email (email_norm cd (lr_email lg)) (accounts (tab (ap_db ap1))) = Some row"
    "verify_auth_key (sv_lib sv) (lr_auth_key lg) (ar_auth_hash row)"
    using r assms(8,9) by simp_all
  obtain ap2 where "login sv rq' lg ap1 = (Inr (session_for sv rq' (account_from_row row)), ap2)"
    by (rule login_ok [OF assms(1) r(5) assms(7) at])
  moreover have "key_material_of (account_from_row row) = rr_key_material body"
    using assms(10,11)
    by (simp add: key_material_of_def account_from_row_def r(2) account_row_of_def registered_def decode_encode)
  ultimately show ?thesis by (simp add: session_for_def r(4))
qed

lemma register_then_recover_ok:
  assumes "sv_store sv = st" "inv (ap_db ap)" "register sv rq body ap = (Inr s, ap1)"
    and "hashing_ok (sv_lib sv)" "length (rn_auth_salt rq) = 16" "length (rn_recovery_salt rq) = 16"
    and "admitted rq' ap1" "email_norm cd (rc_email rc) = email_norm cd (rr_email body)"
    and "rc_recovery_auth_key rc = rr_recovery_auth_key body"
    and "CHR ''.'' \<notin> set (sb_nonce (km_wrapped_account_secret (rr_recovery_material body)))"
    and "CHR ''.'' \<notin> set (sb_nonce (km_wrapped_personal_key (rr_recovery_material body)))"
  obtains s' ap2 row where "recover sv rq' rc ap1 = (Inr s', ap2)" "ss_account_id s' = ss_account_id s"
    "ss_key_material s' = (rr_recovery_material body)\<lparr>km_account_public := km_account_public (rr_key_material body)\<rparr>"
    "inv (ap_db ap2)" "ap_limit ap2 = ap_limit (snd (guard rq' ap1))" "row \<in> set (accounts (tab (ap_db ap2)))"
    "ar_id row = ss_account_id s" "ar_email row = email_norm cd (rr_email body)"
    "ar_account_public row = km_account_public (rr_key_material body)"
    "tokens (tab (ap_db ap2)) = put_rows [access_row sv rq' (ar_id row), refresh_row sv rq' (ar_id row)] (tokens (tab (ap_db ap1)))"
proof -
  obtain row ah rh where r: "row_at ar_email (email_norm cd (rr_email body)) (accounts (tab (ap_db ap1))) = Some row"
    "row = account_row_of (hex_encode cd (rn_id rq)) (email_norm cd (rr_email body)) (now_ms (rn_store rq)) (registered body ah rh)"
    "verify_auth_key (sv_lib sv) (rr_recovery_auth_key body) (ar_recovery_auth_hash row)"
    "s = session_for sv rq (account_from_row row)" "inv (ap_db ap1)"
    by (rule register_row [OF assms(1-6)])
  let ?acc = "(account_from_row row)\<lparr>a_wrapped_account_secret := ar_recovery_account_secret row,
                a_wrapped_personal_key := ar_recovery_personal_key row\<rparr>"
  have id: "a_id ?acc = ar_id row" by (simp add: account_from_row_def)
  have "has_account (tab (ap_db (snd (guard rq' ap1)))) (a_id ?acc)"
    using row_has_account [OF r(1)] by (simp add: id)
  moreover have "inv (ap_db (snd (guard rq' ap1)))" using r(5) by simp
  ultimately obtain ap2 where ap2: "issue_session sv rq' ?acc (rc_device_id rc) (rc_device_name rc) (snd (guard rq' ap1)) =
      (Inr (session_for sv rq' ?acc), ap2)" "inv (ap_db ap2)" "ap_limit ap2 = ap_limit (snd (guard rq' ap1))"
      "same_data (tab (ap_db (snd (guard rq' ap1)))) (tab (ap_db ap2))"
      "tokens (tab (ap_db ap2)) = put_rows [access_row sv rq' (ar_id row), refresh_row sv rq' (ar_id row)] (tokens (tab (ap_db ap1)))"
    by (metis issue_session_ok [OF assms(1)] id guard_simps(2))
  then have "recover sv rq' rc ap1 = (Inr (session_for sv rq' ?acc), ap2)"
    using r(1,3) assms(8,9) by (simp add: recover_cases [OF assms(1) r(5) assms(7)])
  moreover have "key_material_of ?acc = (rr_recovery_material body)\<lparr>km_account_public := km_account_public (rr_key_material body)\<rparr>"
    using assms(10,11)
    by (simp add: key_material_of_def account_from_row_def r(2) account_row_of_def registered_def decode_encode)
  moreover have "row \<in> set (accounts (tab (ap_db ap2)))" using row_at_Some [OF r(1)] ap2(4) by (simp add: same_data_def)
  moreover have "ar_email row = email_norm cd (rr_email body)" "ar_account_public row = km_account_public (rr_key_material body)"
    by (simp_all add: r(2) account_row_of_def registered_def)
  ultimately show ?thesis using ap2(2,3,5)
    by (intro that [of "session_for sv rq' ?acc" ap2 row]) (simp_all add: session_for_def r(4) account_from_row_def)
qed

end

text \<open>After a registration that answered with a session, a sign-in with the same auth key and any spelling of
  the address that normalises alike is answered for the same account with exactly the blobs registered.\<close>

theorem register_then_login:
  assumes "sqlite_inv (lib_codec lib) (ap_db ap)" "hashing_ok lib"
    and "length (rn_auth_salt rq) = 16" "length (rn_recovery_salt rq) = 16"
    and "register (sqlite_server cf lib dummy) rq body ap = (Inr s, ap1)" "admitted rq' ap1"
    and "email_norm (lib_codec lib) (lr_email lg) = email_norm (lib_codec lib) (rr_email body)"
    and "lr_auth_key lg = rr_auth_key body"
    and "CHR ''.'' \<notin> set (sb_nonce (km_wrapped_account_secret (rr_key_material body)))"
    and "CHR ''.'' \<notin> set (sb_nonce (km_wrapped_personal_key (rr_key_material body)))"
  shows "\<exists>s' ap2. login (sqlite_server cf lib dummy) rq' lg ap1 = (Inr s', ap2) \<and>
    ss_account_id s' = ss_account_id s \<and> ss_key_material s' = rr_key_material body \<and> ss_key_material s = rr_key_material body"
  by (rule sqlite.register_then_login_ok [OF _ assms(1,5) _ assms(3,4,6,7,8,9,10)]) (simp_all add: assms(2))

text \<open>A registration on a fresh instance, for concrete runs.\<close>

definition sample_material :: "string \<Rightarrow> key_material" where
  "sample_material tag = \<lparr>km_account_public = ''pk'',
     km_wrapped_account_secret = \<lparr>sb_nonce = ''n1'', sb_ciphertext = tag\<rparr>,
     km_wrapped_personal_key = \<lparr>sb_nonce = ''n2'', sb_ciphertext = tag\<rparr>\<rparr>"

definition sample_register :: register_request where
  "sample_register = \<lparr>rr_email = ''ada@x.io'', rr_auth_key = ''k'', rr_key_material = sample_material ''a.b'',
     rr_recovery_material = sample_material ''r'', rr_recovery_auth_key = ''c'', rr_device_id = ''d'', rr_device_name = ''laptop''\<rparr>"

definition open_config :: config where
  "open_config = default_config\<lparr>cf_registration_open := True\<rparr>"

definition sample_server :: "sqlite_db server" where
  "sample_server = sqlite_server open_config sample_lib ''$dummy''"

definition sample_app :: "sqlite_db app" where
  "sample_app = \<lparr>ap_db = \<lparr>tabs = no_tables, sequence = Some 0\<rparr>, ap_limit = auth_limit\<rparr>"

lemma sample_app_inv: "sqlite_inv (lib_codec sample_lib) (ap_db sample_app)"
  using sample_lib_ok by (simp add: sample_app_def sqlite_inv_def sqlite_counter_def)

lemma check_fresh: "fst (check now ip (new_limit m w)) \<longleftrightarrow> 0 < m"
  by (simp add: check_verdict) (simp add: new_limit_def)

lemma sample_admitted: "admitted rq sample_app"
  by (simp add: admitted_def sample_app_def auth_limit_def check_fresh)

lemma validate_sample: "validate_email (rr_email sample_register) = Inr ()"
  by code_simp

lemma sample_hashes:
  "hash_auth_key sample_lib b k = Inr (CHR ''$'' # k)"
  by (simp add: hash_auth_key_def sample_lib_def sample_platform_def)

definition row_on_fresh :: "register_request \<Rightarrow> account_row" where
  "row_on_fresh body = account_row_of ''u'' (email_norm (lib_codec sample_lib) (rr_email body)) 1000
     (registered body (CHR ''$'' # rr_auth_key body) (CHR ''$'' # rr_recovery_auth_key body))"

lemma fresh_registration:
  assumes "validate_email (rr_email body) = Inr ()" "sb_ciphertext (km_wrapped_personal_key (rr_recovery_material body)) \<noteq> []"
  obtains ap1 where "register sample_server sample_request body sample_app =
      (Inr (session_for sample_server sample_request (account_from_row (row_on_fresh body))), ap1)"
    "ap_limit ap1 = ap_limit (snd (guard sample_request sample_app))" "sqlite_inv (lib_codec sample_lib) (ap_db ap1)"
    "accounts (tabs (ap_db ap1)) = [row_on_fresh body]"
    "tokens (tabs (ap_db ap1)) = put_rows [access_row sample_server sample_request ''u'', refresh_row sample_server sample_request ''u''] []"
proof -
  have sv: "sv_store sample_server = sqlite_store (lib_codec sample_lib)" by (simp add: sample_server_def)
  have "cf_registration_open (sv_config sample_server)" by (simp add: sample_server_def open_config_def)
  moreover have "hash_auth_key (sv_lib sample_server) (rn_auth_salt sample_request) (rr_auth_key body) = Inr (CHR ''$'' # rr_auth_key body)"
    "hash_auth_key (sv_lib sample_server) (rn_recovery_salt sample_request) (rr_recovery_auth_key body) = Inr (CHR ''$'' # rr_recovery_auth_key body)"
    by (simp_all add: sample_server_def sample_hashes)
  moreover have "\<not> list_ex (\<lambda>r. ar_id r = hex_encode (lib_codec sample_lib) (rn_id sample_request) \<or>
      ar_email r = email_norm (lib_codec sample_lib) (rr_email body)) (accounts (tabs (ap_db sample_app)))"
    by (simp add: sample_app_def no_tables_def)
  moreover have u: "hex_encode (lib_codec sample_lib) (rn_id sample_request) = ''u''"
    by (simp add: sample_lib_def sample_platform_def sample_request_def del: as_bytes_simps)
  then have "row_on_fresh body = account_row_of (hex_encode (lib_codec sample_lib) (rn_id sample_request))
      (email_norm (lib_codec sample_lib) (rr_email body)) (now_ms (rn_store sample_request))
      (registered body (CHR ''$'' # rr_auth_key body) (CHR ''$'' # rr_recovery_auth_key body))"
    by (simp add: row_on_fresh_def sample_request_def now_ms_def is_i64_def)
  moreover have "ar_id (row_on_fresh body) = ''u''" by (simp add: row_on_fresh_def account_row_of_def)
  ultimately show ?thesis
    using sqlite.register_ok [OF sv sample_app_inv sample_admitted _ assms] that
    by (simp add: same_data_def sample_app_def no_tables_def) metis
qed

definition sample_row :: account_row where
  "sample_row = account_row_of ''u'' (email_norm (lib_codec sample_lib) ''ada@x.io'') 1000
     (registered sample_register ''$k'' ''$c'')"

lemma sample_registration:
  obtains ap1 where "register sample_server sample_request sample_register sample_app =
      (Inr (session_for sample_server sample_request (account_from_row sample_row)), ap1)"
    "ap_limit ap1 = ap_limit (snd (guard sample_request sample_app))" "sqlite_inv (lib_codec sample_lib) (ap_db ap1)"
    "accounts (tabs (ap_db ap1)) = [sample_row]"
    "tokens (tabs (ap_db ap1)) = put_rows [access_row sample_server sample_request ''u'', refresh_row sample_server sample_request ''u''] []"
proof -
  have "sb_ciphertext (km_wrapped_personal_key (rr_recovery_material sample_register)) \<noteq> []"
    by (simp add: sample_register_def sample_material_def)
  moreover have "row_on_fresh sample_register = sample_row"
    by (simp add: row_on_fresh_def sample_row_def sample_register_def)
  ultimately show ?thesis using fresh_registration [OF validate_sample] that by metis
qed

text \<open>A limiter with few recorded instants admits every request.\<close>

definition calm :: "nat \<Rightarrow> 's app \<Rightarrow> bool" where
  "calm n ap \<longleftrightarrow> rl_max (ap_limit ap) = 10 \<and> (\<forall>ip. length (hits_of (ap_limit ap) ip) \<le> n)"

lemma calm_start: "calm 0 sample_app"
  by (simp add: calm_def sample_app_def auth_limit_def) (simp add: new_limit_def)

lemma calm_guard:
  assumes "calm n ap" "ap_limit ap1 = ap_limit (snd (guard rq ap))"
  shows "calm (Suc n) ap1"
proof -
  have "length (filter p (hits_of (ap_limit ap) ip)) \<le> n" for p ip
    using assms(1) length_filter_le order_trans unfolding calm_def by blast
  then show ?thesis using assms by (auto simp: calm_def guard_def split_beta check_hits intro: le_SucI)
qed

lemma calm_admitted:
  assumes "calm n ap" "n < 10"
  shows "admitted rq ap"
proof -
  have "length (filter p (hits_of (ap_limit ap) ip)) \<le> n" for p ip
    using assms(1) length_filter_le order_trans unfolding calm_def by blast
  then have "length (filter p (hits_of (ap_limit ap) ip)) < 10" for p ip using assms(2) le_less_trans by blast
  then show ?thesis using assms(1) by (simp add: admitted_def check_verdict calm_def)
qed

lemma sample_admitted_again:
  assumes "ap_limit ap1 = ap_limit (snd (guard sample_request sample_app))"
  shows "admitted rq ap1"
  by (rule calm_admitted [OF calm_guard [OF calm_start assms]]) simp

definition sample_login :: login_request where
  "sample_login = \<lparr>lr_email = '' ADA@x.io'', lr_auth_key = ''k'', lr_device_id = [], lr_device_name = []\<rparr>"

lemma sample_spelling: "email_norm (lib_codec sample_lib) (lr_email sample_login) =
    email_norm (lib_codec sample_lib) (rr_email sample_register)"
  by code_simp

theorem register_then_login_witness:
  "\<exists>s ap1 s' ap2. register sample_server sample_request sample_register sample_app = (Inr s, ap1) \<and>
     login sample_server sample_request sample_login ap1 = (Inr s', ap2) \<and> ss_key_material s' = sample_material ''a.b''"
proof -
  obtain ap1 where reg: "register sample_server sample_request sample_register sample_app =
      (Inr (session_for sample_server sample_request (account_from_row sample_row)), ap1)"
    and lim: "ap_limit ap1 = ap_limit (snd (guard sample_request sample_app))"
    by (rule sample_registration)
  have "\<exists>s' ap2. login sample_server sample_request sample_login ap1 = (Inr s', ap2) \<and>
      ss_account_id s' = ss_account_id (session_for sample_server sample_request (account_from_row sample_row)) \<and>
      ss_key_material s' = rr_key_material sample_register \<and>
      ss_key_material (session_for sample_server sample_request (account_from_row sample_row)) = rr_key_material sample_register"
    unfolding sample_server_def
    by (rule register_then_login [OF sample_app_inv sample_lib_ok(3) _ _ reg [unfolded sample_server_def]
          sample_admitted_again [OF lim] sample_spelling])
      (simp_all add: sample_request_def sample_login_def sample_register_def sample_material_def)
  with reg show ?thesis by (auto simp: sample_register_def)
qed

section \<open>The life of a session\<close>

text \<open>The hashes of the two tokens a request mints are new to the table and different from each other.\<close>

definition fresh_tokens :: "'s server \<Rightarrow> request \<Rightarrow> tables \<Rightarrow> bool" where
  "fresh_tokens sv rq t \<longleftrightarrow>
     snd (mint_token (sv_lib sv) (rn_access rq)) \<notin> t_hash ` set (tokens t) \<and>
     snd (mint_token (sv_lib sv) (rn_refresh rq)) \<notin> t_hash ` set (tokens t) \<and>
     snd (mint_token (sv_lib sv) (rn_access rq)) \<noteq> snd (mint_token (sv_lib sv) (rn_refresh rq))"

lemma put_rows_fresh:
  assumes "fresh_tokens sv rq t"
  shows "put_rows [access_row sv rq a, refresh_row sv rq a] (tokens t) = tokens t @ [access_row sv rq a, refresh_row sv rq a]"
proof -
  have "row_at t_hash (t_hash (access_row sv rq a)) (tokens t) = None"
    using assms by (simp add: row_at_None fresh_tokens_def access_row_def)
  moreover from this have "row_at t_hash (t_hash (refresh_row sv rq a)) (tokens t @ [access_row sv rq a]) = None"
    using assms unfolding row_at_None by (auto simp: fresh_tokens_def access_row_def refresh_row_def)
  ultimately show ?thesis by (simp add: put_rows_def upsert_def)
qed

lemma set_put_rows:
  "x \<in> set (put_rows new ts) \<Longrightarrow> x \<in> set ts \<or> (\<exists>n \<in> set new. t_hash x = t_hash n)"
proof (induction new arbitrary: ts)
  case Nil
  then show ?case by (simp add: put_rows_def)
next
  case (Cons n new)
  have "put_rows (n # new) ts = put_rows new (fst (upsert t_hash token_on_conflict n ts))"
    by (simp add: put_rows_def)
  with Cons have "x \<in> set (fst (upsert t_hash token_on_conflict n ts)) \<or> (\<exists>m \<in> set new. t_hash x = t_hash m)"
    by simp
  then show ?case
    using set_upsertD [of x t_hash token_on_conflict n ts] token_table.returned_key [of n ts x] by auto
qed

lemma hash_of_token: "snd (mint_token lib bytes) = hash_token lib (fst (mint_token lib bytes))"
  by (simp add: mint_token_def Let_def)

lemma session_token_drop:
  "tokens t' = filter (\<lambda>k. t_account_id k \<noteq> a) (tokens t) \<Longrightarrow>
     session_token t' now h k b \<longleftrightarrow> b \<noteq> a \<and> session_token t now h k b"
  by (auto simp: session_token_def)

lemma consumed_gone:
  assumes "distinct (map t_hash (tokens t))" "session_token t now h k a"
    and "y \<in> set (filter (\<lambda>x. \<not> live_token now h k x) (tokens t))"
  shows "t_hash y \<noteq> h"
proof
  assume y: "t_hash y = h"
  from assms(2) obtain x where x: "x \<in> set (tokens t)" "live_token now h k x" by (auto simp: session_token_def)
  with y assms(3) have "t_hash x = t_hash y" "y \<in> set (tokens t)" by (simp_all add: live_token_def)
  with assms(1) x(1) have "x = y" by (simp add: distinct_map inj_on_def)
  with x(2) assms(3) show False by simp
qed

context store_contract
begin

lemma login_InrD:
  assumes "sv_store sv = st" "inv (ap_db ap)" "login sv rq body ap = (Inr s, ap1)"
  obtains r where "row_at ar_email (email_norm cd (lr_email body)) (accounts (tab (ap_db ap))) = Some r"
    "s = session_for sv rq (account_from_row r)" "inv (ap_db ap1)" "same_data (tab (ap_db ap)) (tab (ap_db ap1))"
    "tokens (tab (ap_db ap1)) = put_rows [access_row sv rq (ar_id r), refresh_row sv rq (ar_id r)] (tokens (tab (ap_db ap)))"
proof -
  have adm: "admitted rq ap" using assms(3) by (auto simp: login_def bind_guard split: if_splits)
  show ?thesis
  proof (cases "row_at ar_email (email_norm cd (lr_email body)) (accounts (tab (ap_db ap)))")
    case None
    then show ?thesis using login_unknown [OF assms(1,2) adm] assms(3) by simp
  next
    case (Some r)
    show ?thesis
    proof (cases "verify_auth_key (sv_lib sv) (lr_auth_key body) (ar_auth_hash r)")
      case True
      show ?thesis
        by (rule login_ok [OF assms(1,2) adm Some True]) (rule that [OF Some], use assms(3) in simp_all)
    next
      case False
      then show ?thesis using login_wrong [OF assms(1,2) adm Some] assms(3) by simp
    qed
  qed
qed

lemma session_caller:
  assumes sv: "sv_store sv = st" and inv: "inv (ap_db ap1)" and fresh: "fresh_tokens sv rq t"
    and toks: "tokens (tab (ap_db ap1)) = put_rows [access_row sv rq a, refresh_row sv rq a] (tokens t)"
    and h: "bearer (sv_lib sv) rq' = Some h"
  shows "trim h = fst (mint_token (sv_lib sv) (rn_access rq)) \<Longrightarrow>
      fst (caller sv rq' ap1) = (if now_ms (rn_caller rq') < t_expires_at (access_row sv rq a) then Inr a else Inl Unauthorised)"
    and "trim h = fst (mint_token (sv_lib sv) (rn_refresh rq)) \<Longrightarrow> fst (caller sv rq' ap1) = Inl Unauthorised"
proof -
  have ts: "tokens (tab (ap_db ap1)) = tokens t @ [access_row sv rq a, refresh_row sv rq a]"
    using put_rows_fresh [OF fresh] toks by simp
  note iff = caller_iff [OF sv inv, of rq', unfolded h session_token_def ts]
  have error: "(\<And>x. fst (caller sv rq' ap1) \<noteq> Inr x) \<Longrightarrow> fst (caller sv rq' ap1) = Inl Unauthorised"
    using caller_error [OF sv] by (cases "fst (caller sv rq' ap1)") auto
  show "fst (caller sv rq' ap1) = (if now_ms (rn_caller rq') < t_expires_at (access_row sv rq a) then Inr a else Inl Unauthorised)"
    if "trim h = fst (mint_token (sv_lib sv) (rn_access rq))"
  proof -
    have "fst (caller sv rq' ap1) = Inr x \<longleftrightarrow> now_ms (rn_caller rq') < t_expires_at (access_row sv rq a) \<and> x = a" for x
      using fresh unfolding iff fresh_tokens_def
      by (auto simp: that hash_of_token [symmetric] live_token_def access_row_def refresh_row_def image_iff)
    with error show ?thesis by auto
  qed
  show "fst (caller sv rq' ap1) = Inl Unauthorised" if "trim h = fst (mint_token (sv_lib sv) (rn_refresh rq))"
  proof (rule error)
    show "fst (caller sv rq' ap1) \<noteq> Inr x" for x
      using fresh unfolding iff fresh_tokens_def
      by (auto simp: that hash_of_token [symmetric] live_token_def access_row_def refresh_row_def image_iff
          ACCESS_def REFRESH_def)
  qed
qed

lemma on_db_consume:
  "on_db (s_consume_token st now h k) ap =
     (Inr (map_option (\<lambda>t. \<lparr>tr_account_id = t_account_id t\<rparr>) (find (live_token now h k) (tokens (tab (ap_db ap))))),
      ap\<lparr>ap_db := snd (s_consume_token st now h k (ap_db ap))\<rparr>)"
  using consume_token by (simp add: on_db_def)

lemma refresh_unauthorised:
  assumes "sv_store sv = st"
    and "\<forall>a. \<not> session_token (tab (ap_db ap)) (rn_store rq) (hash_token (sv_lib sv) (rf_refresh_token body)) REFRESH a"
  shows "fst (refresh sv rq body ap) = Inl Unauthorised"
  using assms find_live_None [of "rn_store rq" "hash_token (sv_lib sv) (rf_refresh_token body)" REFRESH "tab (ap_db ap)"]
  by (simp add: refresh_def bind_op_eqs on_db_consume ok_or_def err_op_def)

lemma refresh_ok:
  assumes sv: "sv_store sv = st" and inv: "inv (ap_db ap)"
    and live: "session_token (tab (ap_db ap)) (rn_store rq) (hash_token (sv_lib sv) (rf_refresh_token body)) REFRESH a"
  obtains r ap1 where "row_at ar_id a (accounts (tab (ap_db ap))) = Some r"
    "refresh sv rq body ap = (Inr (session_for sv rq (account_from_row r)), ap1)" "inv (ap_db ap1)"
    "same_data (tab (ap_db ap)) (tab (ap_db ap1))"
    "tokens (tab (ap_db ap1)) = put_rows [access_row sv rq a, refresh_row sv rq a]
       (filter (\<lambda>k. \<not> live_token (rn_store rq) (hash_token (sv_lib sv) (rf_refresh_token body)) REFRESH k) (tokens (tab (ap_db ap))))"
proof -
  let ?h = "hash_token (sv_lib sv) (rf_refresh_token body)"
  let ?ap = "ap\<lparr>ap_db := snd (s_consume_token st (rn_store rq) ?h REFRESH (ap_db ap))\<rparr>"
  obtain k where k: "find (live_token (rn_store rq) ?h REFRESH) (tokens (tab (ap_db ap))) = Some k" "t_account_id k = a"
    using live session_token_iff [OF tokens_distinct [OF inv]] by auto
  have tabs: "tab (ap_db ?ap) = (tab (ap_db ap))\<lparr>tokens := filter (\<lambda>k. \<not> live_token (rn_store rq) ?h REFRESH k) (tokens (tab (ap_db ap)))\<rparr>"
    using consume_token by simp
  have inv': "inv (ap_db ?ap)" using inv by (simp add: consume_token_inv)
  have "has_account (tab (ap_db ap)) a"
    using live inv_tables [OF inv] by (auto simp: session_token_def tables_ok_defs)
  then obtain r where r: "row_at ar_id a (accounts (tab (ap_db ap))) = Some r"
    by (cases "row_at ar_id a (accounts (tab (ap_db ap)))") (auto simp: row_at_None has_account_def)
  then have id: "a_id (account_from_row r) = a" using row_at_Some [OF r] by (simp add: account_from_row_def)
  have acc: "has_account (tab (ap_db ?ap)) (a_id (account_from_row r))"
    using \<open>has_account (tab (ap_db ap)) a\<close> by (simp only: tabs id has_account_cong)
  obtain ap1 where ap1: "issue_session sv rq (account_from_row r) [] [] ?ap = (Inr (session_for sv rq (account_from_row r)), ap1)"
    "inv (ap_db ap1)" "same_data (tab (ap_db ?ap)) (tab (ap_db ap1))"
    "tokens (tab (ap_db ap1)) = put_rows [access_row sv rq a, refresh_row sv rq a] (tokens (tab (ap_db ?ap)))"
    by (rule issue_session_ok [OF sv inv' acc, of rq "[]" "[]", unfolded id])
  have "refresh sv rq body ap = (Inr (session_for sv rq (account_from_row r)), ap1)"
    using r k ap1(1) tabs by (simp add: refresh_def sv bind_op_eqs on_db_consume on_db_account_by_id)
  then show ?thesis using that [OF r] ap1(2-4) tabs by (simp add: same_data_def)
qed

end

text \<open>C27: what a session is good for. After a sign-in answered with a session, and as long as the two minted
  hashes are new, a request that presents the access token is the account's until the expiry written
  at issue and nobody's after it, and a request that presents the refresh token as a bearer token is
  refused at any time: the token that lives for ninety days never authenticates a request.\<close>

theorem session_authenticates_its_account:
  assumes "sqlite_inv (lib_codec lib) (ap_db ap)"
    and "login (sqlite_server cf lib dummy) rq body ap = (Inr s, ap1)"
    and "fresh_tokens (sqlite_server cf lib dummy) rq (tabs (ap_db ap))"
    and "bearer lib rq' = Some h"
  shows "(trim h = ss_access_token s \<longrightarrow> fst (caller (sqlite_server cf lib dummy) rq' ap1) =
      (if now_ms (rn_caller rq') < i64_wrap (now_ms (rn_issue rq) + i64_wrap (cf_access_ttl_secs cf * 1000))
       then Inr (ss_account_id s) else Inl Unauthorised)) \<and>
    (trim h = ss_refresh_token s \<longrightarrow> fst (caller (sqlite_server cf lib dummy) rq' ap1) = Inl Unauthorised)"
proof -
  let ?sv = "sqlite_server cf lib dummy"
  have sv: "sv_store ?sv = sqlite_store (lib_codec lib)" and h: "bearer (sv_lib ?sv) rq' = Some h"
    using assms(4) by simp_all
  obtain r where r: "s = session_for ?sv rq (account_from_row r)" "sqlite_inv (lib_codec lib) (ap_db ap1)"
    "tokens (tabs (ap_db ap1)) = put_rows [access_row ?sv rq (ar_id r), refresh_row ?sv rq (ar_id r)] (tokens (tabs (ap_db ap)))"
    by (rule sqlite.login_InrD [OF sv assms(1,2)])
  note c = sqlite.session_caller [OF sv r(2) assms(3) r(3) h]
  show ?thesis
    using c by (simp add: r(1) session_for_def account_from_row_def access_row_def)
qed

text \<open>C25: a refresh token is used once. A refresh answered with a session found a live refresh token, and the
  session is for the account that token was issued to; from then on every refresh with the same token
  is refused, whatever the clock says, provided the two hashes minted by the first one differ from it.
  A refresh with a token that is not live answers unauthorised.\<close>

theorem refresh_is_single_use:
  assumes "sqlite_inv (lib_codec lib) (ap_db ap)"
    and "hash_token lib (rf_refresh_token body) \<noteq> snd (mint_token lib (rn_access rq))"
    and "hash_token lib (rf_refresh_token body) \<noteq> snd (mint_token lib (rn_refresh rq))"
  shows "(\<forall>a. session_token (tabs (ap_db ap)) (rn_store rq) (hash_token lib (rf_refresh_token body)) REFRESH a \<longrightarrow>
      (\<exists>s ap1. refresh (sqlite_server cf lib dummy) rq body ap = (Inr s, ap1) \<and> ss_account_id s = a \<and>
        (\<forall>rq'. fst (refresh (sqlite_server cf lib dummy) rq' body ap1) = Inl Unauthorised))) \<and>
    ((\<forall>a. \<not> session_token (tabs (ap_db ap)) (rn_store rq) (hash_token lib (rf_refresh_token body)) REFRESH a) \<longrightarrow>
      fst (refresh (sqlite_server cf lib dummy) rq body ap) = Inl Unauthorised)"
proof (intro conjI allI impI)
  let ?sv = "sqlite_server cf lib dummy" and ?h = "hash_token lib (rf_refresh_token body)"
  have sv: "sv_store ?sv = sqlite_store (lib_codec lib)" by simp
  show "fst (refresh ?sv rq body ap) = Inl Unauthorised"
    if "\<forall>a. \<not> session_token (tabs (ap_db ap)) (rn_store rq) ?h REFRESH a"
    using that by (intro sqlite.refresh_unauthorised [OF sv]) simp
  fix a
  assume live: "session_token (tabs (ap_db ap)) (rn_store rq) ?h REFRESH a"
  then have live': "session_token (tabs (ap_db ap)) (rn_store rq) (hash_token (sv_lib ?sv) (rf_refresh_token body)) REFRESH a"
    by simp
  obtain r ap1 where r: "row_at ar_id a (accounts (tabs (ap_db ap))) = Some r"
    "refresh ?sv rq body ap = (Inr (session_for ?sv rq (account_from_row r)), ap1)"
    "tokens (tabs (ap_db ap1)) = put_rows [access_row ?sv rq a, refresh_row ?sv rq a]
       (filter (\<lambda>k. \<not> live_token (rn_store rq) (hash_token (sv_lib ?sv) (rf_refresh_token body)) REFRESH k) (tokens (tabs (ap_db ap))))"
    by (rule sqlite.refresh_ok [OF sv assms(1) live'])
  have gone: "t_hash k \<noteq> ?h" if "k \<in> set (tokens (tabs (ap_db ap1)))" for k
    using set_put_rows [OF that [unfolded r(3)]] assms(2,3)
      consumed_gone [OF sqlite.tokens_distinct [OF assms(1)] live, of k]
    by (auto simp: access_row_def refresh_row_def)
  then have "fst (refresh ?sv rq' body ap1) = Inl Unauthorised" for rq'
    by (intro sqlite.refresh_unauthorised [OF sv]) (auto simp: session_token_def live_token_def)
  then show "\<exists>s ap1. refresh ?sv rq body ap = (Inr s, ap1) \<and> ss_account_id s = a \<and>
      (\<forall>rq'. fst (refresh ?sv rq' body ap1) = Inl Unauthorised)"
    using r(2) row_at_Some [OF r(1)] by (auto simp: session_for_def account_from_row_def)
qed

text \<open>The second request of the concrete runs draws other bytes, and presents its token.\<close>

definition sample_request2 :: request where
  "sample_request2 = sample_request\<lparr>rn_access := as_bytes ''b'', rn_refresh := as_bytes ''s'',
     rq_authorization := Some (as_bytes ''Bearer b'')\<rparr>"

lemma sample_bearer: "bearer sample_lib sample_request2 = Some ''b''" "trim ''b'' = ''b''"
proof -
  show "bearer sample_lib sample_request2 = Some ''b''"
    by (simp add: bearer_def sample_request2_def sample_lib_def sample_platform_def del: as_bytes_simps)
      (simp add: strip_prefix_def)
  show "trim ''b'' = ''b''" by code_simp
qed

lemma sample_fresh: "fresh_tokens sample_server sample_request no_tables"
  by (simp add: fresh_tokens_def sample_server_def sample_request_def sample_mint no_tables_def del: as_bytes_simps)

lemma sample_tokens:
  "put_rows [access_row sample_server sample_request ''u'', refresh_row sample_server sample_request ''u''] [] =
     [access_row sample_server sample_request ''u'', refresh_row sample_server sample_request ''u'']"
  using put_rows_fresh [OF sample_fresh, of "''u''"] by (simp add: no_tables_def)

lemma sample_fresh2:
  assumes "tokens t = [access_row sample_server sample_request ''u'', refresh_row sample_server sample_request ''u'']"
  shows "fresh_tokens sample_server sample_request2 t"
  by (simp add: fresh_tokens_def assms sample_server_def sample_request2_def access_row_def refresh_row_def
      sample_request_def sample_mint del: as_bytes_simps)

theorem session_authenticates_its_account_witness:
  "\<exists>ap s ap1. login sample_server sample_request2 sample_login ap = (Inr s, ap1) \<and>
     fst (caller sample_server sample_request2 ap1) = Inr (ss_account_id s)"
proof -
  obtain ap where reg: "register sample_server sample_request sample_register sample_app =
      (Inr (session_for sample_server sample_request (account_from_row sample_row)), ap)"
    and ap: "ap_limit ap = ap_limit (snd (guard sample_request sample_app))" "sqlite_inv (lib_codec sample_lib) (ap_db ap)"
    "accounts (tabs (ap_db ap)) = [sample_row]"
    "tokens (tabs (ap_db ap)) = put_rows [access_row sample_server sample_request ''u'', refresh_row sample_server sample_request ''u''] []"
    by (rule sample_registration)
  have sv: "sv_store sample_server = sqlite_store (lib_codec sample_lib)" by (simp add: sample_server_def)
  have at: "row_at ar_email (email_norm (lib_codec sample_lib) (lr_email sample_login)) (accounts (tabs (ap_db ap))) = Some sample_row"
    using sample_spelling by (simp add: ap(3) sample_row_def account_row_of_def sample_register_def)
  have v: "verify_auth_key (sv_lib sample_server) (lr_auth_key sample_login) (ar_auth_hash sample_row)"
    by (simp add: sample_server_def sample_login_def sample_row_def account_row_of_def registered_def
        verify_auth_key_def sample_lib_def sample_platform_def del: as_bytes_simps)
  obtain s ap1 where login: "login sample_server sample_request2 sample_login ap = (Inr s, ap1)"
    "s = session_for sample_server sample_request2 (account_from_row sample_row)"
    using sqlite.login_ok [OF sv ap(2) sample_admitted_again [OF ap(1)] at v] by metis
  have "ss_access_token s = ''b''"
    by (simp add: login(2) session_for_def sample_server_def sample_request2_def sample_mint del: as_bytes_simps)
  then have "fst (caller sample_server sample_request2 ap1) = Inr (ss_account_id s)"
    using session_authenticates_its_account [OF ap(2) login(1) [unfolded sample_server_def]
        sample_fresh2 [OF trans [OF ap(4) sample_tokens], unfolded sample_server_def] sample_bearer(1)] sample_bearer(2)
    unfolding sample_server_def [symmetric]
    by (simp add: sample_request2_def sample_request_def now_ms_def is_i64_def open_config_def default_config_def)
  with login show ?thesis by blast
qed

definition sample_refresh :: refresh_request where
  "sample_refresh = \<lparr>rf_refresh_token = ''r''\<rparr>"

lemma sample_refresh_live:
  assumes "tokens (tabs (ap_db ap)) = put_rows [access_row sample_server sample_request ''u'', refresh_row sample_server sample_request ''u''] []"
  shows "session_token (tabs (ap_db ap)) (rn_store sample_request2) (hash_token sample_lib (rf_refresh_token sample_refresh)) REFRESH ''u''"
  unfolding session_token_def assms sample_tokens
  by (simp add: live_token_def refresh_row_def access_row_def sample_server_def
      sample_request_def sample_request2_def sample_refresh_def sample_mint sample_hash now_ms_def is_i64_def
      REFRESH_TTL_MS_def del: as_bytes_simps)

lemma sample_refresh_fresh:
  "hash_token sample_lib (rf_refresh_token sample_refresh) \<noteq> snd (mint_token sample_lib (rn_access sample_request2))"
  "hash_token sample_lib (rf_refresh_token sample_refresh) \<noteq> snd (mint_token sample_lib (rn_refresh sample_request2))"
  by (simp_all add: sample_hash sample_refresh_def sample_request2_def sample_mint del: as_bytes_simps)

theorem refresh_is_single_use_witness:
  "\<exists>ap s ap1. refresh sample_server sample_request2 sample_refresh ap = (Inr s, ap1) \<and> ss_account_id s = ''u'' \<and>
     fst (refresh sample_server sample_request2 sample_refresh ap1) = Inl Unauthorised"
proof -
  obtain ap where reg: "register sample_server sample_request sample_register sample_app =
      (Inr (session_for sample_server sample_request (account_from_row sample_row)), ap)"
    and lim: "ap_limit ap = ap_limit (snd (guard sample_request sample_app))" and ap1: "sqlite_inv (lib_codec sample_lib) (ap_db ap)"
    and accs: "accounts (tabs (ap_db ap)) = [sample_row]"
    and ap2: "tokens (tabs (ap_db ap)) = put_rows [access_row sample_server sample_request ''u'', refresh_row sample_server sample_request ''u''] []"
    by (rule sample_registration)
  note ap = ap1 ap2
  show ?thesis
    using refresh_is_single_use [OF ap(1) sample_refresh_fresh, of open_config "''$dummy''"] sample_refresh_live [OF ap(2)]
    unfolding sample_server_def [symmetric] by blast
qed

section \<open>The end of a session\<close>

text \<open>A request of the concrete runs that presents the access token of the registration.\<close>

definition sample_request3 :: request where
  "sample_request3 = sample_request\<lparr>rq_authorization := Some (as_bytes ''Bearer a'')\<rparr>"

lemma sample_caller:
  assumes "sqlite_inv (lib_codec sample_lib) (ap_db ap)"
    and "tokens (tabs (ap_db ap)) = put_rows [access_row sample_server sample_request ''u'', refresh_row sample_server sample_request ''u''] []"
  shows "fst (caller sample_server sample_request3 ap) = Inr ''u''"
proof -
  have sv: "sv_store sample_server = sqlite_store (lib_codec sample_lib)" by (simp add: sample_server_def)
  have h: "bearer (sv_lib sample_server) sample_request3 = Some ''a''"
    by (simp add: bearer_def sample_server_def sample_request3_def sample_lib_def sample_platform_def del: as_bytes_simps)
      (simp add: strip_prefix_def)
  have t: "trim ''a'' = fst (mint_token (sv_lib sample_server) (rn_access sample_request))"
    by (simp add: sample_server_def sample_request_def sample_mint del: as_bytes_simps) code_simp
  have toks: "tokens (tabs (ap_db ap)) = put_rows [access_row sample_server sample_request ''u'', refresh_row sample_server sample_request ''u''] (tokens no_tables)"
    using assms(2) by (simp add: no_tables_def)
  show ?thesis
    using sqlite.session_caller(1) [OF sv assms(1) sample_fresh toks h t]
    by (simp add: sample_request3_def sample_request_def access_row_def now_ms_def is_i64_def sample_server_def
        open_config_def default_config_def)
qed

context store_contract
begin

lemma revoke_step:
  "fst (on_db (s_revoke_account_tokens st a) ap) = Inr ()"
  "tab (ap_db (snd (on_db (s_revoke_account_tokens st a) ap))) =
     (tab (ap_db ap))\<lparr>tokens := filter (\<lambda>t. t_account_id t \<noteq> a) (tokens (tab (ap_db ap)))\<rparr>"
  using revoke by simp_all

lemma caller_unauthorised:
  "sv_store sv = st \<Longrightarrow> (\<And>x. fst (caller sv rq ap) \<noteq> Inr x) \<Longrightarrow> fst (caller sv rq ap) = Inl Unauthorised"
  using caller_error by (cases "fst (caller sv rq ap)") auto

lemma logout_ok:
  assumes "sv_store sv = st" "fst (caller sv rq ap) = Inr a"
  shows "fst (logout sv rq ap) = Inr ()"
    and "tab (ap_db (snd (logout sv rq ap))) =
      (tab (ap_db ap))\<lparr>tokens := filter (\<lambda>t. t_account_id t \<noteq> a) (tokens (tab (ap_db ap)))\<rparr>"
    and "inv (ap_db ap) \<Longrightarrow> inv (ap_db (snd (logout sv rq ap)))"
proof -
  have "caller sv rq ap = (Inr a, ap)" using assms caller_read by (simp add: prod_eq_iff)
  then have "logout sv rq ap = on_db (s_revoke_account_tokens st a) ap"
    by (simp add: logout_def assms(1) bind_op_eqs)
  then show "fst (logout sv rq ap) = Inr ()"
    and "tab (ap_db (snd (logout sv rq ap))) =
      (tab (ap_db ap))\<lparr>tokens := filter (\<lambda>t. t_account_id t \<noteq> a) (tokens (tab (ap_db ap)))\<rparr>"
    and "inv (ap_db ap) \<Longrightarrow> inv (ap_db (snd (logout sv rq ap)))"
    using revoke_step [of a ap] revoke_inv by (simp_all only: on_db_simps)
qed

lemma caller_after_revoke:
  assumes sv: "sv_store sv = st" and inv: "inv (ap_db ap)" and inv1: "inv (ap_db ap1)"
    and toks: "tokens (tab (ap_db ap1)) = filter (\<lambda>t. t_account_id t \<noteq> a) (tokens (tab (ap_db ap)))"
  shows "fst (caller sv rq' ap1) = (if fst (caller sv rq' ap) = Inr a then Inl Unauthorised else fst (caller sv rq' ap))"
proof -
  note iff = caller_iff [OF sv inv, of rq'] caller_iff [OF sv inv1, of rq'] session_token_drop [OF toks]
  have eq: "fst (caller sv rq' ap1) = Inr x \<longleftrightarrow> x \<noteq> a \<and> fst (caller sv rq' ap) = Inr x" for x
    unfolding iff by blast
  show ?thesis
  proof (cases "\<exists>x. x \<noteq> a \<and> fst (caller sv rq' ap) = Inr x")
    case True
    then obtain x where x: "x \<noteq> a" "fst (caller sv rq' ap) = Inr x" by blast
    then have "fst (caller sv rq' ap1) = Inr x" using eq by simp
    with x show ?thesis by simp
  next
    case False
    then have "fst (caller sv rq' ap1) = Inl Unauthorised" using eq caller_unauthorised [OF sv] by blast
    with False caller_unauthorised [OF sv, of rq' ap] show ?thesis by (cases "fst (caller sv rq' ap)") auto
  qed
qed

lemma refresh_after_revoke:
  assumes "sv_store sv = st" "tokens (tab (ap_db ap1)) = filter (\<lambda>t. t_account_id t \<noteq> a) (tokens (tab (ap_db ap)))"
    and "session_token (tab (ap_db ap)) now (hash_token (sv_lib sv) (rf_refresh_token body)) k a" "inv (ap_db ap)"
  shows "fst (refresh sv rq' body ap1) = Inl Unauthorised"
proof (rule refresh_unauthorised [OF assms(1)], intro allI notI)
  fix b
  assume "session_token (tab (ap_db ap1)) (rn_store rq') (hash_token (sv_lib sv) (rf_refresh_token body)) REFRESH b"
  then obtain x where x: "x \<in> set (tokens (tab (ap_db ap)))" "t_account_id x \<noteq> a"
    "t_hash x = hash_token (sv_lib sv) (rf_refresh_token body)"
    by (auto simp: session_token_def assms(2) live_token_def)
  moreover obtain y where "y \<in> set (tokens (tab (ap_db ap)))" "t_account_id y = a"
    "t_hash y = hash_token (sv_lib sv) (rf_refresh_token body)"
    using assms(3) by (auto simp: session_token_def live_token_def)
  ultimately show False
    using tokens_distinct [OF assms(4)] by (metis distinct_map inj_onD)
qed

end

text \<open>C26: signing out ends every session of the account and of nobody else. After a logout, whatever token a
  request carries: if it was the account's it is refused, otherwise the request is whoever's it was
  before; and a refresh with any of the account's tokens is refused.\<close>

theorem logout_ends_every_session:
  assumes "sqlite_inv (lib_codec lib) (ap_db ap)"
    and "fst (caller (sqlite_server cf lib dummy) rq ap) = Inr a"
    and "ap1 = snd (logout (sqlite_server cf lib dummy) rq ap)"
  shows "fst (logout (sqlite_server cf lib dummy) rq ap) = Inr () \<and>
    fst (caller (sqlite_server cf lib dummy) rq' ap1) =
      (if fst (caller (sqlite_server cf lib dummy) rq' ap) = Inr a then Inl Unauthorised
       else fst (caller (sqlite_server cf lib dummy) rq' ap)) \<and>
    (session_token (tabs (ap_db ap)) now (hash_token lib (rf_refresh_token body)) REFRESH a \<longrightarrow>
      fst (refresh (sqlite_server cf lib dummy) rq' body ap1) = Inl Unauthorised)"
proof -
  let ?sv = "sqlite_server cf lib dummy"
  have sv: "sv_store ?sv = sqlite_store (lib_codec lib)" by simp
  note out = sqlite.logout_ok [OF sv assms(2)]
  have toks: "tokens (tabs (ap_db ap1)) = filter (\<lambda>t. t_account_id t \<noteq> a) (tokens (tabs (ap_db ap)))"
    using out(2) by (simp add: assms(3))
  have inv1: "sqlite_inv (lib_codec lib) (ap_db ap1)" using out(3) [OF assms(1)] by (simp add: assms(3))
  show ?thesis
    using out(1) sqlite.caller_after_revoke [OF sv assms(1) inv1 toks, of rq']
      sqlite.refresh_after_revoke [OF sv toks _ assms(1), of now body REFRESH rq'] by simp
qed

theorem logout_ends_every_session_witness:
  "\<exists>ap ap1. fst (caller sample_server sample_request3 ap) = Inr ''u'' \<and> ap1 = snd (logout sample_server sample_request3 ap) \<and>
     fst (caller sample_server sample_request3 ap1) = Inl Unauthorised"
proof -
  obtain ap where reg: "register sample_server sample_request sample_register sample_app =
      (Inr (session_for sample_server sample_request (account_from_row sample_row)), ap)"
    and lim: "ap_limit ap = ap_limit (snd (guard sample_request sample_app))" and inv: "sqlite_inv (lib_codec sample_lib) (ap_db ap)"
    and accs: "accounts (tabs (ap_db ap)) = [sample_row]"
    and toks: "tokens (tabs (ap_db ap)) = put_rows [access_row sample_server sample_request ''u'', refresh_row sample_server sample_request ''u''] []"
    by (rule sample_registration)
  have c: "fst (caller sample_server sample_request3 ap) = Inr ''u''"
    by (rule sample_caller [OF inv toks])
  show ?thesis
    using logout_ends_every_session [OF inv c [unfolded sample_server_def] refl, of sample_request3] c
    unfolding sample_server_def [symmetric] by auto
qed

section \<open>A new password\<close>

definition rewrapped :: "account \<Rightarrow> rewrap_request \<Rightarrow> string \<Rightarrow> string \<Rightarrow> new_account" where
  "rewrapped a body auth_hash recovery_hash =
     \<lparr>n_email = a_email a, n_auth_hash = auth_hash, n_recovery_auth_hash = recovery_hash,
      n_account_public = a_account_public a,
      n_wrapped_account_secret = encode (km_wrapped_account_secret (rw_key_material body)),
      n_wrapped_personal_key = encode (km_wrapped_personal_key (rw_key_material body)),
      n_recovery_account_secret = encode (km_wrapped_account_secret (rw_recovery_material body)),
      n_recovery_personal_key = encode (km_wrapped_personal_key (rw_recovery_material body))\<rparr>"

text \<open>The row of an account after it.\<close>

definition rewrapped_row :: "rewrap_request \<Rightarrow> string \<Rightarrow> string \<Rightarrow> account_row \<Rightarrow> account_row" where
  "rewrapped_row body auth_hash recovery_hash r =
     r\<lparr>ar_auth_hash := auth_hash, ar_recovery_auth_hash := recovery_hash,
       ar_wrapped_account_secret := encode (km_wrapped_account_secret (rw_key_material body)),
       ar_wrapped_personal_key := encode (km_wrapped_personal_key (rw_key_material body)),
       ar_recovery_account_secret := encode (km_wrapped_account_secret (rw_recovery_material body)),
       ar_recovery_personal_key := encode (km_wrapped_personal_key (rw_recovery_material body))\<rparr>"

lemma rewrap_row_rewrapped: "rewrap_row (rewrapped acc body ah rh) = rewrapped_row body ah rh"
  by (rule ext) (simp add: rewrap_row_def rewrapped_def rewrapped_row_def)

definition undotted :: "key_material \<Rightarrow> bool" where
  "undotted km \<longleftrightarrow> CHR ''.'' \<notin> set (sb_nonce (km_wrapped_account_secret km)) \<and> CHR ''.'' \<notin> set (sb_nonce (km_wrapped_personal_key km))"

context store_contract
begin

lemma rewrap_ok:
  assumes sv: "sv_store sv = st" and inv: "inv (ap_db ap)" and c: "fst (caller sv rq ap) = Inr a"
    and h: "hash_auth_key (sv_lib sv) (rn_auth_salt rq) (rw_auth_key body) = Inr ah"
      "hash_auth_key (sv_lib sv) (rn_recovery_salt rq) (rw_recovery_auth_key body) = Inr rh"
  obtains r ap1 where "row_at ar_id a (accounts (tab (ap_db ap))) = Some r" "rewrap sv rq body ap = (Inr (), ap1)"
    "inv (ap_db ap1)" "ap_limit ap1 = ap_limit ap"
    "tab (ap_db ap1) = (tab (ap_db ap))\<lparr>
       accounts := map (\<lambda>x. if ar_id x = a then rewrap_row (rewrapped (account_from_row r) body ah rh) x else x) (accounts (tab (ap_db ap))),
       tokens := filter (\<lambda>t. t_account_id t \<noteq> a) (tokens (tab (ap_db ap)))\<rparr>"
proof -
  have "caller sv rq ap = (Inr a, ap)" using c caller_read [OF sv] by (simp add: prod_eq_iff)
  obtain r where r: "row_at ar_id a (accounts (tab (ap_db ap))) = Some r"
    using caller_account [OF sv inv c]
    by (cases "row_at ar_id a (accounts (tab (ap_db ap)))") (auto simp: row_at_None has_account_def)
  then have id: "a_id (account_from_row r) = a" using row_at_Some [OF r] by (simp add: account_from_row_def)
  let ?n = "rewrapped (account_from_row r) body ah rh"
  let ?w = "on_db (s_rewrap_account st a ?n)"
  have "rewrap sv rq body ap = bind_op ?w (\<lambda>_. on_db (s_revoke_account_tokens st a)) ap"
    using \<open>caller sv rq ap = (Inr a, ap)\<close> r h id
    by (simp add: rewrap_def sv bind_op_eqs on_db_account_by_id rewrapped_def)
  also have "\<dots> = on_db (s_revoke_account_tokens st a) (snd (?w ap))"
    using rewrap by (intro bind_op_fst(1)) simp
  finally have eq: "rewrap sv rq body ap = on_db (s_revoke_account_tokens st a) (snd (?w ap))" .
  let ?ap1 = "snd (on_db (s_revoke_account_tokens st a) (snd (?w ap)))"
  have "rewrap sv rq body ap = (Inr (), ?ap1)"
    using revoke_step(1) [of a "snd (?w ap)"] eq by (simp add: prod_eq_iff)
  moreover have "inv (ap_db ?ap1)" "ap_limit ?ap1 = ap_limit ap" using inv by (simp_all add: rewrap_inv revoke_inv)
  moreover have "tab (ap_db ?ap1) = (tab (ap_db ap))\<lparr>
       accounts := map (\<lambda>x. if ar_id x = a then rewrap_row ?n x else x) (accounts (tab (ap_db ap))),
       tokens := filter (\<lambda>t. t_account_id t \<noteq> a) (tokens (tab (ap_db ap)))\<rparr>"
    using rewrap [of a ?n "ap_db ap"] revoke [of a "snd (s_rewrap_account st a ?n (ap_db ap))"] by simp
  ultimately show ?thesis by (rule that [OF r])
qed

lemma row_at_map_rewrap:
  "row_at ar_email m (map (\<lambda>x. if ar_id x = a then rewrap_row n x else x) rows) =
     map_option (\<lambda>x. if ar_id x = a then rewrap_row n x else x) (row_at ar_email m rows)"
  by (induction rows) (auto simp: rewrap_row_def)

text \<open>The tables after a rewrap, and the two ways back in: with the key of the rewrap and with its recovery key.\<close>

lemma rewrap_leaves:
  assumes sv: "sv_store sv = st" and inv: "inv (ap_db ap)" and ok: "hashing_ok (sv_lib sv)"
    and salts: "length (rn_auth_salt rq) = 16" "length (rn_recovery_salt rq) = 16"
    and c: "fst (caller sv rq ap) = Inr a" and rw: "rewrap sv rq body ap = (res, ap1)"
  obtains ah rh where "hash_auth_key (sv_lib sv) (rn_auth_salt rq) (rw_auth_key body) = Inr ah"
    "hash_auth_key (sv_lib sv) (rn_recovery_salt rq) (rw_recovery_auth_key body) = Inr rh"
    "res = Inr ()" "inv (ap_db ap1)"
    "tab (ap_db ap1) = (tab (ap_db ap))\<lparr>
       accounts := map (\<lambda>x. if ar_id x = a then rewrapped_row body ah rh x else x) (accounts (tab (ap_db ap))),
       tokens := filter (\<lambda>t. t_account_id t \<noteq> a) (tokens (tab (ap_db ap)))\<rparr>"
proof -
  obtain ah rh where h: "hash_auth_key (sv_lib sv) (rn_auth_salt rq) (rw_auth_key body) = Inr ah"
      "hash_auth_key (sv_lib sv) (rn_recovery_salt rq) (rw_recovery_auth_key body) = Inr rh"
    using verify_own_hash [OF ok salts(1)] verify_own_hash [OF ok salts(2)] by blast
  obtain q ap' where "rewrap sv rq body ap = (Inr (), ap')" "inv (ap_db ap')"
    "tab (ap_db ap') = (tab (ap_db ap))\<lparr>
       accounts := map (\<lambda>x. if ar_id x = a then rewrapped_row body ah rh x else x) (accounts (tab (ap_db ap))),
       tokens := filter (\<lambda>t. t_account_id t \<noteq> a) (tokens (tab (ap_db ap)))\<rparr>"
    by (rule rewrap_ok [OF sv inv c h, unfolded rewrap_row_rewrapped])
  with rw that [OF h] show ?thesis by simp
qed

lemma row_at_rewrapped:
  assumes "inv (ap_db ap)" "r \<in> set (accounts (tab (ap_db ap)))" "ar_id r = a"
  shows "row_at ar_email (ar_email r) (map (\<lambda>x. if ar_id x = a then rewrapped_row body ah rh x else x) (accounts (tab (ap_db ap)))) =
    Some (rewrapped_row body ah rh r)"
proof -
  have "distinct (map ar_email (accounts (tab (ap_db ap))))" using inv_tables [OF assms(1)] by (simp add: tables_ok_defs)
  with assms(2) have "row_at ar_email (ar_email r) (accounts (tab (ap_db ap))) = Some r" by (simp add: row_at_in)
  moreover have "(\<lambda>x. if ar_id x = a then rewrapped_row body ah rh x else x) =
      (\<lambda>x. if ar_id x = a then rewrap_row (rewrapped (account_from_row r) body ah rh) x else x)"
    by (simp only: rewrap_row_rewrapped)
  ultimately show ?thesis using assms(3) by (simp add: row_at_map_rewrap rewrap_row_rewrapped)
qed

lemma login_with_row:
  assumes "sv_store sv = st" "inv (ap_db ap)" "admitted rq ap"
    and "row_at ar_email (email_norm cd (lr_email lg)) (accounts (tab (ap_db ap))) = Some (rewrapped_row body ah rh r)"
  shows "\<not> verify_auth_key (sv_lib sv) (lr_auth_key lg) ah \<Longrightarrow> fst (login sv rq lg ap) = Inl BadCredentials"
    and "undotted (rw_key_material body) \<Longrightarrow> verify_auth_key (sv_lib sv) (lr_auth_key lg) ah \<Longrightarrow>
      \<exists>s ap2. login sv rq lg ap = (Inr s, ap2) \<and> ss_account_id s = ar_id r \<and>
        ss_key_material s = (rw_key_material body)\<lparr>km_account_public := ar_account_public r\<rparr>"
proof -
  assume "\<not> verify_auth_key (sv_lib sv) (lr_auth_key lg) ah"
  then show "fst (login sv rq lg ap) = Inl BadCredentials"
    using login_wrong [OF assms(1-4)] by (simp add: rewrapped_row_def)
next
  assume dots: "undotted (rw_key_material body)" and "verify_auth_key (sv_lib sv) (lr_auth_key lg) ah"
  then have v: "verify_auth_key (sv_lib sv) (lr_auth_key lg) (ar_auth_hash (rewrapped_row body ah rh r))"
    by (simp add: rewrapped_row_def)
  obtain ap2 where "login sv rq lg ap = (Inr (session_for sv rq (account_from_row (rewrapped_row body ah rh r))), ap2)"
    by (rule login_ok [OF assms(1-4) v])
  with dots show "\<exists>s ap2. login sv rq lg ap = (Inr s, ap2) \<and> ss_account_id s = ar_id r \<and>
        ss_key_material s = (rw_key_material body)\<lparr>km_account_public := ar_account_public r\<rparr>"
    by (simp add: session_for_def key_material_of_def account_from_row_def rewrapped_row_def undotted_def decode_encode)
qed

lemma recover_with_row:
  assumes "sv_store sv = st" "inv (ap_db ap)" "admitted rq ap"
    and "row_at ar_email (email_norm cd (rc_email rc)) (accounts (tab (ap_db ap))) = Some (rewrapped_row body ah rh r)"
  shows "\<not> verify_auth_key (sv_lib sv) (rc_recovery_auth_key rc) rh \<Longrightarrow> fst (recover sv rq rc ap) = Inl BadCredentials"
    and "undotted (rw_recovery_material body) \<Longrightarrow> verify_auth_key (sv_lib sv) (rc_recovery_auth_key rc) rh \<Longrightarrow>
      \<exists>s ap2. recover sv rq rc ap = (Inr s, ap2) \<and> ss_account_id s = ar_id r \<and>
        ss_key_material s = (rw_recovery_material body)\<lparr>km_account_public := ar_account_public r\<rparr>"
proof -
  assume "\<not> verify_auth_key (sv_lib sv) (rc_recovery_auth_key rc) rh"
  then show "fst (recover sv rq rc ap) = Inl BadCredentials"
    by (simp add: recover_cases [OF assms(1-3)] assms(4) rewrapped_row_def)
next
  assume dots: "undotted (rw_recovery_material body)" and v: "verify_auth_key (sv_lib sv) (rc_recovery_auth_key rc) rh"
  let ?r = "rewrapped_row body ah rh r"
  let ?acc = "(account_from_row ?r)\<lparr>a_wrapped_account_secret := ar_recovery_account_secret ?r,
                a_wrapped_personal_key := ar_recovery_personal_key ?r\<rparr>"
  have "has_account (tab (ap_db (snd (guard rq ap)))) (a_id ?acc)"
    using row_has_account [OF assms(4)] by (simp add: account_from_row_def)
  moreover have "inv (ap_db (snd (guard rq ap)))" using assms(2) by simp
  ultimately obtain ap2 where "issue_session sv rq ?acc (rc_device_id rc) (rc_device_name rc) (snd (guard rq ap)) =
      (Inr (session_for sv rq ?acc), ap2)"
    by (meson issue_session_ok [OF assms(1)])
  moreover have "verify_auth_key (sv_lib sv) (rc_recovery_auth_key rc) (ar_recovery_auth_hash ?r)" using v by (simp add: rewrapped_row_def)
  ultimately have "recover sv rq rc ap = (Inr (session_for sv rq ?acc), ap2)"
    by (simp add: recover_cases [OF assms(1-3)] assms(4))
  with dots show "\<exists>s ap2. recover sv rq rc ap = (Inr s, ap2) \<and> ss_account_id s = ar_id r \<and>
        ss_key_material s = (rw_recovery_material body)\<lparr>km_account_public := ar_account_public r\<rparr>"
    by (simp add: session_for_def key_material_of_def account_from_row_def rewrapped_row_def undotted_def decode_encode)
qed

text \<open>A sign-in with the key of the rewrap is answered with the blobs of the rewrap.\<close>

lemma rewrap_then_login_ok:
  assumes sv: "sv_store sv = st" and inv: "inv (ap_db ap)" and ok: "hashing_ok (sv_lib sv)"
    and salts: "length (rn_auth_salt rq) = 16" "length (rn_recovery_salt rq) = 16"
    and c: "fst (caller sv rq ap) = Inr a" and rw: "rewrap sv rq body ap = (res, ap1)"
    and r: "r \<in> set (accounts (tab (ap_db ap)))" "ar_id r = a"
    and dots: "CHR ''.'' \<notin> set (sb_nonce (km_wrapped_account_secret (rw_key_material body)))"
      "CHR ''.'' \<notin> set (sb_nonce (km_wrapped_personal_key (rw_key_material body)))"
    and log: "admitted rq' ap1" "email_norm cd (lr_email lg) = ar_email r" "lr_auth_key lg = rw_auth_key body"
  obtains s ap2 where "login sv rq' lg ap1 = (Inr s, ap2)" "ss_account_id s = a"
    "ss_key_material s = (rw_key_material body)\<lparr>km_account_public := ar_account_public r\<rparr>"
proof -
  obtain ah rh where q: "hash_auth_key (sv_lib sv) (rn_auth_salt rq) (rw_auth_key body) = Inr ah" "inv (ap_db ap1)"
    "tab (ap_db ap1) = (tab (ap_db ap))\<lparr>
       accounts := map (\<lambda>x. if ar_id x = a then rewrapped_row body ah rh x else x) (accounts (tab (ap_db ap))),
       tokens := filter (\<lambda>t. t_account_id t \<noteq> a) (tokens (tab (ap_db ap)))\<rparr>"
    by (rule rewrap_leaves [OF sv inv ok salts c rw])
  have at: "row_at ar_email (email_norm cd (lr_email lg)) (accounts (tab (ap_db ap1))) = Some (rewrapped_row body ah rh r)"
    using row_at_rewrapped [OF inv r] log(2) by (simp add: q(3))
  have "undotted (rw_key_material body)" "verify_auth_key (sv_lib sv) (lr_auth_key lg) ah"
    using dots hash_verifies [OF ok salts(1) q(1)] log(3) by (simp_all add: undotted_def)
  from login_with_row(2) [OF sv q(2) log(1) at this] r(2) show ?thesis by (auto intro: that)
qed

end

text \<open>C28: changing the password. A rewrap by a signed-in account succeeds. In the account's own row it sets the hash
  of the new key, the hash of the new recovery key and the four wrapped blobs of the request, and no other column; it deletes
  every token of the account; nothing else in any table changes. So every session of the account ends: a request with one of its
  access tokens is refused and a refresh with one of its refresh tokens too, while everybody else's requests are whose they were.
  From then on a sign-in for the address is answered with the blobs the rewrap sent if the key is the new one, and refused if the
  key does not verify against the new hash; and a recovery likewise with the new recovery key and the recovery blobs. The public key
  in the answer is the account's unchanged one. (The nonces of the blobs contain no dot, as base64 text never does.)\<close>

theorem rewrap_replaces_only_the_wrapping:
  assumes "sqlite_inv (lib_codec lib) (ap_db ap)" "hashing_ok lib"
    and "length (rn_auth_salt rq) = 16" "length (rn_recovery_salt rq) = 16"
    and "fst (caller (sqlite_server cf lib dummy) rq ap) = Inr a"
    and "rewrap (sqlite_server cf lib dummy) rq body ap = (res, ap1)"
    and "r \<in> set (accounts (tabs (ap_db ap)))" "ar_id r = a"
    and "undotted (rw_key_material body)" "undotted (rw_recovery_material body)"
  shows "res = Inr () \<and>
    (\<forall>rq'. fst (caller (sqlite_server cf lib dummy) rq' ap1) =
      (if fst (caller (sqlite_server cf lib dummy) rq' ap) = Inr a then Inl Unauthorised
       else fst (caller (sqlite_server cf lib dummy) rq' ap))) \<and>
    (\<forall>rq' rf now. session_token (tabs (ap_db ap)) now (hash_token lib (rf_refresh_token rf)) REFRESH a \<longrightarrow>
      fst (refresh (sqlite_server cf lib dummy) rq' rf ap1) = Inl Unauthorised) \<and>
    (\<exists>ah rh. hash_auth_key lib (rn_auth_salt rq) (rw_auth_key body) = Inr ah \<and>
      hash_auth_key lib (rn_recovery_salt rq) (rw_recovery_auth_key body) = Inr rh \<and>
      tabs (ap_db ap1) = (tabs (ap_db ap))\<lparr>
        accounts := map (\<lambda>x. if ar_id x = a then rewrapped_row body ah rh x else x) (accounts (tabs (ap_db ap))),
        tokens := filter (\<lambda>t. t_account_id t \<noteq> a) (tokens (tabs (ap_db ap)))\<rparr> \<and>
      (\<forall>rq' lg. admitted rq' ap1 \<longrightarrow> email_norm (lib_codec lib) (lr_email lg) = ar_email r \<longrightarrow>
        (\<not> verify_auth_key lib (lr_auth_key lg) ah \<longrightarrow> fst (login (sqlite_server cf lib dummy) rq' lg ap1) = Inl BadCredentials) \<and>
        (lr_auth_key lg = rw_auth_key body \<longrightarrow> (\<exists>s ap2. login (sqlite_server cf lib dummy) rq' lg ap1 = (Inr s, ap2) \<and>
          ss_account_id s = a \<and> ss_key_material s = (rw_key_material body)\<lparr>km_account_public := ar_account_public r\<rparr>))) \<and>
      (\<forall>rq' rc. admitted rq' ap1 \<longrightarrow> email_norm (lib_codec lib) (rc_email rc) = ar_email r \<longrightarrow>
        (\<not> verify_auth_key lib (rc_recovery_auth_key rc) rh \<longrightarrow> fst (recover (sqlite_server cf lib dummy) rq' rc ap1) = Inl BadCredentials) \<and>
        (rc_recovery_auth_key rc = rw_recovery_auth_key body \<longrightarrow> (\<exists>s ap2. recover (sqlite_server cf lib dummy) rq' rc ap1 = (Inr s, ap2) \<and>
          ss_account_id s = a \<and> ss_key_material s = (rw_recovery_material body)\<lparr>km_account_public := ar_account_public r\<rparr>))))"
proof -
  let ?sv = "sqlite_server cf lib dummy"
  have sv: "sv_store ?sv = sqlite_store (lib_codec lib)" by simp
  have ok: "hashing_ok (sv_lib ?sv)" using assms(2) by simp
  obtain ah rh where h: "hash_auth_key (sv_lib ?sv) (rn_auth_salt rq) (rw_auth_key body) = Inr ah"
      "hash_auth_key (sv_lib ?sv) (rn_recovery_salt rq) (rw_recovery_auth_key body) = Inr rh"
    and res: "res = Inr ()" and inv1: "sqlite_inv (lib_codec lib) (ap_db ap1)"
    and tabs: "tabs (ap_db ap1) = (tabs (ap_db ap))\<lparr>
        accounts := map (\<lambda>x. if ar_id x = a then rewrapped_row body ah rh x else x) (accounts (tabs (ap_db ap))),
        tokens := filter (\<lambda>t. t_account_id t \<noteq> a) (tokens (tabs (ap_db ap)))\<rparr>"
    by (rule sqlite.rewrap_leaves [OF sv assms(1) ok assms(3-6)])
  have toks: "tokens (tabs (ap_db ap1)) = filter (\<lambda>t. t_account_id t \<noteq> a) (tokens (tabs (ap_db ap)))" by (simp add: tabs)
  have callers: "fst (caller ?sv rq' ap1) = (if fst (caller ?sv rq' ap) = Inr a then Inl Unauthorised else fst (caller ?sv rq' ap))" for rq'
    by (rule sqlite.caller_after_revoke [OF sv assms(1) inv1 toks])
  have refreshed: "fst (refresh ?sv rq' rf ap1) = Inl Unauthorised"
    if "session_token (tabs (ap_db ap)) now (hash_token lib (rf_refresh_token rf)) REFRESH a" for rq' rf now
    using sqlite.refresh_after_revoke [OF sv toks _ assms(1), of now rf REFRESH rq'] that by simp
  have at: "row_at ar_email (ar_email r) (accounts (tabs (ap_db ap1))) = Some (rewrapped_row body ah rh r)"
    using sqlite.row_at_rewrapped [OF assms(1,7,8)] by (simp add: tabs)
  have new: "verify_auth_key (sv_lib ?sv) (rw_auth_key body) ah" "verify_auth_key (sv_lib ?sv) (rw_recovery_auth_key body) rh"
    using hash_verifies [OF ok assms(3) h(1)] hash_verifies [OF ok assms(4) h(2)] by simp_all
  have login: "(\<not> verify_auth_key lib (lr_auth_key lg) ah \<longrightarrow> fst (login ?sv rq' lg ap1) = Inl BadCredentials) \<and>
      (lr_auth_key lg = rw_auth_key body \<longrightarrow> (\<exists>s ap2. login ?sv rq' lg ap1 = (Inr s, ap2) \<and> ss_account_id s = a \<and>
         ss_key_material s = (rw_key_material body)\<lparr>km_account_public := ar_account_public r\<rparr>))"
    if "admitted rq' ap1" "email_norm (lib_codec lib) (lr_email lg) = ar_email r" for rq' lg
    using sqlite.login_with_row [OF sv inv1 that(1) at [folded that(2)]] new(1) assms(8,9) by simp
  have recover: "(\<not> verify_auth_key lib (rc_recovery_auth_key rc) rh \<longrightarrow> fst (recover ?sv rq' rc ap1) = Inl BadCredentials) \<and>
      (rc_recovery_auth_key rc = rw_recovery_auth_key body \<longrightarrow> (\<exists>s ap2. recover ?sv rq' rc ap1 = (Inr s, ap2) \<and> ss_account_id s = a \<and>
         ss_key_material s = (rw_recovery_material body)\<lparr>km_account_public := ar_account_public r\<rparr>))"
    if "admitted rq' ap1" "email_norm (lib_codec lib) (rc_email rc) = ar_email r" for rq' rc
    using sqlite.recover_with_row [OF sv inv1 that(1) at [folded that(2)]] new(2) assms(8,10) by simp
  have h': "hash_auth_key lib (rn_auth_salt rq) (rw_auth_key body) = Inr ah"
      "hash_auth_key lib (rn_recovery_salt rq) (rw_recovery_auth_key body) = Inr rh" using h by simp_all
  note every = callers [THEN allI] refreshed [THEN impI, THEN allI, THEN allI, THEN allI]
    login [THEN impI, THEN impI, THEN allI, THEN allI] recover [THEN impI, THEN impI, THEN allI, THEN allI]
  show ?thesis by (intro conjI exI [of _ ah] exI [of _ rh] res h' tabs every)
qed

definition sample_rewrap :: rewrap_request where
  "sample_rewrap = \<lparr>rw_auth_key = ''k'', rw_key_material = sample_material ''new'',
     rw_recovery_auth_key = ''c2'', rw_recovery_material = sample_material ''new''\<rparr>"

definition sample_recover :: recover_request where
  "sample_recover = \<lparr>rc_email = '' ADA@x.io'', rc_recovery_auth_key = ''c2'', rc_device_id = [], rc_device_name = []\<rparr>"

theorem rewrap_replaces_only_the_wrapping_witness:
  "\<exists>ap ap1 s ap2. rewrap sample_server sample_request3 sample_rewrap ap = (Inr (), ap1) \<and>
     login sample_server sample_request2 sample_login ap1 = (Inr s, ap2) \<and> ss_key_material s = sample_material ''new'' \<and>
     (\<exists>s' ap3. recover sample_server sample_request2 sample_recover ap1 = (Inr s', ap3) \<and> ss_account_id s' = ''u'')"
proof -
  obtain ap where reg: "register sample_server sample_request sample_register sample_app =
      (Inr (session_for sample_server sample_request (account_from_row sample_row)), ap)"
    and lim: "ap_limit ap = ap_limit (snd (guard sample_request sample_app))" and inv: "sqlite_inv (lib_codec sample_lib) (ap_db ap)"
    and accs: "accounts (tabs (ap_db ap)) = [sample_row]"
    and toks: "tokens (tabs (ap_db ap)) = put_rows [access_row sample_server sample_request ''u'', refresh_row sample_server sample_request ''u''] []"
    by (rule sample_registration)
  have sv: "sv_store sample_server = sqlite_store (lib_codec sample_lib)" by (simp add: sample_server_def)
  note c = sample_caller [OF inv toks]
  have h: "hash_auth_key (sv_lib sample_server) (rn_auth_salt sample_request3) (rw_auth_key sample_rewrap) = Inr ''$k''"
    "hash_auth_key (sv_lib sample_server) (rn_recovery_salt sample_request3) (rw_recovery_auth_key sample_rewrap) = Inr ''$c2''"
    by (simp_all add: sample_server_def sample_hashes sample_rewrap_def)
  obtain r ap1 where "row_at ar_id ''u'' (accounts (tabs (ap_db ap))) = Some r"
    and rw: "rewrap sample_server sample_request3 sample_rewrap ap = (Inr (), ap1)"
    and "sqlite_inv (lib_codec sample_lib) (ap_db ap1)" and lim1: "ap_limit ap1 = ap_limit ap"
    by (rule sqlite.rewrap_ok [OF sv inv c h])
  have row: "sample_row \<in> set (accounts (tabs (ap_db ap)))" "ar_id sample_row = ''u''"
    "email_norm (lib_codec sample_lib) (lr_email sample_login) = ar_email sample_row"
    "lr_auth_key sample_login = rw_auth_key sample_rewrap"
    "email_norm (lib_codec sample_lib) (rc_email sample_recover) = ar_email sample_row"
    "rc_recovery_auth_key sample_recover = rw_recovery_auth_key sample_rewrap"
    using sample_spelling
    by (simp_all add: accs sample_row_def account_row_of_def sample_register_def sample_login_def sample_rewrap_def sample_recover_def)
  have adm: "admitted sample_request2 ap1" by (rule sample_admitted_again) (simp add: lim1 lim)
  have side: "length (rn_auth_salt sample_request3) = 16" "length (rn_recovery_salt sample_request3) = 16"
    "undotted (rw_key_material sample_rewrap)" "undotted (rw_recovery_material sample_rewrap)"
    by (simp_all add: sample_request3_def sample_request_def sample_rewrap_def sample_material_def undotted_def)
  note all = rewrap_replaces_only_the_wrapping [OF inv sample_lib_ok(3) side(1,2) c [unfolded sample_server_def]
        rw [unfolded sample_server_def] row(1,2) side(3,4), folded sample_server_def]
  then obtain s ap2 where login: "login sample_server sample_request2 sample_login ap1 = (Inr s, ap2)"
       "ss_key_material s = (rw_key_material sample_rewrap)\<lparr>km_account_public := ar_account_public sample_row\<rparr>"
    using adm row(3,4) by blast
  from all obtain s' ap3 where "recover sample_server sample_request2 sample_recover ap1 = (Inr s', ap3)" "ss_account_id s' = ''u''"
    using adm row(5,6) by blast
  moreover have "(rw_key_material sample_rewrap)\<lparr>km_account_public := ar_account_public sample_row\<rparr> = sample_material ''new''"
    by (simp add: sample_rewrap_def sample_row_def account_row_of_def registered_def sample_register_def sample_material_def)
  ultimately show ?thesis using rw login by metis
qed

theorem login_iff_key_verifies_witness:
  "fst (login sample_server sample_request sample_login sample_app) = Inl BadCredentials \<and>
   ap_db (snd (login sample_server sample_request sample_login sample_app)) = ap_db sample_app"
  using login_iff_key_verifies [OF sample_app_inv sample_admitted,
      where rq = sample_request and body = sample_login and cf = open_config and dummy = "''$dummy''"]
  unfolding sample_server_def [symmetric] by (simp add: sample_app_def no_tables_def)

end
