(* ===== verification/Routes_Sync.thy ===== *)
theory Routes_Sync
  imports Server_Instance
begin

text \<open>
  \<^verbatim>\<open>server/src/routes/sync.rs\<close>: pull and push. A push walks over its envelopes with two caches;
  the state of the walk is \<open>push_state\<close>. The reference it refines, \<open>push_run\<close>, decides each
  envelope from the tables alone, without caches.
\<close>

section \<open>Pull\<close>

definition as_usize :: "i64 \<Rightarrow> nat" where
  "as_usize x = nat (x mod 18446744073709551616)"

definition pull :: "'s server \<Rightarrow> request \<Rightarrow> i64 \<Rightarrow> (error, 's app, pull_response) op" where
  "pull sv rq cursor =
     bind_op (caller sv rq) (\<lambda>account_id.
     let limit = cf_max_page (sv_config sv)
     in bind_op (on_db (s_pull (sv_store sv) account_id cursor (i64_wrap (limit + 1)))) (\<lambda>envelopes.
        let more = int (length envelopes) > limit;
            page = (if more then take (as_usize limit) envelopes else envelopes);
            next_cursor = (if page = [] then cursor else e_seq (last page))
        in ok_op \<lparr>pr_envelopes = page, pr_cursor = next_cursor, pr_more = more\<rparr>))"

section \<open>Push\<close>

definition refuse :: "envelope \<Rightarrow> i64 \<Rightarrow> config \<Rightarrow> reject_reason option" where
  "refuse e now cf =
     (if \<not> clock_is_plausible (e_updated_at e) now then Some ImplausibleClock
      else if length (e_ciphertext e) > cf_max_record_bytes cf then Some TooLarge
      else None)"

record push_state =
  pu_accepted :: "accepted list"
  pu_rejected :: "rejected list"
  pu_writable :: "string \<Rightarrow> bool option"
  pu_owners :: "string \<Rightarrow> string option option"

definition reject :: "envelope \<Rightarrow> reject_reason \<Rightarrow> push_state \<Rightarrow> push_state" where
  "reject e reason ps =
     ps\<lparr>pu_rejected := pu_rejected ps @ [\<lparr>rj_id = e_id e, rj_kind = as_str (e_kind e), rj_reason = reason\<rparr>]\<rparr>"

definition accept :: "envelope \<Rightarrow> i64 \<Rightarrow> push_state \<Rightarrow> push_state" where
  "accept e seq ps =
     ps\<lparr>pu_accepted := pu_accepted ps @ [\<lparr>ac_id = e_id e, ac_kind = as_str (e_kind e), ac_seq = seq\<rparr>]\<rparr>"

definition put_one :: "'s server \<Rightarrow> string \<Rightarrow> envelope \<Rightarrow> push_state \<Rightarrow> (error, 's app, push_state) op" where
  "put_one sv storage_account e ps =
     bind_op (on_db (s_put_envelope (sv_store sv) storage_account e)) (\<lambda>r.
     case r of
       Some seq \<Rightarrow> ok_op (accept e seq ps)
     | None \<Rightarrow> ok_op (reject e Stale ps))"

definition group_allowed ::
  "'s server \<Rightarrow> string \<Rightarrow> string \<Rightarrow> push_state \<Rightarrow> (error, 's app, bool \<times> push_state) op" where
  "group_allowed sv account_id g ps =
     (case pu_writable ps g of
        Some known \<Rightarrow> ok_op (known, ps)
      | None \<Rightarrow>
          bind_op (on_db (s_can_write_group (sv_store sv) account_id g)) (\<lambda>known.
          ok_op (known, ps\<lparr>pu_writable := (pu_writable ps)(g \<mapsto> known)\<rparr>)))"

definition group_owner_of :: "'s server \<Rightarrow> string \<Rightarrow> push_state \<Rightarrow> (error, 's app, string option \<times> push_state) op" where
  "group_owner_of sv g ps =
     (case pu_owners ps g of
        Some known \<Rightarrow> ok_op (known, ps)
      | None \<Rightarrow>
          bind_op (on_db (s_share_owner (sv_store sv) g)) (\<lambda>known.
          ok_op (known, ps\<lparr>pu_owners := (pu_owners ps)(g \<mapsto> known)\<rparr>)))"

definition push_one ::
  "'s server \<Rightarrow> string \<Rightarrow> i64 \<Rightarrow> envelope \<Rightarrow> push_state \<Rightarrow> (error, 's app, push_state) op" where
  "push_one sv account_id now e ps =
     (case refuse e now (sv_config sv) of
        Some reason \<Rightarrow> ok_op (reject e reason ps)
      | None \<Rightarrow>
          (case e_key_ref e of
             Personal \<Rightarrow> put_one sv account_id e ps
           | GroupKey g \<Rightarrow>
               bind_op (group_allowed sv account_id g ps) (\<lambda>(allowed, ps).
               if \<not> allowed then ok_op (reject e NotAMember ps)
               else bind_op (group_owner_of sv g ps) (\<lambda>(owner, ps).
                    put_one sv (case owner of Some x \<Rightarrow> x | None \<Rightarrow> account_id) e ps))))"

fun push_loop ::
  "'s server \<Rightarrow> string \<Rightarrow> i64 \<Rightarrow> envelope list \<Rightarrow> push_state \<Rightarrow> (error, 's app, push_state) op" where
  "push_loop sv account_id now [] ps = ok_op ps"
| "push_loop sv account_id now (e # es) ps =
     bind_op (push_one sv account_id now e ps) (\<lambda>ps. push_loop sv account_id now es ps)"

definition push_start :: push_state where
  "push_start = \<lparr>pu_accepted = [], pu_rejected = [], pu_writable = (\<lambda>_. None), pu_owners = (\<lambda>_. None)\<rparr>"

definition push :: "'s server \<Rightarrow> request \<Rightarrow> push_request \<Rightarrow> (error, 's app, push_response) op" where
  "push sv rq body =
     bind_op (caller sv rq) (\<lambda>account_id.
     bind_op (push_loop sv account_id (now_ms (rn_store rq)) (pq_envelopes body) push_start) (\<lambda>ps.
     bind_op (on_db (s_max_seq (sv_store sv) account_id)) (\<lambda>cursor.
     ok_op \<lparr>ps_accepted = pu_accepted ps, ps_rejected = pu_rejected ps, ps_cursor = cursor\<rparr>)))"

section \<open>The reference\<close>

datatype verdict = AcceptedAt i64 | Refused reject_reason

text \<open>The account an envelope is filed under, or none where the caller may not write.\<close>

definition push_target :: "tables \<Rightarrow> string \<Rightarrow> envelope \<Rightarrow> string option" where
  "push_target t a e =
     (case e_key_ref e of
        Personal \<Rightarrow> Some a
      | GroupKey g \<Rightarrow>
          if \<not> group_shared t g then Some a
          else if in_group t a g then group_owner t g
          else None)"

definition pushed_row :: "codec \<Rightarrow> string \<Rightarrow> i64 \<Rightarrow> envelope \<Rightarrow> record_row" where
  "pushed_row cd acc seq e =
     record_row_of cd acc seq (case key_ref_to_json cd (e_key_ref e) of Inl _ \<Rightarrow> [] | Inr j \<Rightarrow> j) e"

definition push_spec ::
  "(record_row \<Rightarrow> record_row \<Rightarrow> bool) \<Rightarrow> codec \<Rightarrow> config \<Rightarrow> string \<Rightarrow> i64 \<Rightarrow> envelope \<Rightarrow>
   tables \<times> i64 \<Rightarrow> verdict \<times> tables \<times> i64" where
  "push_spec newer cd cf a now e = (\<lambda>(t, q).
     case refuse e now cf of
       Some reason \<Rightarrow> (Refused reason, t, q)
     | None \<Rightarrow>
         (case push_target t a e of
            None \<Rightarrow> (Refused NotAMember, t, q)
          | Some acc \<Rightarrow>
              (let (rs, ret) = upsert record_key (record_on_conflict newer) (pushed_row cd acc (q + 1) e) (records t)
               in (case ret of None \<Rightarrow> Refused Stale | Some r \<Rightarrow> AcceptedAt (r_seq r),
                   t\<lparr>records := rs\<rparr>, q + 1))))"

fun push_run ::
  "(record_row \<Rightarrow> record_row \<Rightarrow> bool) \<Rightarrow> codec \<Rightarrow> config \<Rightarrow> string \<Rightarrow> i64 \<Rightarrow> envelope list \<Rightarrow>
   tables \<times> i64 \<Rightarrow> verdict list \<times> tables \<times> i64" where
  "push_run newer cd cf a now [] tq = ([], tq)"
| "push_run newer cd cf a now (e # es) tq =
     (let (v, tq1) = push_spec newer cd cf a now e tq; (vs, tq2) = push_run newer cd cf a now es tq1
      in (v # vs, tq2))"

definition accepted_of :: "envelope \<times> verdict \<Rightarrow> accepted list" where
  "accepted_of ev = (case snd ev of
     AcceptedAt q \<Rightarrow> [\<lparr>ac_id = e_id (fst ev), ac_kind = as_str (e_kind (fst ev)), ac_seq = q\<rparr>] | Refused _ \<Rightarrow> [])"

definition rejected_of :: "envelope \<times> verdict \<Rightarrow> rejected list" where
  "rejected_of ev = (case snd ev of
     Refused r \<Rightarrow> [\<lparr>rj_id = e_id (fst ev), rj_kind = as_str (e_kind (fst ev)), rj_reason = r\<rparr>] | AcceptedAt _ \<Rightarrow> [])"

lemma group_owner_in:
  "group_shared t g \<longleftrightarrow> group_owner t g \<noteq> None"
  by (auto simp: group_shared_def group_owner_def list_ex_iff find_None_iff)

lemma push_spec_frame:
  "fst (snd (push_spec newer cd cf a now e (t, q))) = t\<lparr>records := records (fst (snd (push_spec newer cd cf a now e (t, q))))\<rparr>"
  by (auto simp: push_spec_def split: option.splits prod.splits)

lemma push_spec_counter: "push_spec newer cd cf a now e (t, q) = (v, t', q') \<Longrightarrow> q \<le> q' \<and> q' \<le> q + 1"
  by (auto simp: push_spec_def split: option.splits prod.splits)

lemma push_spec_same: "push_spec newer cd cf a now e (t, q) = (v, t', q') \<Longrightarrow> t' = t\<lparr>records := records t'\<rparr>"
  using push_spec_frame [of newer cd cf a now e t q] by simp

section \<open>Push refines the reference\<close>

definition cache_ok :: "tables \<Rightarrow> string \<Rightarrow> push_state \<Rightarrow> bool" where
  "cache_ok t a ps \<longleftrightarrow>
     (\<forall>g. pu_writable ps g = None \<or> pu_writable ps g = Some (\<not> group_shared t g \<or> in_group t a g)) \<and>
     (\<forall>g. pu_owners ps g = None \<or> pu_owners ps g = Some (group_owner t g))"

lemma cache_ok_cases:
  assumes "cache_ok t a ps"
  shows "pu_writable ps g = Some v \<Longrightarrow> (\<not> group_shared t g \<or> in_group t a g) = v"
    and "pu_owners ps g = Some w \<Longrightarrow> group_owner t g = w"
  using assms by (metis cache_ok_def option.distinct(1) option.inject)+

lemma cache_ok_put:
  assumes "cache_ok t a ps"
  shows "cache_ok t a (ps\<lparr>pu_writable := (pu_writable ps)(g \<mapsto> \<not> group_shared t g \<or> in_group t a g)\<rparr>)"
    and "cache_ok t a (ps\<lparr>pu_owners := (pu_owners ps)(g \<mapsto> group_owner t g)\<rparr>)"
  using assms by (simp_all add: cache_ok_def)

lemma cache_ok_records:
  "cache_ok (t\<lparr>records := rs\<rparr>) a ps = cache_ok t a ps"
  by (simp add: cache_ok_def group_shared_def in_group_def group_owner_def)

lemma cache_ok_noted [simp]:
  "cache_ok t a (accept e q ps) = cache_ok t a ps" "cache_ok t a (reject e r ps) = cache_ok t a ps"
  by (simp_all add: cache_ok_def accept_def reject_def)

definition noted :: "envelope \<Rightarrow> verdict \<Rightarrow> push_state \<Rightarrow> push_state \<Rightarrow> bool" where
  "noted e v ps ps' \<longleftrightarrow> pu_accepted ps' = pu_accepted ps @ accepted_of (e, v) \<and>
     pu_rejected ps' = pu_rejected ps @ rejected_of (e, v)"

lemma noted_simps:
  "pu_accepted ps' = pu_accepted ps \<Longrightarrow> pu_rejected ps' = pu_rejected ps \<Longrightarrow> noted e (AcceptedAt q) ps (accept e q ps')"
  "pu_accepted ps' = pu_accepted ps \<Longrightarrow> pu_rejected ps' = pu_rejected ps \<Longrightarrow> noted e (Refused r) ps (reject e r ps')"
  by (simp_all add: noted_def accepted_of_def rejected_of_def accept_def reject_def)

context store_contract
begin

lemma group_allowed_ok:
  assumes "sv_store sv = st" "cache_ok (tab (ap_db ap)) a ps"
  obtains ps' where "group_allowed sv a g ps ap =
      (Inr (\<not> group_shared (tab (ap_db ap)) g \<or> in_group (tab (ap_db ap)) a g, ps'), ap)"
    "cache_ok (tab (ap_db ap)) a ps'" "pu_accepted ps' = pu_accepted ps" "pu_rejected ps' = pu_rejected ps"
proof (cases "pu_writable ps g")
  case None
  have "on_db (s_can_write_group st a g) ap = (Inr (\<not> group_shared (tab (ap_db ap)) g \<or> in_group (tab (ap_db ap)) a g), ap)"
    by (simp add: on_db_def can_write_group)
  then show ?thesis
    using None assms(1) by (intro that [OF _ cache_ok_put(1) [OF assms(2), of g]])
      (simp_all add: group_allowed_def bind_op_eqs)
next
  case (Some v)
  show ?thesis
    by (rule that [OF _ assms(2)])
      (simp_all only: group_allowed_def Some cache_ok_cases(1) [OF assms(2) Some] option.case ok_op_def)
qed

lemma group_owner_ok:
  assumes "sv_store sv = st" "cache_ok (tab (ap_db ap)) a ps"
  obtains ps' where "group_owner_of sv g ps ap = (Inr (group_owner (tab (ap_db ap)) g, ps'), ap)"
    "cache_ok (tab (ap_db ap)) a ps'" "pu_accepted ps' = pu_accepted ps" "pu_rejected ps' = pu_rejected ps"
proof (cases "pu_owners ps g")
  case None
  have "on_db (s_share_owner st g) ap = (Inr (group_owner (tab (ap_db ap)) g), ap)"
    by (simp add: on_db_def share_owner)
  then show ?thesis
    using None assms(1) by (intro that [OF _ cache_ok_put(2) [OF assms(2), of g]])
      (simp_all add: group_owner_of_def bind_op_eqs)
next
  case (Some v)
  show ?thesis
    by (rule that [OF _ assms(2)])
      (simp_all only: group_owner_of_def Some cache_ok_cases(2) [OF assms(2) Some] option.case ok_op_def)
qed

text \<open>Filing one envelope: the verdict and the tables are those of the upsert.\<close>

lemma put_one_ok:
  assumes sv: "sv_store sv = st" and inv: "inv (ap_db ap)" and acc: "has_account (tab (ap_db ap)) x"
    and q: "counter (ap_db ap) < i64_max" and cache: "cache_ok (tab (ap_db ap)) a ps"
    and ps: "pu_accepted ps = pu_accepted ps0" "pu_rejected ps = pu_rejected ps0"
    and up: "upsert record_key (record_on_conflict newer) (pushed_row cd x (counter (ap_db ap) + 1) e)
      (records (tab (ap_db ap))) = (rs, ret)"
  obtains ps' ap' where "put_one sv x e ps ap = (Inr ps', ap')" "inv (ap_db ap')" "ap_limit ap' = ap_limit ap"
    "tab (ap_db ap') = (tab (ap_db ap))\<lparr>records := rs\<rparr>" "counter (ap_db ap') = counter (ap_db ap) + 1"
    "cache_ok (tab (ap_db ap')) a ps'"
    "noted e (case ret of None \<Rightarrow> Refused Stale | Some r \<Rightarrow> AcceptedAt (r_seq r)) ps0 ps'"
proof -
  from inv_codec [OF inv] obtain j where j: "key_ref_to_json cd (e_key_ref e) = Inr j"
    by (auto simp: codec_ok_def)
  let ?ap = "snd (on_db (s_put_envelope st x e) ap)"
  have up': "upsert record_key (record_on_conflict newer) (record_row_of cd x (counter (ap_db ap) + 1) j e)
      (records (tab (ap_db ap))) = (rs, ret)"
    using up by (simp add: pushed_row_def j)
  note put = put_envelope [OF inv acc q j refl, unfolded up' fst_conv snd_conv]
  have step: "on_db (s_put_envelope st x e) ap = (Inr (map_option r_seq ret), ?ap)"
    using put by (simp add: prod_eq_iff)
  have tabs: "tab (ap_db ?ap) = (tab (ap_db ap))\<lparr>records := rs\<rparr>" "counter (ap_db ?ap) = counter (ap_db ap) + 1"
    using put by simp_all
  have one: "put_one sv x e ps ap = (Inr (case ret of None \<Rightarrow> reject e Stale ps | Some r \<Rightarrow> accept e (r_seq r) ps), ?ap)"
    unfolding put_one_def sv bind_op_eqs(2) [of "on_db (s_put_envelope st x e)", OF step]
    by (cases ret) (simp_all add: ok_op_def)
  have inv': "inv (ap_db ?ap)" using inv by (simp add: put_envelope_inv)
  have "cache_ok (tab (ap_db ?ap)) a (case ret of None \<Rightarrow> reject e Stale ps | Some r \<Rightarrow> accept e (r_seq r) ps)"
    using cache by (cases ret) (simp_all only: tabs cache_ok_records cache_ok_noted option.case)
  moreover have "noted e (case ret of None \<Rightarrow> Refused Stale | Some r \<Rightarrow> AcceptedAt (r_seq r)) ps0
      (case ret of None \<Rightarrow> reject e Stale ps | Some r \<Rightarrow> accept e (r_seq r) ps)"
    using ps by (cases ret) (simp_all add: noted_simps)
  ultimately show ?thesis by (rule that [OF one inv' on_db_simps(3) tabs])
qed

lemma push_target_account:
  assumes "inv s" "has_account (tab s) a" "push_target (tab s) a e = Some x"
  shows "has_account (tab s) x"
proof (cases "x = a")
  case True
  with assms(2) show ?thesis by simp
next
  case False
  then obtain g where "group_owner (tab s) g = Some x"
    using assms(3) by (auto simp: push_target_def split: key_ref.splits if_splits)
  then have "\<exists>h \<in> set (shares (tab s)). sh_owner_id h = x"
    by (auto simp: group_owner_def find_Some_iff)
  then show ?thesis using inv_tables [OF assms(1)] by (auto simp: tables_ok_defs)
qed

lemma push_one_ok:
  assumes sv: "sv_store sv = st" and inv: "inv (ap_db ap)" and a: "has_account (tab (ap_db ap)) a"
    and q: "counter (ap_db ap) < i64_max" and cache: "cache_ok (tab (ap_db ap)) a ps"
    and spec: "push_spec newer cd (sv_config sv) a now e (tab (ap_db ap), counter (ap_db ap)) = (v, t', q')"
  obtains ps' ap' where "push_one sv a now e ps ap = (Inr ps', ap')" "inv (ap_db ap')" "ap_limit ap' = ap_limit ap"
    "tab (ap_db ap') = t'" "counter (ap_db ap') = q'" "cache_ok t' a ps'" "noted e v ps ps'"
proof (cases "refuse e now (sv_config sv)")
  case (Some r)
  have "push_one sv a now e ps ap = (Inr (reject e r ps), ap)" using Some by (simp add: push_one_def)
  moreover from spec Some have "v = Refused r" "t' = tab (ap_db ap)" "q' = counter (ap_db ap)"
    by (simp_all add: push_spec_def)
  ultimately show ?thesis using that [of "reject e r ps" ap] inv cache by (simp add: noted_simps)
next
  case ok: None
  show ?thesis
  proof (cases "e_key_ref e")
    case Personal
    obtain rs ret where up: "upsert record_key (record_on_conflict newer) (pushed_row cd a (counter (ap_db ap) + 1) e)
      (records (tab (ap_db ap))) = (rs, ret)" by fastforce
    have res: "v = (case ret of None \<Rightarrow> Refused Stale | Some r \<Rightarrow> AcceptedAt (r_seq r))"
      "t' = (tab (ap_db ap))\<lparr>records := rs\<rparr>" "q' = counter (ap_db ap) + 1"
      using spec ok Personal up by (auto simp: push_spec_def push_target_def)
    obtain ps' ap' where "put_one sv a e ps ap = (Inr ps', ap')" "inv (ap_db ap')" "ap_limit ap' = ap_limit ap"
      "tab (ap_db ap') = (tab (ap_db ap))\<lparr>records := rs\<rparr>" "counter (ap_db ap') = counter (ap_db ap) + 1"
      "cache_ok (tab (ap_db ap')) a ps'"
      "noted e (case ret of None \<Rightarrow> Refused Stale | Some r \<Rightarrow> AcceptedAt (r_seq r)) ps ps'"
      by (rule put_one_ok [OF sv inv a q cache refl refl up])
    with ok Personal res that [of ps' ap'] show ?thesis by (simp add: push_one_def)
  next
    case (GroupKey g)
    obtain ps1 where w: "group_allowed sv a g ps ap =
        (Inr (\<not> group_shared (tab (ap_db ap)) g \<or> in_group (tab (ap_db ap)) a g, ps1), ap)"
      "cache_ok (tab (ap_db ap)) a ps1" "pu_accepted ps1 = pu_accepted ps" "pu_rejected ps1 = pu_rejected ps"
      by (rule group_allowed_ok [OF sv cache])
    show ?thesis
    proof (cases "\<not> group_shared (tab (ap_db ap)) g \<or> in_group (tab (ap_db ap)) a g")
      case False
      then have "push_one sv a now e ps ap = (Inr (reject e NotAMember ps1), ap)"
        using ok GroupKey w(1) by (simp add: push_one_def bind_op_eqs)
      moreover from False spec ok GroupKey have "v = Refused NotAMember" "t' = tab (ap_db ap)" "q' = counter (ap_db ap)"
        by (simp_all add: push_spec_def push_target_def)
      ultimately show ?thesis
        using that [of "reject e NotAMember ps1" ap] inv w(2-4) noted_simps(2) [OF w(3,4)] by simp
    next
      case True
      obtain ps2 where o: "group_owner_of sv g ps1 ap = (Inr (group_owner (tab (ap_db ap)) g, ps2), ap)"
        "cache_ok (tab (ap_db ap)) a ps2" "pu_accepted ps2 = pu_accepted ps1" "pu_rejected ps2 = pu_rejected ps1"
        by (rule group_owner_ok [OF sv w(2)])
      define x where "x = (case group_owner (tab (ap_db ap)) g of Some x \<Rightarrow> x | None \<Rightarrow> a)"
      have target: "push_target (tab (ap_db ap)) a e = Some x"
        using True GroupKey group_owner_in [of "tab (ap_db ap)" g] by (auto simp: push_target_def x_def)
      have acc: "has_account (tab (ap_db ap)) x" by (rule push_target_account [OF inv a target])
      obtain rs ret where up: "upsert record_key (record_on_conflict newer) (pushed_row cd x (counter (ap_db ap) + 1) e)
        (records (tab (ap_db ap))) = (rs, ret)" by fastforce
      have res: "v = (case ret of None \<Rightarrow> Refused Stale | Some r \<Rightarrow> AcceptedAt (r_seq r))"
        "t' = (tab (ap_db ap))\<lparr>records := rs\<rparr>" "q' = counter (ap_db ap) + 1"
        using spec ok target up by (auto simp: push_spec_def)
      have same: "pu_accepted ps2 = pu_accepted ps" "pu_rejected ps2 = pu_rejected ps" using o w by simp_all
      obtain ps' ap' where p: "put_one sv x e ps2 ap = (Inr ps', ap')" "inv (ap_db ap')" "ap_limit ap' = ap_limit ap"
        "tab (ap_db ap') = (tab (ap_db ap))\<lparr>records := rs\<rparr>" "counter (ap_db ap') = counter (ap_db ap) + 1"
        "cache_ok (tab (ap_db ap')) a ps'"
        "noted e (case ret of None \<Rightarrow> Refused Stale | Some r \<Rightarrow> AcceptedAt (r_seq r)) ps ps'"
        by (rule put_one_ok [OF sv inv acc q o(2) same up])
      have "push_one sv a now e ps ap = (Inr ps', ap')"
        using ok GroupKey True w(1) o(1) p(1) by (simp add: push_one_def bind_op_eqs x_def)
      with p res that [of ps' ap'] show ?thesis by simp
    qed
  qed
qed

lemma push_loop_ok:
  assumes sv: "sv_store sv = st"
  shows "inv (ap_db ap) \<Longrightarrow> has_account (tab (ap_db ap)) a \<Longrightarrow>
    counter (ap_db ap) + int (length es) \<le> i64_max \<Longrightarrow> cache_ok (tab (ap_db ap)) a ps \<Longrightarrow>
    push_run newer cd (sv_config sv) a now es (tab (ap_db ap), counter (ap_db ap)) = (vs, t', q') \<Longrightarrow>
    \<exists>ps' ap'. push_loop sv a now es ps ap = (Inr ps', ap') \<and> inv (ap_db ap') \<and> ap_limit ap' = ap_limit ap \<and>
      tab (ap_db ap') = t' \<and> counter (ap_db ap') = q' \<and> length vs = length es \<and>
      pu_accepted ps' = pu_accepted ps @ concat (map accepted_of (zip es vs)) \<and>
      pu_rejected ps' = pu_rejected ps @ concat (map rejected_of (zip es vs))"
proof (induction es arbitrary: ap ps vs)
  case Nil
  then show ?case by simp
next
  case (Cons e es)
  obtain v t1 q1 where spec: "push_spec newer cd (sv_config sv) a now e (tab (ap_db ap), counter (ap_db ap)) = (v, t1, q1)"
    by (metis prod_cases3)
  obtain ws t2 q2 where run: "push_run newer cd (sv_config sv) a now es (t1, q1) = (ws, t2, q2)"
    by (metis prod_cases3)
  have res: "vs = v # ws" "t' = t2" "q' = q2" using Cons.prems(5) spec run by simp_all
  have q: "counter (ap_db ap) < i64_max" using Cons.prems(3) by simp
  obtain ps1 ap1 where one: "push_one sv a now e ps ap = (Inr ps1, ap1)" "inv (ap_db ap1)" "ap_limit ap1 = ap_limit ap"
    "tab (ap_db ap1) = t1" "counter (ap_db ap1) = q1" "cache_ok t1 a ps1" "noted e v ps ps1"
    by (rule push_one_ok [OF sv Cons.prems(1,2) q Cons.prems(4) spec])
  have "t1 = (tab (ap_db ap))\<lparr>records := records t1\<rparr>" by (rule push_spec_same [OF spec])
  then have acc: "has_account (tab (ap_db ap1)) a" using Cons.prems(2) one(4) by (metis has_account_cong(2))
  have len: "counter (ap_db ap1) + int (length es) \<le> i64_max"
    using push_spec_counter [OF spec] Cons.prems(3) one(5) by simp
  have cache: "cache_ok (tab (ap_db ap1)) a ps1" using one(4,6) by simp
  have "push_run newer cd (sv_config sv) a now es (tab (ap_db ap1), counter (ap_db ap1)) = (ws, t', q')"
    using run one(4,5) res by simp
  from Cons.IH [OF one(2) acc len cache this]
  obtain ps2 ap2 where "push_loop sv a now es ps1 ap1 = (Inr ps2, ap2)" "inv (ap_db ap2)" "ap_limit ap2 = ap_limit ap1"
      "tab (ap_db ap2) = t'" "counter (ap_db ap2) = q'" "length ws = length es"
      "pu_accepted ps2 = pu_accepted ps1 @ concat (map accepted_of (zip es ws))"
      "pu_rejected ps2 = pu_rejected ps1 @ concat (map rejected_of (zip es ws))"
    by blast
  with one res show ?case by (simp add: bind_op_eqs noted_def)
qed

lemma push_ok:
  assumes sv: "sv_store sv = st" and inv: "inv (ap_db ap)" and c: "fst (caller sv rq ap) = Inr a"
    and len: "counter (ap_db ap) + int (length (pq_envelopes body)) \<le> i64_max"
    and run: "push_run newer cd (sv_config sv) a (now_ms (rn_store rq)) (pq_envelopes body)
      (tab (ap_db ap), counter (ap_db ap)) = (vs, t', q')"
  obtains resp ap1 where "push sv rq body ap = (Inr resp, ap1)" "inv (ap_db ap1)" "ap_limit ap1 = ap_limit ap"
    "tab (ap_db ap1) = t'" "counter (ap_db ap1) = q'" "length vs = length (pq_envelopes body)"
    "ps_accepted resp = concat (map accepted_of (zip (pq_envelopes body) vs))"
    "ps_rejected resp = concat (map rejected_of (zip (pq_envelopes body) vs))"
    "s_max_seq st a (ap_db ap1) = (Inr (ps_cursor resp), ap_db ap1)"
proof -
  have call: "caller sv rq ap = (Inr a, ap)" using c caller_read [OF sv] by (simp add: prod_eq_iff)
  have start: "cache_ok (tab (ap_db ap)) a push_start" by (simp add: cache_ok_def push_start_def)
  from push_loop_ok [OF sv inv caller_account [OF sv inv c] len start run]
  obtain ps ap1 where loop: "push_loop sv a (now_ms (rn_store rq)) (pq_envelopes body) push_start ap = (Inr ps, ap1)"
    and rest: "inv (ap_db ap1)" "ap_limit ap1 = ap_limit ap" "tab (ap_db ap1) = t'" "counter (ap_db ap1) = q'"
      "length vs = length (pq_envelopes body)"
      "pu_accepted ps = pu_accepted push_start @ concat (map accepted_of (zip (pq_envelopes body) vs))"
      "pu_rejected ps = pu_rejected push_start @ concat (map rejected_of (zip (pq_envelopes body) vs))"
    by blast
  obtain m where m: "s_max_seq st a (ap_db ap1) = (Inr m, ap_db ap1)" using max_seq [OF rest(1)] by blast
  have "push sv rq body ap = (Inr \<lparr>ps_accepted = pu_accepted ps, ps_rejected = pu_rejected ps, ps_cursor = m\<rparr>, ap1)"
    using call loop m by (simp add: push_def sv bind_op_eqs on_db_def)
  then show ?thesis by (rule that) (use rest m in \<open>simp_all add: push_start_def\<close>)
qed

end

section \<open>What a run changes\<close>

text \<open>A new row of a run is the row of one of its envelopes, filed under that envelope's target with a
  number drawn by the run; a row that went is at the key of one of its envelopes.\<close>

lemma push_spec_new:
  assumes "push_spec newer cd cf a now e (t, q) = (v, t', q')" "r \<in> set (records t')" "r \<notin> set (records t)"
  shows "q' = q + 1 \<and> v = AcceptedAt (q + 1) \<and>
    (\<exists>x. push_target t a e = Some x \<and> refuse e now cf = None \<and> r = pushed_row cd x (q + 1) e)"
proof -
  obtain x where x: "refuse e now cf = None" "push_target t a e = Some x"
    using assms by (auto simp: push_spec_def split: option.splits)
  let ?up = "upsert record_key (record_on_conflict newer) (pushed_row cd x (q + 1) e) (records t)"
  have eq: "t' = t\<lparr>records := fst ?up\<rparr>" "q' = q + 1" "v = (case snd ?up of None \<Rightarrow> Refused Stale | Some r \<Rightarrow> AcceptedAt (r_seq r))"
    using assms(1) x by (auto simp: push_spec_def split_beta)
  with assms(2,3) have "snd ?up = Some r" using set_upsertD [of r record_key] by fastforce
  moreover from this have "r = pushed_row cd x (q + 1) e"
    by (simp add: record_upsert_returns split: option.splits if_splits)
  ultimately show ?thesis using x eq by (simp add: pushed_row_def)
qed

lemma push_spec_gone:
  assumes "push_spec newer cd cf a now e (t, q) = (v, t', q')" "r \<in> set (records t)" "r \<notin> set (records t')"
  shows "\<exists>x. push_target t a e = Some x \<and> record_key r = (x, as_str (e_kind e), e_id e)"
proof -
  obtain x where x: "refuse e now cf = None" "push_target t a e = Some x"
    using assms by (auto simp: push_spec_def split: option.splits)
  let ?new = "pushed_row cd x (q + 1) e"
  have eq: "t' = t\<lparr>records := fst (upsert record_key (record_on_conflict newer) ?new (records t))\<rparr>"
    using assms(1) x by (auto simp: push_spec_def split_beta)
  have "record_key r = record_key ?new"
  proof (rule ccontr)
    assume ne: "record_key r \<noteq> record_key ?new"
    have "r \<in> set (fst (upsert record_key (record_on_conflict newer) ?new (records t)))"
      using assms(2) ne by (cases rule: upsert_cases [of record_key ?new "records t" "record_on_conflict newer"]) force+
    with assms(3) eq show False by simp
  qed
  then show ?thesis using x by (simp add: pushed_row_def)
qed

lemma push_target_records [simp]: "push_target (t\<lparr>records := rs\<rparr>) a e = push_target t a e"
  by (simp add: push_target_def group_shared_def in_group_def group_owner_def split: key_ref.splits)

lemma push_run_records:
  "push_run newer cd cf a now es (t, q) = (vs, t', q') \<Longrightarrow> t' = t\<lparr>records := records t'\<rparr> \<and> q \<le> q' \<and> q' \<le> q + int (length es)"
proof (induction es arbitrary: t q vs)
  case Nil
  then show ?case by simp
next
  case (Cons e es)
  obtain v t1 q1 where spec: "push_spec newer cd cf a now e (t, q) = (v, t1, q1)" by (metis prod_cases3)
  with Cons.prems obtain ws where "push_run newer cd cf a now es (t1, q1) = (ws, t', q')"
    by (auto split: prod.splits)
  from Cons.IH [OF this] push_spec_same [OF spec]
  have "t' = t\<lparr>records := records t'\<rparr>" by (metis tables.surjective tables.update_convs(3))
  with Cons.IH [OF \<open>push_run newer cd cf a now es (t1, q1) = (ws, t', q')\<close>] push_spec_counter [OF spec]
  show ?case by simp
qed

lemma push_run_new:
  "push_run newer cd cf a now es (t, q) = (vs, t', q') \<Longrightarrow> r \<in> set (records t') \<Longrightarrow> r \<notin> set (records t) \<Longrightarrow>
     q < r_seq r \<and> r_seq r \<le> q' \<and>
     (\<exists>e \<in> set es. \<exists>x. push_target t a e = Some x \<and> refuse e now cf = None \<and> r = pushed_row cd x (r_seq r) e)"
proof (induction es arbitrary: t q vs)
  case Nil
  then show ?case by simp
next
  case (Cons e es)
  obtain v t1 q1 where spec: "push_spec newer cd cf a now e (t, q) = (v, t1, q1)" by (metis prod_cases3)
  with Cons.prems obtain ws where run: "push_run newer cd cf a now es (t1, q1) = (ws, t', q')"
    by (auto split: prod.splits)
  note count = push_spec_counter [OF spec] push_run_records [OF run]
  have same: "push_target t1 a x = push_target t a x" for x
    by (metis push_spec_same [OF spec] push_target_records)
  show ?case
  proof (cases "r \<in> set (records t1)")
    case True
    from push_spec_new [OF spec True Cons.prems(3)]
    have "q1 = q + 1" "\<exists>x. push_target t a e = Some x \<and> refuse e now cf = None \<and> r = pushed_row cd x (q + 1) e"
      by blast+
    moreover from this have "r_seq r = q + 1" by (auto simp: pushed_row_def)
    ultimately show ?thesis using count by auto
  next
    case False
    from Cons.IH [OF run Cons.prems(2) False] count show ?thesis unfolding same by auto
  qed
qed

lemma push_run_gone:
  "push_run newer cd cf a now es (t, q) = (vs, t', q') \<Longrightarrow> r \<in> set (records t) \<Longrightarrow> r \<notin> set (records t') \<Longrightarrow>
     \<exists>e \<in> set es. \<exists>x. push_target t a e = Some x \<and> record_key r = (x, as_str (e_kind e), e_id e)"
proof (induction es arbitrary: t q vs)
  case Nil
  then show ?case by simp
next
  case (Cons e es)
  obtain v t1 q1 where spec: "push_spec newer cd cf a now e (t, q) = (v, t1, q1)" by (metis prod_cases3)
  with Cons.prems obtain ws where run: "push_run newer cd cf a now es (t1, q1) = (ws, t', q')"
    by (auto split: prod.splits)
  have same: "push_target t1 a x = push_target t a x" for x
    by (metis push_spec_same [OF spec] push_target_records)
  show ?case
  proof (cases "r \<in> set (records t1)")
    case True
    from Cons.IH [OF run True Cons.prems(3)] show ?thesis unfolding same by auto
  next
    case False
    from push_spec_gone [OF spec Cons.prems(2) False] show ?thesis by auto
  qed
qed

text \<open>In a batch that names no record twice, an accepted envelope is in the tables with the number it was
  accepted under.\<close>

lemma push_spec_accepted:
  assumes "push_spec newer cd cf a now e (t, q) = (AcceptedAt k, t', q')"
  shows "q < k \<and> (\<exists>x. push_target t a e = Some x \<and> pushed_row cd x k e \<in> set (records t'))"
proof -
  obtain x where x: "refuse e now cf = None" "push_target t a e = Some x"
    using assms by (auto simp: push_spec_def split: option.splits)
  let ?up = "upsert record_key (record_on_conflict newer) (pushed_row cd x (q + 1) e) (records t)"
  have eq: "t' = t\<lparr>records := fst ?up\<rparr>" "AcceptedAt k = (case snd ?up of None \<Rightarrow> Refused Stale | Some r \<Rightarrow> AcceptedAt (r_seq r))"
    using assms x by (auto simp: push_spec_def split_beta)
  then obtain r where r: "snd ?up = Some r" "k = r_seq r" by (auto split: option.splits)
  then have "r = pushed_row cd x (q + 1) e" by (simp add: record_upsert_returns split: option.splits if_splits)
  moreover from this r(2) have "k = q + 1" by (simp add: pushed_row_def)
  moreover have "r \<in> set (records t')" using upsert_returned [OF r(1)] by (simp add: eq(1))
  ultimately show ?thesis using x(2) by auto
qed

lemma push_run_accepted:
  "push_run newer cd cf a now es (t, q) = (vs, t', q') \<Longrightarrow> distinct (map (\<lambda>e. (e_kind e, e_id e)) es) \<Longrightarrow>
     (e, AcceptedAt k) \<in> set (zip es vs) \<Longrightarrow>
     q < k \<and> (\<exists>x. push_target t a e = Some x \<and> pushed_row cd x k e \<in> set (records t'))"
proof (induction es arbitrary: t q vs)
  case Nil
  then show ?case by simp
next
  case (Cons d es)
  obtain v t1 q1 where spec: "push_spec newer cd cf a now d (t, q) = (v, t1, q1)" by (metis prod_cases3)
  with Cons.prems obtain ws where run: "push_run newer cd cf a now es (t1, q1) = (ws, t', q')" and vs: "vs = v # ws"
    by (auto split: prod.splits)
  have same: "push_target t1 a x = push_target t a x" for x
    by (metis push_spec_same [OF spec] push_target_records)
  show ?case
  proof (cases "(e, AcceptedAt k) \<in> set (zip es ws)")
    case True
    with Cons.IH [OF run _ True] Cons.prems(2) push_spec_counter [OF spec] show ?thesis by (auto simp: same)
  next
    case False
    with Cons.prems(3) vs have e: "e = d" "v = AcceptedAt k" by auto
    from push_spec_accepted [OF spec [unfolded e(2)]] obtain x where x: "q < k" "push_target t a d = Some x"
      "pushed_row cd x k d \<in> set (records t1)" by blast
    have "pushed_row cd x k d \<in> set (records t')"
    proof (rule ccontr)
      assume "pushed_row cd x k d \<notin> set (records t')"
      from push_run_gone [OF run x(3) this] obtain b y where b: "b \<in> set es" "record_key (pushed_row cd x k d) = (y, as_str (e_kind b), e_id b)"
        by blast
      then have "(e_kind d, e_id d) = (e_kind b, e_id b)" by (simp add: pushed_row_def)
      with b(1) Cons.prems(2) show False by (auto simp: image_iff)
    qed
    with x e show ?thesis by blast
  qed
qed

end
