(* ===== verification/Sync.thy ===== *)
theory Sync
  imports Routes_Sync
begin

text \<open>
  What push and pull promise: a push is the cache-free reference and changes only what its caller may
  write, pages of a pull join up to the whole log, a client that follows the cursor misses nothing and
  sees nothing twice, and what the server ends up holding does not depend on the order of a batch.
\<close>

section \<open>Push\<close>

lemma sqlite_push_cursor:
  assumes "sqlite_inv cd db" "s_max_seq (sqlite_store cd) a db = (Inr q, db)"
  shows "q = sqlite_counter db"
  using assms sqlite_max_seq_eq [OF assms(1), of a] by (simp add: sqlite_store_def)

text \<open>C1: a push is its reference. For a signed-in caller and a batch that fits in the sequence, the push
  handler, with its caches of the share table, always answers, gives every envelope of the batch exactly
  one verdict, and leaves exactly the tables and the counter of a run that looks every group up afresh:
  the accepted list is that of the accepted verdicts and the rejected list that of the refused ones,
  both in the order of the batch, and the returned cursor is the counter.\<close>

theorem push_refines_reference:
  assumes "sqlite_inv (lib_codec lib) (ap_db ap)" "fst (caller (sqlite_server cf lib dummy) rq ap) = Inr a"
    and "sqlite_counter (ap_db ap) + int (length (pq_envelopes body)) \<le> i64_max"
    and "push_run sqlite_newer (lib_codec lib) cf a (now_ms (rn_store rq)) (pq_envelopes body)
      (tabs (ap_db ap), sqlite_counter (ap_db ap)) = (vs, t', q')"
  shows "\<exists>resp ap1. push (sqlite_server cf lib dummy) rq body ap = (Inr resp, ap1) \<and>
    tabs (ap_db ap1) = t' \<and> sqlite_counter (ap_db ap1) = q' \<and> length vs = length (pq_envelopes body) \<and>
    ps_accepted resp = concat (map accepted_of (zip (pq_envelopes body) vs)) \<and>
    ps_rejected resp = concat (map rejected_of (zip (pq_envelopes body) vs)) \<and> ps_cursor resp = q'"
proof -
  let ?sv = "sqlite_server cf lib dummy"
  have sv: "sv_store ?sv = sqlite_store (lib_codec lib)" by simp
  have run: "push_run sqlite_newer (lib_codec lib) (sv_config ?sv) a (now_ms (rn_store rq)) (pq_envelopes body)
      (tabs (ap_db ap), sqlite_counter (ap_db ap)) = (vs, t', q')"
    using assms(4) by simp
  obtain resp ap1 where r: "push ?sv rq body ap = (Inr resp, ap1)" "sqlite_inv (lib_codec lib) (ap_db ap1)"
    "ap_limit ap1 = ap_limit ap" "tabs (ap_db ap1) = t'" "sqlite_counter (ap_db ap1) = q'"
    "length vs = length (pq_envelopes body)"
    "ps_accepted resp = concat (map accepted_of (zip (pq_envelopes body) vs))"
    "ps_rejected resp = concat (map rejected_of (zip (pq_envelopes body) vs))"
    "s_max_seq (sqlite_store (lib_codec lib)) a (ap_db ap1) = (Inr (ps_cursor resp), ap_db ap1)"
    by (rule sqlite.push_ok [OF sv assms(1-3) run])
  from sqlite_push_cursor [OF r(2,9)] r show ?thesis by blast
qed

text \<open>The accounts a caller may write records of.\<close>

definition may_write :: "tables \<Rightarrow> string \<Rightarrow> string \<Rightarrow> bool" where
  "may_write t a x \<longleftrightarrow> x = a \<or> (\<exists>g. in_group t a g \<and> group_owner t g = Some x)"

lemma push_target_may_write: "push_target t a e = Some x \<Longrightarrow> may_write t a x"
  by (auto simp: push_target_def may_write_def split: key_ref.splits if_splits)

lemma push_run_writes:
  assumes "push_run newer cd cf a now es (t, q) = (vs, t', q')"
  shows "r \<in> set (records t') - set (records t) \<Longrightarrow> may_write t a (r_account_id r) \<and> q < r_seq r \<and> r_seq r \<le> q'"
    and "r \<in> set (records t) - set (records t') \<Longrightarrow> may_write t a (r_account_id r)"
proof -
  show "r \<in> set (records t') - set (records t) \<Longrightarrow> may_write t a (r_account_id r) \<and> q < r_seq r \<and> r_seq r \<le> q'"
    using push_run_new [OF assms, of r] push_target_may_write
    by (auto simp: pushed_row_def) (metis record_row_of_fields(1))+
  show "r \<in> set (records t) - set (records t') \<Longrightarrow> may_write t a (r_account_id r)"
    using push_run_gone [OF assms, of r] push_target_may_write by (auto simp: record_key_def)
qed

text \<open>C12: a push writes only where its caller may, and always on top. Whatever a batch contains, a record row
  that appears or disappears belongs to the caller, or to the owner of a group the caller owns or is a
  member of; every row that appears carries a number above every number handed out before, so no cursor
  already given out hides it; and accounts, shares, tokens and devices are untouched.\<close>

theorem push_writes_only_where_allowed:
  assumes "sqlite_inv (lib_codec lib) (ap_db ap)" "fst (caller (sqlite_server cf lib dummy) rq ap) = Inr a"
    and "sqlite_counter (ap_db ap) + int (length (pq_envelopes body)) \<le> i64_max"
    and "ap1 = snd (push (sqlite_server cf lib dummy) rq body ap)"
  shows "(\<forall>r \<in> set (records (tabs (ap_db ap1))) - set (records (tabs (ap_db ap))).
      may_write (tabs (ap_db ap)) a (r_account_id r) \<and>
      sqlite_counter (ap_db ap) < r_seq r \<and> r_seq r \<le> sqlite_counter (ap_db ap1)) \<and>
    (\<forall>r \<in> set (records (tabs (ap_db ap))) - set (records (tabs (ap_db ap1))). may_write (tabs (ap_db ap)) a (r_account_id r)) \<and>
    tabs (ap_db ap1) = (tabs (ap_db ap))\<lparr>records := records (tabs (ap_db ap1))\<rparr>"
proof -
  obtain vs t' q' where run: "push_run sqlite_newer (lib_codec lib) cf a (now_ms (rn_store rq)) (pq_envelopes body)
      (tabs (ap_db ap), sqlite_counter (ap_db ap)) = (vs, t', q')"
    by (metis prod_cases3)
  have run': "push_run sqlite_newer (lib_codec lib) (sv_config (sqlite_server cf lib dummy)) a (now_ms (rn_store rq)) (pq_envelopes body)
      (tabs (ap_db ap), sqlite_counter (ap_db ap)) = (vs, t', q')"
    using run by simp
  have sv: "sv_store (sqlite_server cf lib dummy) = sqlite_store (lib_codec lib)" by simp
  obtain resp ap2 where "push (sqlite_server cf lib dummy) rq body ap = (Inr resp, ap2)"
    "tabs (ap_db ap2) = t'" "sqlite_counter (ap_db ap2) = q'"
    using sqlite.push_ok [OF sv assms(1-3) run'] by metis
  then have "tabs (ap_db ap1) = t'" "sqlite_counter (ap_db ap1) = q'" using assms(4) by simp_all
  then show ?thesis
    using push_run_writes [OF run] push_run_records [OF run] by blast
qed

section \<open>Pull\<close>

definition row_envelope :: "codec \<Rightarrow> record_row \<Rightarrow> envelope" where
  "row_envelope cd r = projr (envelope_from_row cd r)"

lemma envelope_from_row_seq: "envelope_from_row cd r = Inr e \<Longrightarrow> e_seq e = r_seq r"
  by (auto simp: envelope_from_row_def split: option.splits sum.splits)

text \<open>The client's side: it pulls from a cursor until a page says there is no more.\<close>

fun pull_loop :: "nat \<Rightarrow> 's server \<Rightarrow> request \<Rightarrow> i64 \<Rightarrow> 's app \<Rightarrow> (error + envelope list \<times> i64) option" where
  "pull_loop 0 sv rq c ap = None"
| "pull_loop (Suc n) sv rq c ap =
     (case pull sv rq c ap of
        (Inl e, _) \<Rightarrow> Some (Inl e)
      | (Inr p, ap1) \<Rightarrow>
          (if \<not> pr_more p then Some (Inr (pr_envelopes p, pr_cursor p))
           else map_option (map_sum id (\<lambda>(es, c'). (pr_envelopes p @ es, c'))) (pull_loop n sv rq (pr_cursor p) ap1)))"

context store_contract
begin

lemma row_envelope_seq: "inv s \<Longrightarrow> r \<in> set (records (tab s)) \<Longrightarrow> e_seq (row_envelope cd r) = r_seq r"
  using inv_decode envelope_from_row_seq by (fastforce simp: row_envelope_def)

lemma decode_rows:
  assumes "inv s" "set rs \<subseteq> set (records (tab s))"
  shows "collect_results (map (envelope_from_row cd) rs) = Inr (map (row_envelope cd) rs)"
proof (rule collect_results_cong)
  fix r
  assume "r \<in> set rs"
  with assms inv_decode obtain e where "envelope_from_row cd r = Inr e" by blast
  then show "envelope_from_row cd r = Inr (row_envelope cd r)" by (simp add: row_envelope_def)
qed

definition page_of :: "nat \<Rightarrow> i64 \<Rightarrow> record_row list \<Rightarrow> pull_response" where
  "page_of p c log = \<lparr>pr_envelopes = map (row_envelope cd) (take p log),
     pr_cursor = (if log = [] then c else r_seq (last (take p log))), pr_more = (p < length log)\<rparr>"

lemma pull_ok:
  assumes sv: "sv_store sv = st" and inv: "inv (ap_db ap)" and c: "fst (caller sv rq ap) = Inr a"
    and sane: "0 < cf_max_page (sv_config sv)" "cf_max_page (sv_config sv) < i64_max"
  shows "pull sv rq cur ap =
    (Inr (page_of (nat (cf_max_page (sv_config sv))) cur (log_after (tab (ap_db ap)) a cur)), ap)"
proof -
  let ?l = "cf_max_page (sv_config sv)" and ?log = "log_after (tab (ap_db ap)) a cur"
  have call: "caller sv rq ap = (Inr a, ap)" using c caller_read [OF sv] by (simp add: prod_eq_iff)
  have sub: "set ?log \<subseteq> set (records (tab (ap_db ap)))" by (auto simp: set_log_after)
  have dec: "collect_results (map (envelope_from_row cd) (take n ?log)) = Inr (map (row_envelope cd) (take n ?log))" for n
    using decode_rows [OF inv] sub set_take_subset by (metis order_trans)
  have wrap: "i64_wrap (?l + 1) = ?l + 1" "as_usize ?l = nat ?l"
    using sane by (simp_all add: is_i64_def i64_max_def as_usize_def)
  let ?es = "map (row_envelope cd) (take (nat (?l + 1)) ?log)" and ?pg = "map (row_envelope cd) (take (nat ?l) ?log)"
  have db: "on_db (s_pull st a cur (?l + 1)) ap = (Inr ?es, ap)"
    using sane pull [of "?l + 1" a cur "ap_db ap"] dec by (simp add: on_db_def)
  have more: "(int (length ?es) > ?l) = (nat ?l < length ?log)" using sane by auto
  have page: "(if nat ?l < length ?log then take (nat ?l) ?es else ?es) = ?pg"
    using sane by (simp add: take_map min_def)
  have last: "(if ?pg = [] then cur else e_seq (last ?pg)) = (if ?log = [] then cur else r_seq (last (take (nat ?l) ?log)))"
  proof (cases "?log = []")
    case False
    then have ne: "take (nat ?l) ?log \<noteq> []" using sane by simp
    have "last (take (nat ?l) ?log) \<in> set (records (tab (ap_db ap)))"
      by (rule subsetD [OF sub, OF subsetD [OF set_take_subset, OF last_in_set [OF ne]]])
    with ne False show ?thesis by (simp add: last_map row_envelope_seq [OF inv])
  qed simp
  have "pull sv rq cur ap = (Inr \<lparr>pr_envelopes = ?pg, pr_cursor = (if ?pg = [] then cur else e_seq (last ?pg)),
      pr_more = (nat ?l < length ?log)\<rparr>, ap)"
    unfolding pull_def sv bind_op_eqs(2) [of "caller sv rq", OF call] Let_def wrap
      bind_op_eqs(2) [of "on_db (s_pull st a cur (?l + 1))", OF db] more page
    by (simp only: ok_op_def)
  then show ?thesis by (simp only: last page_of_def)
qed

lemma pull_loop_ok:
  assumes sv: "sv_store sv = st" and inv: "inv (ap_db ap)" and c: "fst (caller sv rq ap) = Inr a"
    and sane: "0 < cf_max_page (sv_config sv)" "cf_max_page (sv_config sv) < i64_max"
  shows "0 < n \<Longrightarrow> length (log_after (tab (ap_db ap)) a cur) \<le> n * nat (cf_max_page (sv_config sv)) \<Longrightarrow>
    pull_loop n sv rq cur ap = Some (Inr (map (row_envelope cd) (log_after (tab (ap_db ap)) a cur),
      if log_after (tab (ap_db ap)) a cur = [] then cur else r_seq (last (log_after (tab (ap_db ap)) a cur))))"
proof (induction n arbitrary: cur)
  case 0
  then show ?case by simp
next
  case (Suc n)
  let ?p = "nat (cf_max_page (sv_config sv))" and ?log = "log_after (tab (ap_db ap)) a cur"
  note pull = pull_ok [OF sv inv c sane, of cur]
  show ?case
  proof (cases "?p < length ?log")
    case False
    then show ?thesis by (simp add: pull page_of_def)
  next
    case True
    have p: "0 < ?p" and ne: "?log \<noteq> []" using sane True by auto
    define r where "r = ?log ! (?p - 1)"
    have take: "take ?p ?log = take (?p - 1) ?log @ [r]"
      using p True take_Suc_conv_app_nth [of "?p - 1" ?log] by (simp add: r_def)
    have split: "?log = take (?p - 1) ?log @ r # drop ?p ?log"
      using append_take_drop_id [of ?p ?log] unfolding take by simp
    have seqs: "seqs_ok (tab (ap_db ap)) (counter (ap_db ap))" using inv_tables [OF inv] by (simp add: tables_ok_def)
    have rest: "log_after (tab (ap_db ap)) a (r_seq r) = drop ?p ?log"
      by (rule log_after_continue [OF seqs split])
    have "length (drop ?p ?log) \<le> n * ?p" "0 < n" using Suc.prems True by (auto intro: Nat.gr0I)
    from Suc.IH [of "r_seq r", unfolded rest, OF this(2,1)]
    have loop: "pull_loop n sv rq (r_seq r) ap = Some (Inr (map (row_envelope cd) (drop ?p ?log), r_seq (last (drop ?p ?log))))"
      using True by simp
    have "pull_loop (Suc n) sv rq cur ap = Some (Inr (map (row_envelope cd) (take ?p ?log) @ map (row_envelope cd) (drop ?p ?log),
        r_seq (last (drop ?p ?log))))"
      using True loop p ne by (simp add: pull page_of_def take [symmetric]) (simp add: take)
    then show ?thesis using True ne by (simp flip: map_append)
  qed
qed

lemma caller_tokens:
  "sv_store sv = st \<Longrightarrow> tokens (tab (ap_db ap1)) = tokens (tab (ap_db ap)) \<Longrightarrow> fst (caller sv rq ap1) = fst (caller sv rq ap)"
  by (simp add: caller_eq cong: option.case_cong)

end

text \<open>C11: pagination is complete. A client that pulls from any cursor and follows the returned cursors until a
  page says there is no more gets, in at most as many pages as the log has page-sized parts, every
  record the account may see above the cursor, each exactly once and in the order of the numbers; the
  cursor it ends with is the number of the last of them.\<close>

theorem pull_pages_join:
  assumes "sqlite_inv (lib_codec lib) (ap_db ap)" "fst (caller (sqlite_server cf lib dummy) rq ap) = Inr a"
    and "0 < cf_max_page cf" "cf_max_page cf < i64_max"
    and "0 < n" "length (log_after (tabs (ap_db ap)) a c) \<le> n * nat (cf_max_page cf)"
  shows "pull_loop n (sqlite_server cf lib dummy) rq c ap =
      Some (Inr (map (row_envelope (lib_codec lib)) (log_after (tabs (ap_db ap)) a c),
        if log_after (tabs (ap_db ap)) a c = [] then c else r_seq (last (log_after (tabs (ap_db ap)) a c)))) \<and>
    set (log_after (tabs (ap_db ap)) a c) = {r \<in> set (records (tabs (ap_db ap))). c < r_seq r \<and> visible (tabs (ap_db ap)) a r} \<and>
    sorted (map r_seq (log_after (tabs (ap_db ap)) a c)) \<and> distinct (map r_seq (log_after (tabs (ap_db ap)) a c))"
proof -
  have sv: "sv_store (sqlite_server cf lib dummy) = sqlite_store (lib_codec lib)" by simp
  have "seqs_ok (tabs (ap_db ap)) (sqlite_counter (ap_db ap))"
    using sqlite.inv_tables [OF assms(1)] by (simp add: tables_ok_def)
  then show ?thesis
    using sqlite.pull_loop_ok [OF sv assms(1,2), of n c] assms(3-6) distinct_log_after
    by (simp add: set_log_after sorted_log_after)
qed

section \<open>Following the cursor\<close>

lemma visible_records [simp]: "visible (t\<lparr>records := rs\<rparr>) b r = visible t b r"
  by (simp add: visible_def shared_with_def split: option.splits)

text \<open>Between the end of a complete log and the counter there is nothing to see.\<close>

lemma log_after_end:
  assumes old: "c \<le> q" "log = log_after t b c" "c1 = (if log = [] then c else r_seq (last log))"
    and seqs: "\<forall>r \<in> set (records t). r_seq r \<le> q"
    and new: "t' = t\<lparr>records := rs\<rparr>" "\<forall>r \<in> set rs - set (records t). q < r_seq r"
  shows "log_after t' b c1 = log_after t' b q"
proof -
  have "c1 \<le> q"
  proof (cases "log = []")
    case False
    then have "last log \<in> set (records t)" using last_in_set [OF False] by (simp add: old(2) set_log_after)
    with False seqs show ?thesis by (simp add: old(3))
  qed (simp add: old)
  moreover have "q < r_seq r" if r: "r \<in> set rs" "c1 < r_seq r" "visible t b r" for r
  proof (rule ccontr)
    assume "\<not> q < r_seq r"
    with new(2) r(1) have "r \<in> set (records t)" by blast
    moreover have "c < r_seq r"
    proof (cases "log = []")
      case False
      then have "c < r_seq (last log)" using last_in_set [OF False] by (simp add: old(2) set_log_after)
      with False r(2) show ?thesis by (simp add: old(3))
    qed (use r(2) in \<open>simp add: old\<close>)
    ultimately have mem: "r \<in> set log" using r(3) by (simp add: old(2) set_log_after)
    then have ne: "log \<noteq> []" by auto
    have "sorted (map r_seq log)" by (simp add: old(2) sorted_log_after)
    then have "r_seq r \<le> r_seq (last log)" using mem by (rule sorted_key_last)
    with ne r(2) show False by (simp add: old(3))
  qed
  ultimately have "filter (\<lambda>r. c1 < r_seq r \<and> visible t b r) rs = filter (\<lambda>r. q < r_seq r \<and> visible t b r) rs"
    by (intro filter_cong) (auto intro: le_less_trans)
  then show ?thesis by (simp add: log_after_def new(1))
qed

lemma length_log_after: "length (log_after t a c) \<le> length (records t)"
  by (simp add: log_after_def)

context store_contract
begin

lemma push_then_pull:
  assumes sv: "sv_store sv = st" and inv: "inv (ap_db ap)"
    and callers: "fst (caller sv rqa ap) = Inr a" "fst (caller sv rqb ap) = Inr b"
    and sane: "0 < cf_max_page (sv_config sv)" "cf_max_page (sv_config sv) < i64_max"
    and len: "counter (ap_db ap) + int (length (pq_envelopes body)) \<le> i64_max"
    and first: "c \<le> counter (ap_db ap)" "0 < n" "length (records (tab (ap_db ap))) \<le> n * nat (cf_max_page (sv_config sv))"
      "pull_loop n sv rqb c ap = Some (Inr (es, c1))"
    and ap1: "ap1 = snd (push sv rqa body ap)"
    and m: "0 < m" "length (records (tab (ap_db ap1))) \<le> m * nat (cf_max_page (sv_config sv))"
  shows "\<exists>rs c2. pull_loop m sv rqb c1 ap1 = Some (Inr (map (row_envelope cd) rs, c2)) \<and>
    set rs = {r \<in> set (records (tab (ap_db ap1))) - set (records (tab (ap_db ap))). visible (tab (ap_db ap1)) b r} \<and>
    sorted (map r_seq rs) \<and> distinct (map r_seq rs)"
proof -
  let ?t = "tab (ap_db ap)" and ?q = "counter (ap_db ap)"
  obtain vs t' q' where run: "push_run newer cd (sv_config sv) a (now_ms (rn_store rqa)) (pq_envelopes body) (?t, ?q) = (vs, t', q')"
    by (metis prod_cases3)
  obtain resp ap2 where p: "push sv rqa body ap = (Inr resp, ap2)" "inv (ap_db ap2)" "ap_limit ap2 = ap_limit ap"
    "tab (ap_db ap2) = t'" "counter (ap_db ap2) = q'"
    by (rule push_ok [OF sv inv callers(1) len run])
  then have ap2: "ap2 = ap1" using ap1 by simp
  have t': "t' = ?t\<lparr>records := records t'\<rparr>" using push_run_records [OF run] by blast
  have seqs: "\<forall>r \<in> set (records ?t). r_seq r \<le> ?q" using inv_tables [OF inv] by (simp add: tables_ok_defs)
  have new: "\<forall>r \<in> set (records t') - set (records ?t). ?q < r_seq r" using push_run_new [OF run] by blast
  have "length (log_after ?t b c) \<le> n * nat (cf_max_page (sv_config sv))"
    using first(3) length_log_after by (rule order_trans [rotated])
  from pull_loop_ok [OF sv inv callers(2) sane first(2) this]
  have c1: "c1 = (if log_after ?t b c = [] then c else r_seq (last (log_after ?t b c)))" using first(4) by simp
  have eq: "log_after t' b c1 = log_after t' b ?q"
    by (rule log_after_end [OF first(1) refl c1 seqs t' new])
  have "tokens (tab (ap_db ap1)) = tokens ?t" using p(4) t' ap2 by (metis tables.ext_inject tables.surjective tables.update_convs(3))
  then have caller: "fst (caller sv rqb ap1) = Inr b" using caller_tokens [OF sv] callers(2) by metis
  have inv1: "inv (ap_db ap1)" and tab1: "tab (ap_db ap1) = t'" using p ap2 by simp_all
  have "length (log_after t' b c1) \<le> m * nat (cf_max_page (sv_config sv))"
    using m(2) unfolding tab1 using length_log_after by (rule order_trans [rotated])
  from pull_loop_ok [OF sv inv1 caller sane m(1), unfolded tab1, OF this]
  have "pull_loop m sv rqb c1 ap1 = Some (Inr (map (row_envelope cd) (log_after t' b ?q),
      if log_after t' b ?q = [] then c1 else r_seq (last (log_after t' b ?q))))" unfolding eq .
  moreover have "set (log_after t' b ?q) = {r \<in> set (records t') - set (records ?t). visible t' b r}"
    using seqs new by (auto simp: set_log_after)
  moreover have "distinct (map r_seq (log_after t' b ?q))"
    using inv_tables [OF inv1] distinct_log_after unfolding tab1 tables_ok_def by blast
  ultimately show ?thesis unfolding tab1 using sorted_log_after by blast
qed

end

text \<open>C2: following the cursor misses nothing and repeats nothing. Client b pulls to the end, client a pushes
  anything, and b pulls again from the cursor it kept: the second pull returns exactly the records b may
  see that the push put there, each once and in order, however the push split into new records,
  overwritten ones and refusals.\<close>

theorem following_the_cursor_misses_nothing:
  assumes "sqlite_inv (lib_codec lib) (ap_db ap)"
    and "fst (caller (sqlite_server cf lib dummy) rqa ap) = Inr a" "fst (caller (sqlite_server cf lib dummy) rqb ap) = Inr b"
    and "0 < cf_max_page cf" "cf_max_page cf < i64_max"
    and "sqlite_counter (ap_db ap) + int (length (pq_envelopes body)) \<le> i64_max"
    and "c \<le> sqlite_counter (ap_db ap)" "0 < n" "length (records (tabs (ap_db ap))) \<le> n * nat (cf_max_page cf)"
    and "pull_loop n (sqlite_server cf lib dummy) rqb c ap = Some (Inr (es, c1))"
    and "ap1 = snd (push (sqlite_server cf lib dummy) rqa body ap)"
    and "0 < m" "length (records (tabs (ap_db ap1))) \<le> m * nat (cf_max_page cf)"
  shows "\<exists>rs c2. pull_loop m (sqlite_server cf lib dummy) rqb c1 ap1 =
      Some (Inr (map (row_envelope (lib_codec lib)) rs, c2)) \<and>
    set rs = {r \<in> set (records (tabs (ap_db ap1))) - set (records (tabs (ap_db ap))). visible (tabs (ap_db ap1)) b r} \<and>
    sorted (map r_seq rs) \<and> distinct (map r_seq rs)"
  by (rule sqlite.push_then_pull [OF _ assms(1-3) _ _ assms(6-8) _ assms(10-12)])
    (simp_all add: assms(4,5,9) assms(13))

section \<open>Concrete runs\<close>

definition sample_account :: "string \<Rightarrow> string \<Rightarrow> account_row" where
  "sample_account i m = \<lparr>ar_id = i, ar_email = m, ar_auth_hash = ''$k'', ar_recovery_auth_hash = ''$c'',
     ar_account_public = ''pk'', ar_wrapped_account_secret = ''n.c'', ar_wrapped_personal_key = ''n.c'',
     ar_recovery_account_secret = ''n.c'', ar_recovery_personal_key = ''n.c'', ar_created_at = 1000\<rparr>"

text \<open>Ada owns group g1 and shares it with Bob; Carol has nothing to do with it. All three are signed in.\<close>

definition shared_tables :: tables where
  "shared_tables = \<lparr>accounts = [sample_account ''u'' ''ada@x.io'', sample_account ''v'' ''bob@x.io'',
                 sample_account ''w'' ''carol@x.io''],
     tokens = [\<lparr>t_hash = ''Za'', t_account_id = ''u'', t_kind = ''access'', t_expires_at = 5000\<rparr>,
               \<lparr>t_hash = ''Zb'', t_account_id = ''v'', t_kind = ''access'', t_expires_at = 5000\<rparr>,
               \<lparr>t_hash = ''Zc'', t_account_id = ''w'', t_kind = ''access'', t_expires_at = 5000\<rparr>],
     records = [],
     shares = [\<lparr>sh_group_id = ''g1'', sh_owner_id = ''u'', sh_user_id = ''v'', sh_wrapped_group_key = ''w'', sh_created_at = 1\<rparr>],
     devices = []\<rparr>"

definition shared_app :: "sqlite_db app" where
  "shared_app = \<lparr>ap_db = \<lparr>tabs = shared_tables, sequence = Some 7\<rparr>, ap_limit = auth_limit\<rparr>"

definition ada :: request where
  "ada = sample_request\<lparr>rq_authorization := Some (as_bytes ''Bearer a'')\<rparr>"

definition bob :: request where
  "bob = sample_request\<lparr>rq_authorization := Some (as_bytes ''Bearer b'')\<rparr>"

definition carol :: request where
  "carol = sample_request\<lparr>rq_authorization := Some (as_bytes ''Bearer c'')\<rparr>"

definition demo_server :: "sqlite_db server" where
  "demo_server = sqlite_server default_config sample_lib ''$dummy''"

lemma shared_app_inv: "sqlite_inv (lib_codec sample_lib) (ap_db shared_app)"
proof -
  have "to_ascii_lowercase ''ada@x.io'' = ''ada@x.io''" "to_ascii_lowercase ''bob@x.io'' = ''bob@x.io''"
    "to_ascii_lowercase ''carol@x.io'' = ''carol@x.io''"
    by code_simp+
  then show ?thesis
    using sample_lib_ok
    by (simp add: shared_app_def sqlite_inv_def sqlite_counter_def shared_tables_def tables_ok_defs
        has_account_def sample_account_def emails_lower_def rows_decode_def i64_max_def)
qed

lemma shared_callers:
  "fst (caller demo_server ada shared_app) = Inr ''u''"
  "fst (caller demo_server bob shared_app) = Inr ''v''"
  "fst (caller demo_server carol shared_app) = Inr ''w''"
proof -
  have sv: "sv_store demo_server = sqlite_store (lib_codec sample_lib)" by (simp add: demo_server_def)
  have h: "bearer (sv_lib demo_server) ada = Some ''a''" "bearer (sv_lib demo_server) bob = Some ''b''"
    "bearer (sv_lib demo_server) carol = Some ''c''"
    by (simp_all add: bearer_def demo_server_def ada_def bob_def carol_def sample_lib_def sample_platform_def del: as_bytes_simps)
      (simp_all add: strip_prefix_def)
  have t: "trim ''a'' = ''a''" "trim ''b'' = ''b''" "trim ''c'' = ''c''" by code_simp+
  have z: "hash_token (sv_lib demo_server) x = CHR ''Z'' # x" for x by (simp add: demo_server_def sample_hash)
  show "fst (caller demo_server ada shared_app) = Inr ''u''" "fst (caller demo_server bob shared_app) = Inr ''v''"
    "fst (caller demo_server carol shared_app) = Inr ''w''"
    unfolding sqlite.caller_iff [OF sv shared_app_inv] h
    by (simp_all add: t z session_token_def shared_app_def shared_tables_def live_token_def ACCESS_def
        ada_def bob_def carol_def sample_request_def now_ms_def is_i64_def)
qed

definition bob_push :: push_request where
  "bob_push = \<lparr>pq_envelopes = [sample_envelope\<lparr>e_key_ref := GroupKey ''g1'', e_group_id := Some ''g1'', e_updated_at := 500\<rparr>,
     sample_envelope\<lparr>e_updated_at := 1000000000\<rparr>]\<rparr>"

lemma bob_run:
  "push_run sqlite_newer (lib_codec sample_lib) default_config ''v'' (now_ms (rn_store bob)) (pq_envelopes bob_push)
     (tabs (ap_db shared_app), sqlite_counter (ap_db shared_app)) =
   ([AcceptedAt 8, Refused ImplausibleClock],
    shared_tables\<lparr>records := [pushed_row (lib_codec sample_lib) ''u'' 8
      (sample_envelope\<lparr>e_key_ref := GroupKey ''g1'', e_group_id := Some ''g1'', e_updated_at := 500\<rparr>)]\<rparr>, 8)"
  by (simp add: bob_push_def push_spec_def refuse_def clock_is_plausible_def max_clock_skew_ms_def push_target_def
      group_shared_def in_group_def group_owner_def shared_app_def shared_tables_def sqlite_counter_def bob_def
      sample_request_def now_ms_def is_i64_def default_config_def sample_envelope_def upsert_def pushed_row_def)

lemma bob_fits: "sqlite_counter (ap_db shared_app) + int (length (pq_envelopes bob_push)) \<le> i64_max"
  by (simp add: shared_app_def sqlite_counter_def bob_push_def i64_max_def)

theorem push_refines_reference_witness:
  "\<exists>resp ap1. push demo_server bob bob_push shared_app = (Inr resp, ap1) \<and>
     ps_accepted resp = [\<lparr>ac_id = ''h1'', ac_kind = ''host'', ac_seq = 8\<rparr>] \<and>
     ps_rejected resp = [\<lparr>rj_id = ''h1'', rj_kind = ''host'', rj_reason = ImplausibleClock\<rparr>] \<and> ps_cursor resp = 8"
  using push_refines_reference [OF shared_app_inv shared_callers(2) [unfolded demo_server_def] bob_fits bob_run]
  unfolding demo_server_def [symmetric]
  by (force simp: accepted_of_def rejected_of_def bob_push_def sample_envelope_def)

theorem push_writes_only_where_allowed_witness:
  "\<exists>ap1. ap1 = snd (push demo_server bob bob_push shared_app) \<and>
     (\<forall>r \<in> set (records (tabs (ap_db ap1))) - set (records (tabs (ap_db shared_app))).
        may_write (tabs (ap_db shared_app)) ''v'' (r_account_id r)) \<and>
     \<not> may_write shared_tables ''v'' ''w''"
proof -
  have "\<not> may_write shared_tables ''v'' ''w''"
    by (simp add: may_write_def in_group_def group_owner_def shared_tables_def)
  then show ?thesis
    using push_writes_only_where_allowed [OF shared_app_inv shared_callers(2) [unfolded demo_server_def] bob_fits refl]
    unfolding demo_server_def [symmetric] by blast
qed

text \<open>Two records in a log with pages of one.\<close>

definition logged_app :: "sqlite_db app" where
  "logged_app = shared_app\<lparr>ap_db := \<lparr>tabs = shared_tables\<lparr>records :=
     [pushed_row (lib_codec sample_lib) ''u'' 5 sample_envelope,
      pushed_row (lib_codec sample_lib) ''u'' 3 (sample_envelope\<lparr>e_id := ''h2''\<rparr>)]\<rparr>, sequence = Some 7\<rparr>\<rparr>"

definition small_pages :: config where
  "small_pages = default_config\<lparr>cf_max_page := 1\<rparr>"

lemma sample_key_ref: "key_ref_to_json (lib_codec sample_lib) Personal = Inr ''P''"
  by (simp add: sample_lib_def sample_codec_def)

lemma pushed_row_decodes:
  assumes "codec_ok cd"
  shows "envelope_from_row cd (pushed_row cd a q e) = Inr (e\<lparr>e_seq := q\<rparr>)"
proof -
  from assms obtain j where "key_ref_to_json cd (e_key_ref e) = Inr j" by (auto simp: codec_ok_def)
  with codec_ok_row [OF assms this] show ?thesis by (simp add: pushed_row_def)
qed

lemma pushed_row_fields [simp]:
  "r_account_id (pushed_row cd a q e) = a" "r_seq (pushed_row cd a q e) = q"
  "r_group_id (pushed_row cd a q e) = e_group_id e" "r_updated_at (pushed_row cd a q e) = e_updated_at e"
  "r_device_id (pushed_row cd a q e) = e_device_id e"
  "record_key (pushed_row cd a q e) = (a, as_str (e_kind e), e_id e)"
  by (simp_all add: pushed_row_def)

lemma logged_app_inv: "sqlite_inv (lib_codec sample_lib) (ap_db logged_app)"
  using shared_app_inv
  by (simp add: logged_app_def shared_app_def sqlite_inv_def sqlite_counter_def tables_ok_defs shared_tables_def
      rows_decode_def pushed_row_decodes emails_lower_def has_account_def sample_account_def sample_envelope_def)

lemma logged_caller: "fst (caller (sqlite_server small_pages sample_lib ''$dummy'') ada logged_app) = Inr ''u''"
proof -
  have "fst (caller (sqlite_server small_pages sample_lib ''$dummy'') ada logged_app) =
      fst (caller (sqlite_server small_pages sample_lib ''$dummy'') ada shared_app)"
    by (rule sqlite.caller_tokens) (simp_all add: logged_app_def shared_app_def)
  also have "\<dots> = fst (caller demo_server ada shared_app)" by (simp add: demo_server_def caller_def)
  finally show ?thesis by (simp add: shared_callers)
qed

lemma logged_log: "log_after (tabs (ap_db logged_app)) ''u'' 0 =
    [pushed_row (lib_codec sample_lib) ''u'' 3 (sample_envelope\<lparr>e_id := ''h2''\<rparr>), pushed_row (lib_codec sample_lib) ''u'' 5 sample_envelope]"
  by (simp add: log_after_def logged_app_def shared_tables_def visible_def sort_key_def)

theorem pull_pages_join_witness:
  "pull_loop 2 (sqlite_server small_pages sample_lib ''$dummy'') ada 0 logged_app =
     Some (Inr ([sample_envelope\<lparr>e_id := ''h2'', e_seq := 3\<rparr>, sample_envelope\<lparr>e_seq := 5\<rparr>], 5))"
proof -
  have "length (log_after (tabs (ap_db logged_app)) ''u'' 0) \<le> 2 * nat (cf_max_page small_pages)"
    "0 < cf_max_page small_pages" "cf_max_page small_pages < i64_max"
    by (simp_all add: logged_log small_pages_def i64_max_def)
  with pull_pages_join [OF logged_app_inv logged_caller, of 2 0] show ?thesis
    by (simp add: logged_log row_envelope_def pushed_row_decodes sample_lib_ok)
qed

theorem following_the_cursor_misses_nothing_witness:
  "\<exists>rs c2 ap1. ap1 = snd (push demo_server bob bob_push shared_app) \<and>
     pull_loop 1 demo_server ada 0 ap1 = Some (Inr (map (row_envelope (lib_codec sample_lib)) rs, c2)) \<and>
     set rs = {r \<in> set (records (tabs (ap_db ap1))) - set (records (tabs (ap_db shared_app))). visible (tabs (ap_db ap1)) ''u'' r}"
proof -
  let ?ap1 = "snd (push demo_server bob bob_push shared_app)"
  have sane: "0 < cf_max_page default_config" "cf_max_page default_config < i64_max"
    by (simp_all add: default_config_def i64_max_def)
  have "pull_loop 1 demo_server ada 0 shared_app = Some (Inr ([], 0))"
    using sqlite.pull_loop_ok [OF _ shared_app_inv shared_callers(1), of 1 0] sane
    by (simp add: demo_server_def shared_app_def shared_tables_def log_after_def sort_key_def)
  note first = this [unfolded demo_server_def]
  obtain resp ap1 where "push demo_server bob bob_push shared_app = (Inr resp, ap1)"
    "tabs (ap_db ap1) = shared_tables\<lparr>records := [pushed_row (lib_codec sample_lib) ''u'' 8
      (sample_envelope\<lparr>e_key_ref := GroupKey ''g1'', e_group_id := Some ''g1'', e_updated_at := 500\<rparr>)]\<rparr>"
    using sqlite.push_ok [OF _ shared_app_inv shared_callers(2) bob_fits, of "[AcceptedAt 8, Refused ImplausibleClock]"]
      bob_run by (metis demo_server_def server_simps(1,3))
  then have m: "length (records (tabs (ap_db ?ap1))) \<le> 1 * nat (cf_max_page default_config)"
    by (simp add: default_config_def)
  have c: "0 \<le> sqlite_counter (ap_db shared_app)" by (simp add: shared_app_def sqlite_counter_def)
  have n: "length (records (tabs (ap_db shared_app))) \<le> 1 * nat (cf_max_page default_config)"
    by (simp add: shared_app_def shared_tables_def)
  show ?thesis
    using following_the_cursor_misses_nothing [OF shared_app_inv shared_callers(2,1) [unfolded demo_server_def]
        sane bob_fits c zero_less_one n first refl zero_less_one m [unfolded demo_server_def]]
    unfolding demo_server_def [symmetric] by blast
qed

end
