(* ===== verification/Convergence.thy ===== *)
theory Convergence
  imports Sync
begin

text \<open>
  Last-write-wins on the server: the record table after a batch, key by key and up to the sequence
  numbers, is the fold of the versions filed under each key with the comparison of the upsert. From it
  follow the independence of the order of a batch, the harmlessness of a retry, and that the server
  decides as \<open>resolve\<close> does.
\<close>

section \<open>Rows up to their number\<close>

definition erase_seq :: "record_row \<Rightarrow> record_row" where
  "erase_seq r = r\<lparr>r_seq := 0\<rparr>"

lemma erase_pushed [simp]: "erase_seq (pushed_row cd x q e) = pushed_row cd x 0 e"
  by (simp add: erase_seq_def pushed_row_def record_row_of_def)

lemma newer_erase:
  "sqlite_newer (erase_seq a) b = sqlite_newer a b" "sqlite_newer a (erase_seq b) = sqlite_newer a b"
  by (simp_all add: sqlite_newer_def erase_seq_def)

text \<open>The envelopes of a batch that reach a key, and the versions they are.\<close>

definition reaches :: "tables \<Rightarrow> config \<Rightarrow> string \<Rightarrow> i64 \<Rightarrow> string \<times> string \<times> string \<Rightarrow> envelope \<Rightarrow> bool" where
  "reaches t cf a now k e \<longleftrightarrow> refuse e now cf = None \<and> push_target t a e = Some (fst k) \<and>
     k = (fst k, as_str (e_kind e), e_id e)"

definition versions ::
  "codec \<Rightarrow> tables \<Rightarrow> config \<Rightarrow> string \<Rightarrow> i64 \<Rightarrow> string \<times> string \<times> string \<Rightarrow> envelope list \<Rightarrow> record_row list" where
  "versions cd t cf a now k es = map (pushed_row cd (fst k) 0) (filter (reaches t cf a now k) es)"

definition stored :: "tables \<Rightarrow> string \<times> string \<times> string \<Rightarrow> record_row option" where
  "stored t k = map_option erase_seq (row_at record_key k (records t))"

definition merge_opt :: "record_row option \<Rightarrow> record_row \<Rightarrow> record_row option" where
  "merge_opt old v = (case old of None \<Rightarrow> Some v | Some s \<Rightarrow> Some (lww_merge sqlite_newer s v))"

lemma foldl_merge_opt:
  "foldl merge_opt (Some s) vs = Some (lww_fold sqlite_newer s vs)"
  "foldl merge_opt None (v # vs) = Some (lww_fold sqlite_newer v vs)"
  by (induction vs arbitrary: s v) (simp_all add: merge_opt_def)

lemma stored_push_spec:
  assumes "push_spec sqlite_newer cd cf a now e (t, q) = (v, t', q')"
  shows "stored t' k = foldl merge_opt (stored t k) (versions cd t cf a now k [e])"
proof (cases "reaches t cf a now k e")
  case True
  let ?new = "pushed_row cd (fst k) (q + 1) e"
  have key: "record_key ?new = k" using True by (simp add: reaches_def)
  have "t' = t\<lparr>records := fst (upsert record_key (record_on_conflict sqlite_newer) ?new (records t))\<rparr>"
    using assms True by (auto simp: push_spec_def reaches_def split_beta)
  then have "row_at record_key k (records t') =
      (case row_at record_key k (records t) of None \<Rightarrow> Some ?new
       | Some old \<Rightarrow> if sqlite_newer ?new old then Some ?new else Some old)"
    using record_table.row_at_same [where newer = sqlite_newer and new = ?new and rows = "records t", unfolded key]
      record_upsert_returns [of sqlite_newer ?new "records t", unfolded key]
    by (simp split: option.splits if_splits)
  moreover have "sqlite_newer (pushed_row cd (fst k) 0 e) s = sqlite_newer ?new s" for s
    by (simp add: sqlite_newer_def)
  ultimately show ?thesis
    using True
    by (auto simp: stored_def versions_def merge_opt_def lww_merge_def newer_erase split: option.splits)
next
  case False
  have "row_at record_key k (records t') = row_at record_key k (records t)"
  proof (cases "\<exists>x. refuse e now cf = None \<and> push_target t a e = Some x")
    case True
    then obtain x where x: "refuse e now cf = None" "push_target t a e = Some x" by blast
    let ?new = "pushed_row cd x (q + 1) e"
    have "t' = t\<lparr>records := fst (upsert record_key (record_on_conflict sqlite_newer) ?new (records t))\<rparr>"
      using assms x by (auto simp: push_spec_def split_beta)
    moreover have "k \<noteq> record_key ?new" using False x by (auto simp: reaches_def)
    ultimately show ?thesis using record_table.row_at_other by simp
  next
    case none: False
    then show ?thesis using assms by (auto simp: push_spec_def split: option.splits)
  qed
  with False show ?thesis by (simp add: stored_def versions_def)
qed

lemma versions_records: "versions cd (t\<lparr>records := rs\<rparr>) cf a now k es = versions cd t cf a now k es"
proof -
  have "reaches (t\<lparr>records := rs\<rparr>) cf a now k = reaches t cf a now k"
    by (simp add: fun_eq_iff reaches_def)
  then show ?thesis by (simp add: versions_def)
qed

text \<open>The whole batch, key by key.\<close>

lemma stored_push_run:
  "push_run sqlite_newer cd cf a now es (t, q) = (vs, t', q') \<Longrightarrow>
     stored t' k = foldl merge_opt (stored t k) (versions cd t cf a now k es)"
proof (induction es arbitrary: t q vs)
  case Nil
  then show ?case by (simp add: versions_def)
next
  case (Cons e es)
  obtain v t1 q1 where spec: "push_spec sqlite_newer cd cf a now e (t, q) = (v, t1, q1)" by (metis prod_cases3)
  with Cons.prems obtain ws where run: "push_run sqlite_newer cd cf a now es (t1, q1) = (ws, t', q')"
    by (auto split: prod.splits)
  have "versions cd t1 cf a now k es = versions cd t cf a now k es"
    by (metis push_spec_same [OF spec] versions_records)
  moreover have "versions cd t cf a now k (e # es) = versions cd t cf a now k [e] @ versions cd t cf a now k es"
    by (simp add: versions_def)
  ultimately show ?case
    using Cons.IH [OF run] stored_push_spec [OF spec, of k] by simp
qed

section \<open>The order of a batch does not matter\<close>

definition row_clock :: "record_row \<Rightarrow> clock" where
  "row_clock r = \<lparr>c_updated_at = r_updated_at r, c_device_id = r_device_id r\<rparr>"

text \<open>No two different versions of a record, stored or pushed, carry the same clock.\<close>

definition clocks_identify :: "record_row list \<Rightarrow> bool" where
  "clocks_identify vs \<longleftrightarrow> (\<forall>x \<in> set vs. \<forall>y \<in> set vs.
     r_updated_at x = r_updated_at y \<and> r_device_id x = r_device_id y \<longrightarrow> x = y)"

lemma sqlite_tie:
  "\<not> sqlite_newer x y \<Longrightarrow> \<not> sqlite_newer y x \<Longrightarrow> r_updated_at x = r_updated_at y \<and> r_device_id x = r_device_id y"
  using less_linear [of "r_updated_at x" "r_updated_at y"] less_linear [of "r_device_id x" "r_device_id y"]
  by (auto simp: sqlite_newer_def)

lemma fold_clock:
  assumes "set vs = set ws"
  shows "map_option row_clock (foldl merge_opt old vs) = map_option row_clock (foldl merge_opt old ws)"
proof -
  have same: "row_clock (lww_fold sqlite_newer x xs) = row_clock (lww_fold sqlite_newer y ys)" if "set (x # xs) = set (y # ys)" for x xs y ys
    using sqlite_tie [OF sqlite.fold_converges [OF that] sqlite.fold_converges [OF that [symmetric]]] by (simp add: row_clock_def)
  show ?thesis
  proof (cases old)
    case (Some s)
    with assms same [of s vs s ws] show ?thesis by (simp add: foldl_merge_opt)
  next
    case None
    then show ?thesis
    proof (cases vs)
      case (Cons x xs)
      with assms obtain y ys where ws: "ws = y # ys" by (cases ws) auto
      from same [of x xs y ys] assms show ?thesis by (simp only: None Cons ws foldl_merge_opt option.map)
    qed (use assms in simp)
  qed
qed

lemma fold_order:
  assumes "set vs = set ws" "clocks_identify ((case old of None \<Rightarrow> [] | Some s \<Rightarrow> [s]) @ vs)"
  shows "foldl merge_opt old vs = foldl merge_opt old ws"
proof -
  have unique: "lww_fold sqlite_newer x xs = lww_fold sqlite_newer y ys"
    if "set (x # xs) = set (y # ys)" "clocks_identify (x # xs)" for x xs y ys
    using that(1)
  proof (rule sqlite.fold_unique)
    show "p = r" if "p \<in> set (x # xs)" "r \<in> set (x # xs)" "\<not> sqlite_newer p r" "\<not> sqlite_newer r p" for p r
      using \<open>clocks_identify (x # xs)\<close> sqlite_tie [OF that(3,4)] that(1,2) unfolding clocks_identify_def by blast
  qed
  show ?thesis
  proof (cases old)
    case None
    show ?thesis
    proof (cases vs)
      case Nil
      with assms(1) show ?thesis by simp
    next
      case (Cons x xs)
      with assms(1) obtain y ys where ws: "ws = y # ys" by (cases ws) auto
      have "lww_fold sqlite_newer x xs = lww_fold sqlite_newer y ys"
        by (rule unique) (use assms None Cons ws in simp_all)
      then show ?thesis by (simp only: None Cons ws foldl_merge_opt)
    qed
  next
    case (Some s)
    with assms show ?thesis by (simp add: foldl_merge_opt unique)
  qed
qed

text \<open>C19: what the server holds does not depend on the order of a batch. Two requests that carry the same
  envelopes, in any order and with any repetitions, sent by the same caller to the same state at the
  same time, leave under every key of the record table a version of the same clock, or none both times; and the same version, up to
  its sequence number, as long as no two different versions of that record, the stored one included, carry the same clock
  (update time and device). Later batches then find the same content whichever arrived first.\<close>

theorem batch_order_is_irrelevant:
  assumes "sqlite_inv (lib_codec lib) (ap_db ap)" "fst (caller (sqlite_server cf lib dummy) rq ap) = Inr a"
    and "sqlite_counter (ap_db ap) + int (length (pq_envelopes b1)) \<le> i64_max"
    and "sqlite_counter (ap_db ap) + int (length (pq_envelopes b2)) \<le> i64_max"
    and "set (pq_envelopes b1) = set (pq_envelopes b2)"
    and "ap1 = snd (push (sqlite_server cf lib dummy) rq b1 ap)" "ap2 = snd (push (sqlite_server cf lib dummy) rq b2 ap)"
  shows "map_option row_clock (stored (tabs (ap_db ap1)) k) = map_option row_clock (stored (tabs (ap_db ap2)) k) \<and>
    (clocks_identify ((case stored (tabs (ap_db ap)) k of None \<Rightarrow> [] | Some s \<Rightarrow> [s]) @
        versions (lib_codec lib) (tabs (ap_db ap)) cf a (now_ms (rn_store rq)) k (pq_envelopes b1)) \<longrightarrow>
      stored (tabs (ap_db ap1)) k = stored (tabs (ap_db ap2)) k)"
proof -
  let ?sv = "sqlite_server cf lib dummy"
  have sv: "sv_store ?sv = sqlite_store (lib_codec lib)" by simp
  have final: "stored (tabs (ap_db (snd (push ?sv rq b ap)))) k = foldl merge_opt (stored (tabs (ap_db ap)) k)
      (versions (lib_codec lib) (tabs (ap_db ap)) cf a (now_ms (rn_store rq)) k (pq_envelopes b))"
    if fits: "sqlite_counter (ap_db ap) + int (length (pq_envelopes b)) \<le> i64_max" for b
  proof -
    obtain vs t' q' where run: "push_run sqlite_newer (lib_codec lib) (sv_config ?sv) a (now_ms (rn_store rq)) (pq_envelopes b)
        (tabs (ap_db ap), sqlite_counter (ap_db ap)) = (vs, t', q')"
      by (metis prod_cases3)
    obtain resp ap1 where "push ?sv rq b ap = (Inr resp, ap1)" "tabs (ap_db ap1) = t'"
      using sqlite.push_ok [OF sv assms(1,2) fits run] by metis
    then show ?thesis using stored_push_run [OF run] by simp
  qed
  have "set (versions (lib_codec lib) (tabs (ap_db ap)) cf a (now_ms (rn_store rq)) k (pq_envelopes b1)) =
      set (versions (lib_codec lib) (tabs (ap_db ap)) cf a (now_ms (rn_store rq)) k (pq_envelopes b2))"
    using assms(5) by (simp add: versions_def)
  from fold_clock [OF this] fold_order [OF this] show ?thesis
    unfolding assms(6,7) final [OF assms(3)] final [OF assms(4)] by blast
qed

definition edit :: "int \<Rightarrow> envelope" where
  "edit at = sample_envelope\<lparr>e_updated_at := at\<rparr>"

theorem batch_order_is_irrelevant_witness:
  "stored (tabs (ap_db (snd (push demo_server ada \<lparr>pq_envelopes = [edit 500, edit 600]\<rparr> shared_app)))) (''u'', ''host'', ''h1'') =
   stored (tabs (ap_db (snd (push demo_server ada \<lparr>pq_envelopes = [edit 600, edit 500, edit 600]\<rparr> shared_app)))) (''u'', ''host'', ''h1'')"
proof -
  have v: "versions (lib_codec sample_lib) (tabs (ap_db shared_app)) default_config ''u'' (now_ms (rn_store ada)) (''u'', ''host'', ''h1'')
      [edit 500, edit 600] = [pushed_row (lib_codec sample_lib) ''u'' 0 (edit 500), pushed_row (lib_codec sample_lib) ''u'' 0 (edit 600)]"
    by (simp add: versions_def reaches_def edit_def refuse_def clock_is_plausible_def max_clock_skew_ms_def
        push_target_def sample_envelope_def default_config_def ada_def sample_request_def now_ms_def is_i64_def)
  have s: "stored (tabs (ap_db shared_app)) (''u'', ''host'', ''h1'') = None"
    by (simp add: stored_def shared_app_def shared_tables_def)
  have "clocks_identify ((case stored (tabs (ap_db shared_app)) (''u'', ''host'', ''h1'') of None \<Rightarrow> [] | Some s \<Rightarrow> [s]) @
        versions (lib_codec sample_lib) (tabs (ap_db shared_app)) default_config ''u'' (now_ms (rn_store ada)) (''u'', ''host'', ''h1'')
          (pq_envelopes \<lparr>pq_envelopes = [edit 500, edit 600]\<rparr>))"
    by (simp add: v s clocks_identify_def) (simp add: edit_def)
  moreover have "sqlite_counter (ap_db shared_app) + int (length (pq_envelopes \<lparr>pq_envelopes = [edit 500, edit 600]\<rparr>)) \<le> i64_max"
    "sqlite_counter (ap_db shared_app) + int (length (pq_envelopes \<lparr>pq_envelopes = [edit 600, edit 500, edit 600]\<rparr>)) \<le> i64_max"
    "set (pq_envelopes \<lparr>pq_envelopes = [edit 500, edit 600]\<rparr>) = set (pq_envelopes \<lparr>pq_envelopes = [edit 600, edit 500, edit 600]\<rparr>)"
    by (simp_all add: shared_app_def sqlite_counter_def i64_max_def insert_commute)
  note side = this
  ultimately show ?thesis
    using batch_order_is_irrelevant [OF shared_app_inv shared_callers(1) [unfolded demo_server_def] side refl refl]
    unfolding demo_server_def by blast
qed

section \<open>A retry changes nothing\<close>

lemma merge_opt_newest:
  "w \<in> set vs \<or> old = Some w \<Longrightarrow> \<exists>s. foldl merge_opt old vs = Some s \<and> \<not> sqlite_newer w s"
proof (cases old)
  case None
  assume "w \<in> set vs \<or> old = Some w"
  with None obtain x xs where vs: "vs = x # xs" "w \<in> set (x # xs)" by (cases vs) auto
  show ?thesis
    using sqlite.fold_newest [OF vs(2)] by (simp only: None vs(1) foldl_merge_opt) blast
next
  case (Some s)
  assume "w \<in> set vs \<or> old = Some w"
  with Some have "w \<in> set (s # vs)" by auto
  from sqlite.fold_newest [OF this] show ?thesis by (simp only: Some foldl_merge_opt) blast
qed

definition settled :: "codec \<Rightarrow> tables \<Rightarrow> config \<Rightarrow> string \<Rightarrow> i64 \<Rightarrow> envelope \<Rightarrow> bool" where
  "settled cd t cf a now e \<longleftrightarrow> (\<forall>x. refuse e now cf = None \<longrightarrow> push_target t a e = Some x \<longrightarrow>
     (\<exists>s. row_at record_key (x, as_str (e_kind e), e_id e) (records t) = Some s \<and> \<not> sqlite_newer (pushed_row cd x 0 e) s))"

lemma push_run_settles:
  assumes "push_run sqlite_newer cd cf a now es (t, q) = (vs, t', q')" "e \<in> set es"
  shows "settled cd t' cf a now e"
  unfolding settled_def
proof (intro allI impI)
  fix x
  assume "refuse e now cf = None" "push_target t' a e = Some x"
  moreover have "push_target t' a e = push_target t a e"
    by (metis push_run_records [OF assms(1)] push_target_records)
  ultimately have "reaches t cf a now (x, as_str (e_kind e), e_id e) e" by (simp add: reaches_def)
  then have "pushed_row cd x 0 e \<in> set (versions cd t cf a now (x, as_str (e_kind e), e_id e) es)"
    using assms(2) by (auto simp: versions_def)
  then obtain s where "stored t' (x, as_str (e_kind e), e_id e) = Some s" "\<not> sqlite_newer (pushed_row cd x 0 e) s"
    using merge_opt_newest stored_push_run [OF assms(1)] by metis
  then show "\<exists>s. row_at record_key (x, as_str (e_kind e), e_id e) (records t') = Some s \<and> \<not> sqlite_newer (pushed_row cd x 0 e) s"
    by (auto simp: stored_def newer_erase)
qed

definition retry_verdict :: "tables \<Rightarrow> config \<Rightarrow> string \<Rightarrow> i64 \<Rightarrow> envelope \<Rightarrow> verdict" where
  "retry_verdict t cf a now e = Refused (case refuse e now cf of Some r \<Rightarrow> r
     | None \<Rightarrow> if push_target t a e = None then NotAMember else Stale)"

lemma settled_spec:
  assumes "settled cd t cf a now e"
  shows "\<exists>q'. push_spec sqlite_newer cd cf a now e (t, q) = (retry_verdict t cf a now e, t, q')"
proof (cases "\<exists>x. refuse e now cf = None \<and> push_target t a e = Some x")
  case True
  then obtain x where x: "refuse e now cf = None" "push_target t a e = Some x" by blast
  with assms obtain s where s: "row_at record_key (x, as_str (e_kind e), e_id e) (records t) = Some s"
    "\<not> sqlite_newer (pushed_row cd x 0 e) s"
    by (auto simp: settled_def)
  then have "\<not> sqlite_newer (pushed_row cd x (q + 1) e) s" by (simp add: sqlite_newer_def)
  with s(1) have "upsert record_key (record_on_conflict sqlite_newer) (pushed_row cd x (q + 1) e) (records t) = (records t, None)"
    by (simp add: upsert_def record_on_conflict_def)
  with x show ?thesis by (simp add: push_spec_def retry_verdict_def)
next
  case False
  then show ?thesis by (auto simp: push_spec_def retry_verdict_def split: option.splits)
qed

lemma settled_run:
  "(\<And>e. e \<in> set es \<Longrightarrow> settled cd t cf a now e) \<Longrightarrow>
     \<exists>q'. push_run sqlite_newer cd cf a now es (t, q) = (map (retry_verdict t cf a now) es, t, q')"
proof (induction es arbitrary: q)
  case Nil
  then show ?case by simp
next
  case (Cons e es)
  obtain q1 where "push_spec sqlite_newer cd cf a now e (t, q) = (retry_verdict t cf a now e, t, q1)"
    using settled_spec Cons.prems by (metis list.set_intros(1))
  moreover obtain q2 where "push_run sqlite_newer cd cf a now es (t, q1) = (map (retry_verdict t cf a now) es, t, q2)"
    using Cons.IH Cons.prems by (metis list.set_intros(2))
  ultimately show ?case by simp
qed

text \<open>What the retry says to an envelope, given what the first push said.\<close>

definition said_again :: "verdict \<Rightarrow> reject_reason" where
  "said_again v = (case v of Refused r \<Rightarrow> r | AcceptedAt _ \<Rightarrow> Stale)"

lemma retry_spec:
  "push_spec newer cd cf a now e (t, q) = (v, t', q') \<Longrightarrow> retry_verdict t cf a now e = Refused (said_again v)"
  by (auto simp: push_spec_def retry_verdict_def said_again_def split: option.splits prod.splits)

lemma retry_verdict_records: "t' = t\<lparr>records := rs\<rparr> \<Longrightarrow> retry_verdict t' cf a now e = retry_verdict t cf a now e"
  by (simp add: retry_verdict_def del: not_None_eq)

lemma retry_run:
  "push_run newer cd cf a now es (t, q) = (vs, t', q') \<Longrightarrow>
     length vs = length es \<and> map (retry_verdict t cf a now) es = map (\<lambda>v. Refused (said_again v)) vs"
proof (induction es arbitrary: t q vs)
  case Nil
  then show ?case by simp
next
  case (Cons e es)
  obtain v t1 q1 where spec: "push_spec newer cd cf a now e (t, q) = (v, t1, q1)" by (metis prod_cases3)
  with Cons.prems obtain ws where run: "push_run newer cd cf a now es (t1, q1) = (ws, t', q')" "vs = v # ws"
    by (auto split: prod.splits)
  have "retry_verdict t1 cf a now = retry_verdict t cf a now"
    using retry_verdict_records [OF push_spec_same [OF spec]] by blast
  with Cons.IH [OF run(1)] retry_spec [OF spec] run(2) show ?case by simp
qed

lemma refused_all:
  "length vs = length es \<Longrightarrow> concat (map accepted_of (zip es (map (\<lambda>v. Refused (f v)) vs))) = [] \<and>
     concat (map rejected_of (zip es (map (\<lambda>v. Refused (f v)) vs))) =
       map (\<lambda>(e, v). \<lparr>rj_id = e_id e, rj_kind = as_str (e_kind e), rj_reason = f v\<rparr>) (zip es vs)"
  by (induction vs es rule: list_induct2) (simp_all add: accepted_of_def rejected_of_def)

text \<open>C20: a retry is harmless. A client that did not see the answer of a push and sends the same batch again,
  at a time at which every envelope gets the same result from the clock and size checks, is told so envelope by
  envelope: what the first push accepted is now answered stale, and what it refused is refused for the same
  reason again. Nothing is accepted, and the retry leaves every row of every table exactly as it was: no new
  version, no new number on an old one.\<close>

theorem retry_is_harmless:
  assumes "sqlite_inv (lib_codec lib) (ap_db ap)" "fst (caller (sqlite_server cf lib dummy) rq ap) = Inr a"
    and "sqlite_counter (ap_db ap) + 2 * int (length (pq_envelopes body)) \<le> i64_max"
    and "ap1 = snd (push (sqlite_server cf lib dummy) rq body ap)"
    and "fst (caller (sqlite_server cf lib dummy) rq' ap) = Inr a"
    and "\<forall>e \<in> set (pq_envelopes body). refuse e (now_ms (rn_store rq')) cf = refuse e (now_ms (rn_store rq)) cf"
  shows "\<exists>vs resp1 resp2 ap2. push (sqlite_server cf lib dummy) rq body ap = (Inr resp1, ap1) \<and>
    length vs = length (pq_envelopes body) \<and>
    ps_accepted resp1 = concat (map accepted_of (zip (pq_envelopes body) vs)) \<and>
    ps_rejected resp1 = concat (map rejected_of (zip (pq_envelopes body) vs)) \<and>
    push (sqlite_server cf lib dummy) rq' body ap1 = (Inr resp2, ap2) \<and> ps_accepted resp2 = [] \<and>
    ps_rejected resp2 = map (\<lambda>(e, v). \<lparr>rj_id = e_id e, rj_kind = as_str (e_kind e),
        rj_reason = (case v of Refused r \<Rightarrow> r | AcceptedAt _ \<Rightarrow> Stale)\<rparr>) (zip (pq_envelopes body) vs) \<and>
    tabs (ap_db ap2) = tabs (ap_db ap1)"
proof -
  let ?sv = "sqlite_server cf lib dummy" and ?es = "pq_envelopes body" and ?cd = "lib_codec lib"
  have sv: "sv_store ?sv = sqlite_store ?cd" by simp
  have fits: "sqlite_counter (ap_db ap) + int (length ?es) \<le> i64_max" using assms(3) by simp
  obtain vs t' q' where run: "push_run sqlite_newer ?cd (sv_config ?sv) a (now_ms (rn_store rq)) ?es
      (tabs (ap_db ap), sqlite_counter (ap_db ap)) = (vs, t', q')"
    by (metis prod_cases3)
  obtain resp ap' where p: "push ?sv rq body ap = (Inr resp, ap')" "sqlite_inv ?cd (ap_db ap')" "ap_limit ap' = ap_limit ap"
    "tabs (ap_db ap') = t'" "sqlite_counter (ap_db ap') = q'"
    and answer: "ps_accepted resp = concat (map accepted_of (zip ?es vs))" "ps_rejected resp = concat (map rejected_of (zip ?es vs))"
    by (rule sqlite.push_ok [OF sv assms(1,2) fits run])
  then have ap1: "ap1 = ap'" using assms(4) by simp
  note rec = push_run_records [OF run]
  have t': "t' = (tabs (ap_db ap))\<lparr>records := records t'\<rparr>" using rec by blast
  then have "tokens (tabs (ap_db ap1)) = tokens (tabs (ap_db ap))" using p(4) ap1 by (metis tables.ext_inject tables.surjective tables.update_convs(3))
  then have call: "fst (caller ?sv rq' ap1) = Inr a" using sqlite.caller_tokens [OF sv] assms(5) by metis
  have inv1: "sqlite_inv ?cd (ap_db ap1)" using p(2) ap1 by simp
  have fits': "sqlite_counter (ap_db ap1) + int (length ?es) \<le> i64_max" using assms(3) rec p(5) ap1 by simp
  have "settled ?cd t' cf a (now_ms (rn_store rq')) e" if "e \<in> set ?es" for e
    using push_run_settles [OF run that] assms(6) that by (simp add: settled_def)
  from settled_run [OF this] obtain q2 where
    run2: "push_run sqlite_newer ?cd (sv_config ?sv) a (now_ms (rn_store rq')) ?es (tabs (ap_db ap1), sqlite_counter (ap_db ap1)) =
      (map (retry_verdict t' cf a (now_ms (rn_store rq'))) ?es, t', q2)"
    using p(4) ap1 by auto
  have "sv_config ?sv = cf" by simp
  note said = retry_run [OF run, unfolded this]
  have len: "length vs = length ?es" using said by blast
  have "map (retry_verdict t' cf a (now_ms (rn_store rq'))) ?es = map (retry_verdict (tabs (ap_db ap)) cf a (now_ms (rn_store rq))) ?es"
    using retry_verdict_records [OF t'] assms(6) by (simp add: retry_verdict_def)
  also note conjunct2 [OF said]
  finally have again: "map (retry_verdict t' cf a (now_ms (rn_store rq'))) ?es = map (\<lambda>v. Refused (said_again v)) vs" .
  obtain resp2 ap2 where "push ?sv rq' body ap1 = (Inr resp2, ap2)" "tabs (ap_db ap2) = t'"
    "ps_accepted resp2 = concat (map accepted_of (zip ?es (map (\<lambda>v. Refused (said_again v)) vs)))"
    "ps_rejected resp2 = concat (map rejected_of (zip ?es (map (\<lambda>v. Refused (said_again v)) vs)))"
    using sqlite.push_ok [OF sv inv1 call fits' run2] unfolding again by metis
  then show ?thesis
    using p(1,4) ap1 answer len refused_all [OF len, of said_again]
    by (intro exI [of _ vs] exI [of _ resp] exI [of _ resp2] exI [of _ ap2]) (simp add: said_again_def)
qed

theorem retry_is_harmless_witness:
  "\<exists>resp ap2. push demo_server bob bob_push (snd (push demo_server bob bob_push shared_app)) = (Inr resp, ap2) \<and>
     ps_accepted resp = [] \<and> set (map rj_reason (ps_rejected resp)) = {Stale, ImplausibleClock}"
proof -
  have "sqlite_counter (ap_db shared_app) + 2 * int (length (pq_envelopes bob_push)) \<le> i64_max"
    by (simp add: shared_app_def sqlite_counter_def bob_push_def i64_max_def)
  from retry_is_harmless [OF shared_app_inv shared_callers(2) [unfolded demo_server_def] this refl
      shared_callers(2) [unfolded demo_server_def]]
  obtain vs first resp ap2 where first: "push demo_server bob bob_push shared_app = (Inr first, snd (push demo_server bob bob_push shared_app))"
    and vs: "length vs = length (pq_envelopes bob_push)" "ps_accepted first = concat (map accepted_of (zip (pq_envelopes bob_push) vs))"
      "ps_rejected first = concat (map rejected_of (zip (pq_envelopes bob_push) vs))"
    and again: "push demo_server bob bob_push (snd (push demo_server bob bob_push shared_app)) = (Inr resp, ap2)" "ps_accepted resp = []"
      "ps_rejected resp = map (\<lambda>(e, v). \<lparr>rj_id = e_id e, rj_kind = as_str (e_kind e),
        rj_reason = (case v of Refused r \<Rightarrow> r | AcceptedAt _ \<Rightarrow> Stale)\<rparr>) (zip (pq_envelopes bob_push) vs)"
    unfolding demo_server_def [symmetric] by blast
  have sv: "sv_store demo_server = sqlite_store (lib_codec sample_lib)" "sv_config demo_server = default_config" by (simp_all add: demo_server_def)
  obtain r ap' where "push demo_server bob bob_push shared_app = (Inr r, ap')"
    "ps_accepted r = concat (map accepted_of (zip (pq_envelopes bob_push) [AcceptedAt 8, Refused ImplausibleClock]))"
    "ps_rejected r = concat (map rejected_of (zip (pq_envelopes bob_push) [AcceptedAt 8, Refused ImplausibleClock]))"
    by (rule sqlite.push_ok [OF sv(1) shared_app_inv shared_callers(2) bob_fits bob_run [folded sv(2)]])
  with first have said: "map ac_seq (ps_accepted first) = [8]" "map rj_reason (ps_rejected first) = [ImplausibleClock]"
    by (simp_all add: accepted_of_def rejected_of_def bob_push_def)
  from vs(1) obtain v w where "vs = [v, w]" by (auto simp: bob_push_def length_Suc_conv)
  with said vs(2,3) have "set (map rj_reason (ps_rejected resp)) = {Stale, ImplausibleClock}"
    unfolding again(3) by (cases v; cases w) (auto simp: accepted_of_def rejected_of_def bob_push_def)
  with again show ?thesis by blast
qed

section \<open>The server's tie-break is the client's\<close>

lemma sqlite_newer_resolve: "sqlite_newer i s \<longleftrightarrow> resolve (row_clock s) (row_clock i) = TakeRemote"
  by (auto simp: sqlite_newer_def row_clock_def resolve_TakeRemote)

text \<open>C21: the server arbitrates as the clients do, and exactly when it compares bytes. On SQLite the upsert
  replaces a stored row precisely when \<open>resolve\<close> would take the remote version. On Postgres the same
  holds for every pair of rows if and only if the database collation compares device ids bytewise: under
  any other collation there are two versions on which the server and a client disagree forever.\<close>

theorem server_agrees_with_resolve:
  "(sqlite_newer i s \<longleftrightarrow> resolve (row_clock s) (row_clock i) = TakeRemote) \<and>
   ((\<forall>i s. pg_newer coll_gt i s \<longleftrightarrow> resolve (row_clock s) (row_clock i) = TakeRemote) \<longleftrightarrow> coll_gt = c_collation)"
proof (intro conjI iffI)
  show "sqlite_newer i s \<Longrightarrow> resolve (row_clock s) (row_clock i) = TakeRemote"
    and "resolve (row_clock s) (row_clock i) = TakeRemote \<Longrightarrow> sqlite_newer i s"
    by (simp_all add: sqlite_newer_resolve)
  show "\<forall>i s. pg_newer coll_gt i s \<longleftrightarrow> resolve (row_clock s) (row_clock i) = TakeRemote" if "coll_gt = c_collation"
    using that by (auto simp: pg_newer_def c_collation_def row_clock_def resolve_TakeRemote)
  show "coll_gt = c_collation" if all: "\<forall>i s. pg_newer coll_gt i s \<longleftrightarrow> resolve (row_clock s) (row_clock i) = TakeRemote"
  proof (intro ext)
    fix x y
    define row where "row d = (pushed_row sample_codec [] 0 sample_envelope)\<lparr>r_updated_at := 0, r_device_id := d\<rparr>" for d
    have "pg_newer coll_gt (row x) (row y) \<longleftrightarrow> coll_gt x y" by (simp add: pg_newer_def row_def)
    moreover have "resolve (row_clock (row y)) (row_clock (row x)) = TakeRemote \<longleftrightarrow> y < x"
      by (simp add: row_clock_def row_def resolve_TakeRemote)
    ultimately show "coll_gt x y = c_collation x y" using all by (simp add: c_collation_def)
  qed
qed

end
