(* ===== verification/Routes_Shares.thy ===== *)
theory Routes_Shares
  imports Sync
begin

text \<open>
  \<^verbatim>\<open>server/src/routes/shares.rs\<close>, \<^verbatim>\<open>server/src/routes/devices.rs\<close> and
  \<^verbatim>\<open>server/src/routes/instance.rs\<close>, and what sharing and revoking do to what an account can see
  and write.
\<close>

section \<open>Handlers\<close>

definition create_share :: "'s server \<Rightarrow> request \<Rightarrow> share_request \<Rightarrow> (error, 's app, unit) op" where
  "create_share sv rq body =
     bind_op (caller sv rq) (\<lambda>account_id.
     if sq_user_id body = account_id then err_op (BadRequest ''that group is already yours'')
     else bind_op (on_db (s_account_by_id (sv_store sv) (sq_user_id body))) (\<lambda>account.
     bind_op (ok_or NotFound account) (\<lambda>_.
     on_db (s_put_share (sv_store sv) (rn_store rq) account_id (sq_group_id body) (sq_user_id body)
       (sq_wrapped_group_key body)))))"

definition share_of :: "share_row \<Rightarrow> share" where
  "share_of r =
     \<lparr>sr_group_id = sw_group_id r, sr_owner_id = sw_owner_id r, sr_user_id = sw_user_id r,
      sr_email = sw_email r, sr_wrapped_group_key = sw_wrapped_group_key r, sr_created_at = sw_created_at r\<rparr>"

definition mine :: "'s server \<Rightarrow> request \<Rightarrow> (error, 's app, share list) op" where
  "mine sv rq =
     bind_op (caller sv rq) (\<lambda>account_id.
     bind_op (on_db (s_shares_for_user (sv_store sv) account_id)) (\<lambda>rows.
     ok_op (map share_of rows)))"

definition list_shares :: "'s server \<Rightarrow> request \<Rightarrow> string \<Rightarrow> (error, 's app, share list) op" where
  "list_shares sv rq group_id =
     bind_op (caller sv rq) (\<lambda>account_id.
     bind_op (on_db (s_shares_for_group (sv_store sv) account_id group_id)) (\<lambda>rows.
     ok_op (map share_of rows)))"

definition remove_share :: "'s server \<Rightarrow> request \<Rightarrow> string \<Rightarrow> string \<Rightarrow> (error, 's app, unit) op" where
  "remove_share sv rq group_id user_id =
     bind_op (caller sv rq) (\<lambda>account_id.
     on_db (s_delete_share (sv_store sv) account_id group_id user_id))"

definition device_of :: "device_row \<Rightarrow> device" where
  "device_of d = \<lparr>dv_device_id = dr_device_id d, dv_name = dr_name d, dv_last_seen = dr_last_seen d\<rparr>"

definition list_devices :: "'s server \<Rightarrow> request \<Rightarrow> (error, 's app, device list) op" where
  "list_devices sv rq =
     bind_op (caller sv rq) (\<lambda>account_id.
     bind_op (on_db (s_devices (sv_store sv) account_id)) (\<lambda>devices.
     ok_op (map device_of devices)))"

text \<open>\<open>CARGO_PKG_VERSION\<close> of the workspace, and \<open>FORMAT_VERSION\<close>
  of \<^verbatim>\<open>crates/remotier-sync-proto/src/lib.rs\<close>.\<close>

definition FORMAT_VERSION :: nat where
  "FORMAT_VERSION = 1"

definition pkg_version :: string where
  "pkg_version = ''0.1.0''"

definition info :: "'s server \<Rightarrow> instance_info" where
  "info sv =
     \<lparr>ii_name = cf_instance_name (sv_config sv), ii_version = pkg_version,
      ii_format_versions = [FORMAT_VERSION], ii_registration_open = cf_registration_open (sv_config sv)\<rparr>"

section \<open>What they do\<close>

text \<open>The share row a request writes, and the table with it in.\<close>

definition shared_row :: "request \<Rightarrow> string \<Rightarrow> share_request \<Rightarrow> share_db_row" where
  "shared_row rq a body = \<lparr>sh_group_id = sq_group_id body, sh_owner_id = a, sh_user_id = sq_user_id body,
     sh_wrapped_group_key = sq_wrapped_group_key body, sh_created_at = now_ms (rn_store rq)\<rparr>"

text \<open>The shares of an account with the address of each owner.\<close>

definition shares_seen :: "tables \<Rightarrow> string \<Rightarrow> share_row list" where
  "shares_seen t a = [share_from_row h x. h \<leftarrow> shares t, x \<leftarrow> accounts t, ar_id x = sh_owner_id h \<and> sh_user_id h = a]"

lemma shares_seen_iff: "s \<in> set (shares_seen t a) \<longleftrightarrow>
    (\<exists>h \<in> set (shares t). \<exists>x \<in> set (accounts t). ar_id x = sh_owner_id h \<and> sh_user_id h = a \<and> s = share_from_row h x)"
  unfolding shares_seen_def by auto

context store_contract
begin

lemma create_share_ok:
  assumes sv: "sv_store sv = st" and inv: "inv (ap_db ap)" and c: "fst (caller sv rq ap) = Inr a"
    and u: "sq_user_id body \<noteq> a" "has_account (tab (ap_db ap)) (sq_user_id body)"
  obtains ap1 where "create_share sv rq body ap = (Inr (), ap1)" "inv (ap_db ap1)" "ap_limit ap1 = ap_limit ap"
    "tab (ap_db ap1) = (tab (ap_db ap))\<lparr>shares :=
       fst (upsert share_key share_on_conflict (shared_row rq a body) (shares (tab (ap_db ap))))\<rparr>"
proof -
  have call: "caller sv rq ap = (Inr a, ap)" using c caller_read [OF sv] by (simp add: prod_eq_iff)
  from u(2) obtain r where r: "row_at ar_id (sq_user_id body) (accounts (tab (ap_db ap))) = Some r"
    by (cases "row_at ar_id (sq_user_id body) (accounts (tab (ap_db ap)))") (auto simp: row_at_None has_account_def)
  have byid: "on_db (s_account_by_id st (sq_user_id body)) ap = (Inr (Some (account_from_row r)), ap)"
    using r by (simp add: on_db_def account_by_id)
  let ?ap1 = "snd (on_db (s_put_share st (rn_store rq) a (sq_group_id body) (sq_user_id body) (sq_wrapped_group_key body)) ap)"
  note put = put_share [OF inv caller_account [OF sv inv c] u(2)]
  have "create_share sv rq body ap = (Inr (), ?ap1)"
    using put u(1) by (simp add: create_share_def sv bind_op_eqs(2) [of "caller sv rq", OF call]
        bind_op_eqs(2) [of "on_db (s_account_by_id st (sq_user_id body))", OF byid] prod_eq_iff)
  then show ?thesis
    by (rule that) (use put inv in \<open>simp_all add: put_share_inv shared_row_def\<close>)
qed

lemma remove_share_ok:
  assumes sv: "sv_store sv = st" and c: "fst (caller sv rq ap) = Inr a"
  shows "fst (remove_share sv rq g u ap) = Inr ()"
    and "tab (ap_db (snd (remove_share sv rq g u ap))) = (tab (ap_db ap))\<lparr>shares := filter (\<lambda>h.
      \<not> (sh_group_id h = g \<and> sh_owner_id h = a \<and> sh_user_id h = u)) (shares (tab (ap_db ap)))\<rparr>"
    and "inv (ap_db ap) \<Longrightarrow> inv (ap_db (snd (remove_share sv rq g u ap)))"
proof -
  have call: "caller sv rq ap = (Inr a, ap)" using c caller_read [OF sv] by (simp add: prod_eq_iff)
  have eq: "remove_share sv rq g u ap = on_db (s_delete_share st a g u) ap"
    by (simp add: remove_share_def sv bind_op_eqs(2) [of "caller sv rq", OF call])
  show "fst (remove_share sv rq g u ap) = Inr ()"
    and "tab (ap_db (snd (remove_share sv rq g u ap))) = (tab (ap_db ap))\<lparr>shares := filter (\<lambda>h.
      \<not> (sh_group_id h = g \<and> sh_owner_id h = a \<and> sh_user_id h = u)) (shares (tab (ap_db ap)))\<rparr>"
    and "inv (ap_db ap) \<Longrightarrow> inv (ap_db (snd (remove_share sv rq g u ap)))"
    using delete_share by (simp_all add: eq delete_share_inv)
qed

lemma mine_eq:
  assumes "sv_store sv = st" "fst (caller sv rq ap) = Inr a"
  shows "mine sv rq ap = (Inr (map share_of (shares_seen (tab (ap_db ap)) a)), ap)"
proof -
  have call: "caller sv rq ap = (Inr a, ap)" using assms caller_read by (simp add: prod_eq_iff)
  have rows: "on_db (s_shares_for_user st a) ap = (Inr (shares_seen (tab (ap_db ap)) a), ap)"
    by (simp add: on_db_def shares_for_user shares_seen_def)
  show ?thesis
    unfolding mine_def assms(1) bind_op_eqs(2) [of "caller sv rq", OF call]
      bind_op_eqs(2) [of "on_db (s_shares_for_user st a)", OF rows]
    by (simp only: ok_op_def)
qed

text \<open>A change of the shares that an account is not the member of leaves its pulls as they were.\<close>

lemma pull_unaffected:
  assumes sv: "sv_store sv = st" and inv: "inv (ap_db ap)" "inv (ap_db ap1)" and c: "fst (caller sv rq ap) = Inr b"
    and sane: "0 < cf_max_page (sv_config sv)" "cf_max_page (sv_config sv) < i64_max"
    and tabs: "tab (ap_db ap1) = (tab (ap_db ap))\<lparr>shares := ss\<rparr>"
    and same: "\<And>g. shared_with (tab (ap_db ap1)) g b = shared_with (tab (ap_db ap)) g b"
  shows "fst (pull sv rq cur ap1) = fst (pull sv rq cur ap)" "pull_loop n sv rq cur ap1 = pull_loop n sv rq cur ap"
proof -
  have c1: "fst (caller sv rq ap1) = Inr b" using caller_tokens [OF sv, of ap1 ap] c by (simp add: tabs)
  have "visible (tab (ap_db ap1)) b = visible (tab (ap_db ap)) b"
    unfolding visible_def same ..
  then have log: "log_after (tab (ap_db ap1)) b cur = log_after (tab (ap_db ap)) b cur" for cur
    by (simp add: log_after_def) (simp add: tabs)
  note pull = pull_ok [OF sv inv(1) c sane] pull_ok [OF sv inv(2) c1 sane]
  show "fst (pull sv rq cur ap1) = fst (pull sv rq cur ap)" by (simp add: pull log)
  show "pull_loop n sv rq cur ap1 = pull_loop n sv rq cur ap"
    by (induction n arbitrary: cur) (simp_all add: pull log)
qed

end

section \<open>Sharing\<close>

lemma upsert_shared_row:
  assumes "row_at share_key (sq_group_id body, sq_user_id body) ss = None"
  shows "fst (upsert share_key share_on_conflict (shared_row rq a body) ss) = ss @ [shared_row rq a body]"
  using assms by (simp add: upsert_def share_key_def shared_row_def)

lemma shared_with_upsert:
  "shared_with (t\<lparr>shares := fst (upsert share_key share_on_conflict (shared_row rq a body) (shares t))\<rparr>)
     (sq_group_id body) (sq_user_id body)"
proof -
  let ?ss = "fst (upsert share_key share_on_conflict (shared_row rq a body) (shares t))"
  have "snd (upsert share_key share_on_conflict (shared_row rq a body) (shares t)) \<noteq> None"
    by (simp add: upsert_returns share_on_conflict_def split: option.split)
  then obtain h where "row_at share_key (share_key (shared_row rq a body)) ?ss = Some h"
    unfolding share_table.row_at_same by auto
  from row_at_Some [OF this] have "h \<in> set ?ss" "share_key h = share_key (shared_row rq a body)" by simp_all
  then show ?thesis by (auto simp: shared_with_def share_key_def shared_row_def)
qed

lemma new_share_listed:
  assumes "sqlite_inv (lib_codec lib) (ap_db ap)" "fst (caller (sqlite_server cf lib dummy) rq ap) = Inr a"
    and "sq_user_id body \<noteq> a" "has_account (tabs (ap_db ap)) (sq_user_id body)"
    and "row_at share_key (sq_group_id body, sq_user_id body) (shares (tabs (ap_db ap))) = None"
  obtains ap1 x where "create_share (sqlite_server cf lib dummy) rq body ap = (Inr (), ap1)"
    "sqlite_inv (lib_codec lib) (ap_db ap1)"
    "tabs (ap_db ap1) = (tabs (ap_db ap))\<lparr>shares := shares (tabs (ap_db ap)) @ [shared_row rq a body]\<rparr>"
    "x \<in> set (map share_of (shares_seen (tabs (ap_db ap1)) (sq_user_id body)))"
    "sr_group_id x = sq_group_id body" "sr_owner_id x = a" "sr_wrapped_group_key x = sq_wrapped_group_key body"
    "\<exists>o' \<in> set (accounts (tabs (ap_db ap))). ar_id o' = a \<and> sr_email x = ar_email o'"
proof -
  let ?sv = "sqlite_server cf lib dummy" and ?row = "shared_row rq a body"
  have sv: "sv_store ?sv = sqlite_store (lib_codec lib)" by simp
  obtain ap1 where ap1: "create_share ?sv rq body ap = (Inr (), ap1)" "sqlite_inv (lib_codec lib) (ap_db ap1)"
    "ap_limit ap1 = ap_limit ap" "tabs (ap_db ap1) = (tabs (ap_db ap))\<lparr>shares :=
       fst (upsert share_key share_on_conflict ?row (shares (tabs (ap_db ap))))\<rparr>"
    by (rule sqlite.create_share_ok [OF sv assms(1-4)])
  have tabs1: "tabs (ap_db ap1) = (tabs (ap_db ap))\<lparr>shares := shares (tabs (ap_db ap)) @ [?row]\<rparr>"
    using ap1(4) upsert_shared_row [OF assms(5)] by simp
  have "has_account (tabs (ap_db ap)) a" by (rule sqlite.caller_account [OF sv assms(1,2)])
  then obtain o' where o': "o' \<in> set (accounts (tabs (ap_db ap)))" "ar_id o' = a" by (auto simp: has_account_def)
  have "share_from_row ?row o' \<in> set (shares_seen (tabs (ap_db ap1)) (sq_user_id body))"
    unfolding shares_seen_iff tabs1 using o' by (intro bexI [where x = ?row] bexI [where x = o']) (simp_all add: shared_row_def)
  then have "share_of (share_from_row ?row o') \<in> set (map share_of (shares_seen (tabs (ap_db ap1)) (sq_user_id body)))"
    unfolding list.set_map by (rule imageI)
  from that [OF ap1(1,2) tabs1 this] o' show ?thesis by (auto simp: share_of_def share_from_row_def shared_row_def)
qed

text \<open>Sharing and revoking draw no sequence number.\<close>

lemma create_share_counter:
  assumes "create_share (sqlite_server cf lib dummy) rq body ap = (res, ap1)"
  shows "sqlite_counter (ap_db ap1) = sqlite_counter (ap_db ap)"
proof -
  have "keeps (\<lambda>db. sequence db = n) (s_take_token (sqlite_store cd) now h k)"
    "keeps (\<lambda>db. sequence db = n) (s_account_by_id (sqlite_store cd) i)"
    "keeps (\<lambda>db. sequence db = n) (s_put_share (sqlite_store cd) now a g u w)" for n cd now h k i a g u w
    by (simp_all add: keeps_def sqlite_store_def sqlite_take_token_def sqlite_account_by_id_def sqlite_put_share_def
        split: sum.splits)
  then have "keeps (\<lambda>ap. sequence (ap_db ap) = n) (create_share (sqlite_server cf lib dummy) rq body)" for n
    unfolding create_share_def caller_def server_simps by (intro keeps_intros)
  from keepsD' [OF this, of ap "sequence (ap_db ap)"] assms show ?thesis by (simp add: sqlite_counter_def)
qed

lemma remove_share_counter:
  "sqlite_counter (ap_db (snd (remove_share (sqlite_server cf lib dummy) rq g u ap))) = sqlite_counter (ap_db ap)"
proof -
  have "keeps (\<lambda>db. sequence db = n) (s_take_token (sqlite_store cd) now h k)"
    "keeps (\<lambda>db. sequence db = n) (s_delete_share (sqlite_store cd) a g u)" for n cd now h k a g u
    by (simp_all add: keeps_def sqlite_store_def sqlite_take_token_def sqlite_delete_share_def)
  then have "keeps (\<lambda>ap. sequence (ap_db ap) = n) (remove_share (sqlite_server cf lib dummy) rq g u)" for n
    unfolding remove_share_def caller_def server_simps by (intro keeps_intros)
  from keepsD [OF this, of ap "sequence (ap_db ap)"] show ?thesis by (simp add: sqlite_counter_def)
qed

text \<open>C35: what a share gives. When an account shares a group with another existing account for the first time,
  the request succeeds. The member then lists the share with the wrapped key meant for it, the owner and the owner's
  address. Following the cursor of pull from any number, it gets every stored record above that number that carries the
  group's id, besides the ones it could see before, and nothing else; and a record of the group that is stored later is
  one it may see. The pulls of every other account, page by page and to the end, answer what they would have answered
  without the share.\<close>

theorem share_reaches_its_member:
  assumes "sqlite_inv (lib_codec lib) (ap_db ap)" "fst (caller (sqlite_server cf lib dummy) rq ap) = Inr a"
    and "sq_user_id body \<noteq> a" "has_account (tabs (ap_db ap)) (sq_user_id body)"
    and "row_at share_key (sq_group_id body, sq_user_id body) (shares (tabs (ap_db ap))) = None"
    and "fst (caller (sqlite_server cf lib dummy) rq' ap) = Inr (sq_user_id body)"
    and "0 < cf_max_page cf" "cf_max_page cf < i64_max"
    and "0 < n" "length (records (tabs (ap_db ap))) \<le> n * nat (cf_max_page cf)"
    and "ap1 = snd (create_share (sqlite_server cf lib dummy) rq body ap)"
  shows "fst (create_share (sqlite_server cf lib dummy) rq body ap) = Inr () \<and>
    (\<exists>ss x. fst (mine (sqlite_server cf lib dummy) rq' ap1) = Inr ss \<and> x \<in> set ss \<and>
       sr_group_id x = sq_group_id body \<and> sr_owner_id x = a \<and> sr_wrapped_group_key x = sq_wrapped_group_key body \<and>
       (\<exists>o' \<in> set (accounts (tabs (ap_db ap))). ar_id o' = a \<and> sr_email x = ar_email o')) \<and>
    (\<forall>c. \<exists>rs c'. pull_loop n (sqlite_server cf lib dummy) rq' c ap1 = Some (Inr (map (row_envelope (lib_codec lib)) rs, c')) \<and>
       set rs = {r \<in> set (records (tabs (ap_db ap))). c < r_seq r \<and>
         (r_group_id r = Some (sq_group_id body) \<or> visible (tabs (ap_db ap)) (sq_user_id body) r)}) \<and>
    (\<forall>r. r_group_id r = Some (sq_group_id body) \<longrightarrow> visible (tabs (ap_db ap1)) (sq_user_id body) r) \<and>
    (\<forall>rq'' b c m. fst (caller (sqlite_server cf lib dummy) rq'' ap) = Inr b \<longrightarrow> b \<noteq> sq_user_id body \<longrightarrow>
       fst (pull (sqlite_server cf lib dummy) rq'' c ap1) = fst (pull (sqlite_server cf lib dummy) rq'' c ap) \<and>
       pull_loop m (sqlite_server cf lib dummy) rq'' c ap1 = pull_loop m (sqlite_server cf lib dummy) rq'' c ap)"
proof -
  let ?sv = "sqlite_server cf lib dummy" and ?u = "sq_user_id body" and ?g = "sq_group_id body"
  have sv: "sv_store ?sv = sqlite_store (lib_codec lib)" "0 < cf_max_page (sv_config ?sv)" "cf_max_page (sv_config ?sv) < i64_max"
    using assms(7,8) by simp_all
  obtain ap' x where ap': "create_share ?sv rq body ap = (Inr (), ap')" "sqlite_inv (lib_codec lib) (ap_db ap')"
    "tabs (ap_db ap') = (tabs (ap_db ap))\<lparr>shares := shares (tabs (ap_db ap)) @ [shared_row rq a body]\<rparr>"
    "x \<in> set (map share_of (shares_seen (tabs (ap_db ap')) ?u))"
    "sr_group_id x = ?g" "sr_owner_id x = a" "sr_wrapped_group_key x = sq_wrapped_group_key body"
    "\<exists>o' \<in> set (accounts (tabs (ap_db ap))). ar_id o' = a \<and> sr_email x = ar_email o'"
    by (rule new_share_listed [OF assms(1-5)])
  then have ap1: "ap' = ap1" using assms(11) by simp
  note tabs1 = ap'(3) [unfolded ap1] and inv1 = ap'(2) [unfolded ap1]
  have call: "fst (caller ?sv rq' ap1) = Inr ?u"
    using sqlite.caller_tokens [OF sv(1), of ap1 ap] assms(6) by (simp add: tabs1)
  have "\<exists>ss x. fst (mine ?sv rq' ap1) = Inr ss \<and> x \<in> set ss \<and> sr_group_id x = ?g \<and>
      sr_owner_id x = a \<and> sr_wrapped_group_key x = sq_wrapped_group_key body \<and>
      (\<exists>o' \<in> set (accounts (tabs (ap_db ap))). ar_id o' = a \<and> sr_email x = ar_email o')"
    unfolding sqlite.mine_eq [OF sv(1) call] fst_conv using ap'(4-8) ap1 by blast
  moreover have seen: "visible (tabs (ap_db ap1)) ?u r \<longleftrightarrow> r_group_id r = Some ?g \<or> visible (tabs (ap_db ap)) ?u r" for r
    by (auto simp: tabs1 visible_def shared_with_def shared_row_def split: option.splits)
  have "length (log_after (tabs (ap_db ap1)) ?u c) \<le> n * nat (cf_max_page (sv_config ?sv))" for c
    using length_log_after [of "tabs (ap_db ap1)" ?u c] assms(10) by (simp add: tabs1)
  from sqlite.pull_loop_ok [OF sv(1) inv1 call sv(2,3) assms(9) this]
  have "\<forall>c. \<exists>rs c'. pull_loop n ?sv rq' c ap1 = Some (Inr (map (row_envelope (lib_codec lib)) rs, c')) \<and>
      set rs = {r \<in> set (records (tabs (ap_db ap))). c < r_seq r \<and> (r_group_id r = Some ?g \<or> visible (tabs (ap_db ap)) ?u r)}"
    by (intro allI exI conjI) (assumption, simp add: set_log_after seen, simp add: tabs1)
  moreover have "fst (pull ?sv rq'' c ap1) = fst (pull ?sv rq'' c ap) \<and> pull_loop m ?sv rq'' c ap1 = pull_loop m ?sv rq'' c ap"
    if "fst (caller ?sv rq'' ap) = Inr b" "b \<noteq> ?u" for rq'' b c m
    using sqlite.pull_unaffected [OF sv(1) assms(1) inv1 that(1) sv(2,3) tabs1] that(2)
    by (simp add: tabs1 shared_with_def shared_row_def)
  ultimately show ?thesis using ap'(1) seen by simp
qed

section \<open>Revoking\<close>

text \<open>What a batch comes to when some of its envelopes may not be written.\<close>

lemma refused_simps:
  "accepted_of (e, Refused r) = []"
  "rejected_of (e, Refused r) = [\<lparr>rj_id = e_id e, rj_kind = as_str (e_kind e), rj_reason = r\<rparr>]"
  by (simp_all add: accepted_of_def rejected_of_def)

lemma push_run_without:
  assumes "\<And>e. p e \<Longrightarrow> push_target t a e = None"
  shows "push_run newer cd cf a now es (t, q) = (vs, t', q') \<Longrightarrow>
    \<exists>ws. push_run newer cd cf a now (filter (\<lambda>e. \<not> p e) es) (t, q) = (ws, t', q') \<and>
      concat (map accepted_of (zip (filter (\<lambda>e. \<not> p e) es) ws)) = concat (map accepted_of (zip es vs)) \<and>
      (\<forall>e \<in> set es. p e \<longrightarrow> \<lparr>rj_id = e_id e, rj_kind = as_str (e_kind e),
        rj_reason = (case refuse e now cf of Some r \<Rightarrow> r | None \<Rightarrow> NotAMember)\<rparr> \<in> set (concat (map rejected_of (zip es vs))))"
  using assms
proof (induction es arbitrary: t q vs)
  case Nil
  then show ?case by simp
next
  case (Cons e es)
  obtain v t1 q1 where spec: "push_spec newer cd cf a now e (t, q) = (v, t1, q1)" by (metis prod_cases3)
  with Cons.prems(1) obtain us where run: "push_run newer cd cf a now es (t1, q1) = (us, t', q')" "vs = v # us"
    by (auto split: prod.splits)
  have "push_target t1 a x = push_target t a x" for x by (metis push_spec_same [OF spec] push_target_records)
  with Cons.prems(2) have "p x \<Longrightarrow> push_target t1 a x = None" for x by simp
  from Cons.IH [OF run(1) this] obtain ws where ws: "push_run newer cd cf a now (filter (\<lambda>e. \<not> p e) es) (t1, q1) = (ws, t', q')"
    "concat (map accepted_of (zip (filter (\<lambda>e. \<not> p e) es) ws)) = concat (map accepted_of (zip es us))"
    "\<forall>e \<in> set es. p e \<longrightarrow> \<lparr>rj_id = e_id e, rj_kind = as_str (e_kind e),
        rj_reason = (case refuse e now cf of Some r \<Rightarrow> r | None \<Rightarrow> NotAMember)\<rparr> \<in> set (concat (map rejected_of (zip es us)))"
    by blast
  show ?case
  proof (cases "p e")
    case True
    with Cons.prems(2) have "v = Refused (case refuse e now cf of Some r \<Rightarrow> r | None \<Rightarrow> NotAMember)" "t1 = t" "q1 = q"
      using spec by (auto simp: push_spec_def split: option.splits)
    with True ws show ?thesis by (simp add: run(2) refused_simps)
  next
    case False
    with spec ws show ?thesis by (intro exI [of _ "v # ws"]) (auto simp: run(2))
  qed
qed

context store_contract
begin

lemma push_without:
  assumes sv: "sv_store sv = st" and inv: "inv (ap_db ap)" and c: "fst (caller sv rq ap) = Inr u"
    and len: "counter (ap_db ap) + int (length (pq_envelopes body)) \<le> i64_max"
    and none: "\<And>e. p e \<Longrightarrow> push_target (tab (ap_db ap)) u e = None"
    and p: "push sv rq body ap = (Inr resp, ap2)"
  shows "(\<forall>e \<in> set (pq_envelopes body). p e \<longrightarrow> \<lparr>rj_id = e_id e, rj_kind = as_str (e_kind e),
        rj_reason = (case refuse e (now_ms (rn_store rq)) (sv_config sv) of Some r \<Rightarrow> r | None \<Rightarrow> NotAMember)\<rparr> \<in> set (ps_rejected resp)) \<and>
    (\<exists>resp' ap2'. push sv rq \<lparr>pq_envelopes = filter (\<lambda>e. \<not> p e) (pq_envelopes body)\<rparr> ap = (Inr resp', ap2') \<and>
       ps_accepted resp' = ps_accepted resp \<and> tab (ap_db ap2') = tab (ap_db ap2))"
proof -
  let ?fs = "filter (\<lambda>e. \<not> p e) (pq_envelopes body)"
  obtain vs t' q' where run: "push_run newer cd (sv_config sv) u (now_ms (rn_store rq)) (pq_envelopes body)
      (tab (ap_db ap), counter (ap_db ap)) = (vs, t', q')"
    by (metis prod_cases3)
  obtain ws where ws: "push_run newer cd (sv_config sv) u (now_ms (rn_store rq)) ?fs (tab (ap_db ap), counter (ap_db ap)) = (ws, t', q')"
    "concat (map accepted_of (zip ?fs ws)) = concat (map accepted_of (zip (pq_envelopes body) vs))"
    "\<forall>e \<in> set (pq_envelopes body). p e \<longrightarrow> \<lparr>rj_id = e_id e, rj_kind = as_str (e_kind e),
        rj_reason = (case refuse e (now_ms (rn_store rq)) (sv_config sv) of Some r \<Rightarrow> r | None \<Rightarrow> NotAMember)\<rparr>
      \<in> set (concat (map rejected_of (zip (pq_envelopes body) vs)))"
    using push_run_without [OF none run] by blast
  obtain resp1 ap1 where one: "push sv rq body ap = (Inr resp1, ap1)" "tab (ap_db ap1) = t'"
    "ps_accepted resp1 = concat (map accepted_of (zip (pq_envelopes body) vs))"
    "ps_rejected resp1 = concat (map rejected_of (zip (pq_envelopes body) vs))"
    by (rule push_ok [OF sv inv c len run])
  have "int (length ?fs) \<le> int (length (pq_envelopes body))" by simp
  from order_trans [OF add_left_mono [OF this] len]
  have len': "counter (ap_db ap) + int (length (pq_envelopes \<lparr>pq_envelopes = ?fs\<rparr>)) \<le> i64_max" by simp
  obtain resp' ap2' where "push sv rq \<lparr>pq_envelopes = ?fs\<rparr> ap = (Inr resp', ap2')" "tab (ap_db ap2') = t'"
    "ps_accepted resp' = concat (map accepted_of (zip ?fs ws))"
    using push_ok [OF sv inv c len', of ws t' q'] ws(1) by (metis push_request.select_convs(1))
  with one p ws(2,3) show ?thesis by auto
qed

lemma push_adds:
  assumes sv: "sv_store sv = st" and inv: "inv (ap_db ap)" and c: "fst (caller sv rq ap) = Inr u"
    and len: "counter (ap_db ap) + int (length (pq_envelopes body)) \<le> i64_max"
  obtains resp ap2 where "push sv rq body ap = (Inr resp, ap2)"
    "\<And>r. r \<in> set (records (tab (ap_db ap2))) - set (records (tab (ap_db ap))) \<Longrightarrow>
      \<exists>e \<in> set (pq_envelopes body). push_target (tab (ap_db ap)) u e = Some (r_account_id r) \<and>
        r = pushed_row cd (r_account_id r) (r_seq r) e"
proof -
  obtain vs t' q' where run: "push_run newer cd (sv_config sv) u (now_ms (rn_store rq)) (pq_envelopes body)
      (tab (ap_db ap), counter (ap_db ap)) = (vs, t', q')"
    by (metis prod_cases3)
  obtain resp ap2 where "push sv rq body ap = (Inr resp, ap2)" "tab (ap_db ap2) = t'"
    by (rule push_ok [OF sv inv c len run])
  moreover have "\<exists>e \<in> set (pq_envelopes body). push_target (tab (ap_db ap)) u e = Some (r_account_id r) \<and>
        r = pushed_row cd (r_account_id r) (r_seq r) e"
    if r: "r \<in> set (records t') - set (records (tab (ap_db ap)))" for r
    using push_run_new [OF run, of r] r by (metis DiffE pushed_row_fields(1))
  ultimately show ?thesis using that by blast
qed

end

text \<open>The shares after a removal by the owner of a share, and where the member's envelopes then go.\<close>

lemma removed_share:
  assumes "sqlite_inv (lib_codec lib) (ap_db ap)" "fst (caller (sqlite_server cf lib dummy) rq ap) = Inr a"
    and "row_at share_key (g, u) (shares (tabs (ap_db ap))) = Some h"
    and "ap1 = snd (remove_share (sqlite_server cf lib dummy) rq g u ap)"
  shows "sh_owner_id h \<noteq> a \<Longrightarrow> tabs (ap_db ap1) = tabs (ap_db ap)"
    and "sh_owner_id h = a \<Longrightarrow> tabs (ap_db ap1) = (tabs (ap_db ap))\<lparr>shares := filter (\<lambda>s. \<not> (sh_group_id s = g \<and> sh_user_id s = u)) (shares (tabs (ap_db ap)))\<rparr>"
proof -
  let ?t = "tabs (ap_db ap)"
  have h: "h \<in> set (shares ?t)" "sh_group_id h = g" "sh_user_id h = u"
    using row_at_Some [OF assms(3)] by (simp_all add: share_key_def)
  have distinct: "distinct (map share_key (shares ?t))" using sqlite.inv_tables [OF assms(1)] by (simp add: tables_ok_defs)
  have only: "s = h" if "s \<in> set (shares ?t)" "sh_group_id s = g" "sh_user_id s = u" for s
    using distinct that h by (auto simp: distinct_map inj_on_def share_key_def)
  have t1: "tabs (ap_db ap1) = ?t\<lparr>shares := filter (\<lambda>x. \<not> (sh_group_id x = g \<and> sh_owner_id x = a \<and> sh_user_id x = u)) (shares ?t)\<rparr>"
    using sqlite.remove_share_ok(2) [of "sqlite_server cf lib dummy" "lib_codec lib", OF _ assms(2)] by (simp add: assms(4))
  show "tabs (ap_db ap1) = ?t" if ne: "sh_owner_id h \<noteq> a"
  proof -
    have "filter (\<lambda>x. \<not> (sh_group_id x = g \<and> sh_owner_id x = a \<and> sh_user_id x = u)) (shares ?t) = shares ?t"
      using only ne by (intro filter_True) blast
    then show ?thesis by (simp add: t1)
  qed
  show "tabs (ap_db ap1) = ?t\<lparr>shares := filter (\<lambda>s. \<not> (sh_group_id s = g \<and> sh_user_id s = u)) (shares ?t)\<rparr>" if "sh_owner_id h = a"
    using only that by (auto simp: t1 intro!: arg_cong [where f = "\<lambda>s. ?t\<lparr>shares := s\<rparr>"] filter_cong)
qed

lemma push_target_outside:
  assumes "e_key_ref e = GroupKey g" "\<not> in_group t u g"
  shows "push_target t u e = (if group_shared t g then None else Some u)"
  using assms by (simp add: push_target_def)

text \<open>What a push comes to under the key of a group its caller is not in.\<close>

lemma push_from_outside:
  fixes body :: push_request
  assumes inv1: "sqlite_inv (lib_codec lib) (ap_db ap1)" and call: "fst (caller (sqlite_server cf lib dummy) rq' ap1) = Inr u"
    and room: "sqlite_counter (ap_db ap1) + int (length (pq_envelopes body)) \<le> i64_max"
    and out: "\<not> in_group (tabs (ap_db ap1)) u g"
  shows "\<exists>resp ap2. push (sqlite_server cf lib dummy) rq' body ap1 = (Inr resp, ap2) \<and>
      (\<forall>r \<in> set (records (tabs (ap_db ap2))) - set (records (tabs (ap_db ap1))). r_account_id r = u \<or>
        (\<exists>e \<in> set (pq_envelopes body). e_key_ref e \<noteq> GroupKey g \<and> r = pushed_row (lib_codec lib) (r_account_id r) (r_seq r) e)) \<and>
      (group_shared (tabs (ap_db ap1)) g \<longrightarrow>
        (\<forall>e \<in> set (pq_envelopes body). e_key_ref e = GroupKey g \<longrightarrow> \<lparr>rj_id = e_id e, rj_kind = as_str (e_kind e),
          rj_reason = (case refuse e (now_ms (rn_store rq')) cf of Some r \<Rightarrow> r | None \<Rightarrow> NotAMember)\<rparr> \<in> set (ps_rejected resp)) \<and>
        (\<exists>resp' ap2'. push (sqlite_server cf lib dummy) rq' \<lparr>pq_envelopes = filter (\<lambda>e. e_key_ref e \<noteq> GroupKey g) (pq_envelopes body)\<rparr> ap1 = (Inr resp', ap2') \<and>
          ps_accepted resp' = ps_accepted resp \<and> tabs (ap_db ap2') = tabs (ap_db ap2)))"
proof -
  let ?sv = "sqlite_server cf lib dummy"
  have sv: "sv_store ?sv = sqlite_store (lib_codec lib)" by simp
  obtain resp ap2 where p: "push ?sv rq' body ap1 = (Inr resp, ap2)"
    "\<And>r. r \<in> set (records (tabs (ap_db ap2))) - set (records (tabs (ap_db ap1))) \<Longrightarrow> \<exists>e \<in> set (pq_envelopes body).
      push_target (tabs (ap_db ap1)) u e = Some (r_account_id r) \<and> r = pushed_row (lib_codec lib) (r_account_id r) (r_seq r) e"
    by (rule sqlite.push_adds [OF sv inv1 call room]) blast
  have "r_account_id r = u \<or> (\<exists>e \<in> set (pq_envelopes body). e_key_ref e \<noteq> GroupKey g \<and> r = pushed_row (lib_codec lib) (r_account_id r) (r_seq r) e)"
    if "r \<in> set (records (tabs (ap_db ap2))) - set (records (tabs (ap_db ap1)))" for r
    using p(2) [OF that] push_target_outside [OF _ out] by (metis option.discI option.inject)
  moreover have "push_target (tabs (ap_db ap1)) u e = None" if "group_shared (tabs (ap_db ap1)) g" "e_key_ref e = GroupKey g" for e
    using push_target_outside [OF that(2) out] that(1) by simp
  note sqlite.push_without [OF sv inv1 call room this p(1)]
  ultimately show ?thesis
    using p(1) by (intro exI [of _ resp] exI [of _ ap2]) simp
qed

text \<open>C36: what a revocation takes away. The removal always succeeds; by anyone but the owner of the share it changes nothing. When
  the owner removes it, no page of the member's pulls, from any cursor, holds a record of the group that is not filed
  under the member's own account, and the pulls of every other account answer as before. Provided the member has not itself
  shared the group with somebody, a push of the member files nothing under the group's key but under its own account; and as long as the group is still
  shared with anyone at all, every envelope under that key is rejected, as not a member's unless it fails the clock or size check first, and
  the push accepts and stores what it would have without those envelopes.\<close>

theorem revocation_stops_the_member:
  assumes "sqlite_inv (lib_codec lib) (ap_db ap)" "fst (caller (sqlite_server cf lib dummy) rq ap) = Inr a"
    and "row_at share_key (g, u) (shares (tabs (ap_db ap))) = Some h"
    and "fst (caller (sqlite_server cf lib dummy) rq' ap) = Inr u"
    and "0 < cf_max_page cf" "cf_max_page cf < i64_max"
    and "ap1 = snd (remove_share (sqlite_server cf lib dummy) rq g u ap)"
  shows "fst (remove_share (sqlite_server cf lib dummy) rq g u ap) = Inr () \<and>
    (sh_owner_id h \<noteq> a \<longrightarrow> tabs (ap_db ap1) = tabs (ap_db ap)) \<and>
    (sh_owner_id h = a \<longrightarrow>
      (\<forall>c. \<exists>p. pull (sqlite_server cf lib dummy) rq' c ap1 = (Inr p, ap1) \<and>
        (\<forall>x \<in> set (pr_envelopes p). \<exists>r \<in> set (records (tabs (ap_db ap))). x = row_envelope (lib_codec lib) r \<and>
          (r_group_id r = Some g \<longrightarrow> r_account_id r = u))) \<and>
      (\<forall>rq'' b c. fst (caller (sqlite_server cf lib dummy) rq'' ap) = Inr b \<longrightarrow> b \<noteq> u \<longrightarrow>
        fst (pull (sqlite_server cf lib dummy) rq'' c ap1) = fst (pull (sqlite_server cf lib dummy) rq'' c ap)) \<and>
      (\<forall>body. sqlite_counter (ap_db ap) + int (length (pq_envelopes body)) \<le> i64_max \<longrightarrow>
        (\<forall>s \<in> set (shares (tabs (ap_db ap))). sh_group_id s = g \<longrightarrow> sh_owner_id s \<noteq> u) \<longrightarrow>
        (\<exists>resp ap2. push (sqlite_server cf lib dummy) rq' body ap1 = (Inr resp, ap2) \<and>
          (\<forall>r \<in> set (records (tabs (ap_db ap2))) - set (records (tabs (ap_db ap1))). r_account_id r = u \<or>
            (\<exists>e \<in> set (pq_envelopes body). e_key_ref e \<noteq> GroupKey g \<and> r = pushed_row (lib_codec lib) (r_account_id r) (r_seq r) e)) \<and>
          (group_shared (tabs (ap_db ap1)) g \<longrightarrow>
            (\<forall>e \<in> set (pq_envelopes body). e_key_ref e = GroupKey g \<longrightarrow> \<lparr>rj_id = e_id e, rj_kind = as_str (e_kind e),
              rj_reason = (case refuse e (now_ms (rn_store rq')) cf of Some r \<Rightarrow> r | None \<Rightarrow> NotAMember)\<rparr> \<in> set (ps_rejected resp)) \<and>
            (\<exists>resp' ap2'. push (sqlite_server cf lib dummy) rq'
                \<lparr>pq_envelopes = filter (\<lambda>e. e_key_ref e \<noteq> GroupKey g) (pq_envelopes body)\<rparr> ap1 = (Inr resp', ap2') \<and>
              ps_accepted resp' = ps_accepted resp \<and> tabs (ap_db ap2') = tabs (ap_db ap2))))))"
proof (intro conjI impI allI)
  let ?sv = "sqlite_server cf lib dummy" and ?cd = "lib_codec lib" and ?t = "tabs (ap_db ap)"
  have sv: "sv_store ?sv = sqlite_store ?cd" "0 < cf_max_page (sv_config ?sv)" "cf_max_page (sv_config ?sv) < i64_max"
    using assms(5,6) by simp_all
  note removed = removed_share [OF assms(1-3,7)]
  show "fst (remove_share ?sv rq g u ap) = Inr ()" by (rule sqlite.remove_share_ok(1) [OF sv(1) assms(2)])
  show "sh_owner_id h \<noteq> a \<Longrightarrow> tabs (ap_db ap1) = ?t" by (rule removed(1))
  assume owner: "sh_owner_id h = a"
  note t1 = removed(2) [OF owner]
  have inv1: "sqlite_inv ?cd (ap_db ap1)" using sqlite.remove_share_ok(3) [OF sv(1) assms(2,1)] by (simp add: assms(7))
  have call: "fst (caller ?sv rq' ap1) = Inr u" using sqlite.caller_tokens [OF sv(1), of ap1 ap] assms(4) by (simp add: t1)
  show "\<exists>p. pull ?sv rq' c ap1 = (Inr p, ap1) \<and> (\<forall>x \<in> set (pr_envelopes p). \<exists>r \<in> set (records ?t).
      x = row_envelope ?cd r \<and> (r_group_id r = Some g \<longrightarrow> r_account_id r = u))" for c
    using sqlite.pull_ok [OF sv(1) inv1 call sv(2,3), of c]
    by (auto simp: sqlite.page_of_def set_log_after visible_def shared_with_def t1 dest!: in_set_takeD)
  show "fst (pull ?sv rq'' c ap1) = fst (pull ?sv rq'' c ap)" if "fst (caller ?sv rq'' ap) = Inr b" "b \<noteq> u" for rq'' b c
    by (rule sqlite.pull_unaffected(1) [OF sv(1) assms(1) inv1 that(1) sv(2,3) t1]) (use that(2) in \<open>auto simp: t1 shared_with_def\<close>)
  fix body :: push_request
  assume "sqlite_counter (ap_db ap) + int (length (pq_envelopes body)) \<le> i64_max"
  then have room: "sqlite_counter (ap_db ap1) + int (length (pq_envelopes body)) \<le> i64_max"
    by (simp add: assms(7) remove_share_counter)
  assume "\<forall>s \<in> set (shares ?t). sh_group_id s = g \<longrightarrow> sh_owner_id s \<noteq> u"
  then have out: "\<not> in_group (tabs (ap_db ap1)) u g" by (auto simp: t1 in_group_def list_ex_iff)
  show "\<exists>resp ap2. push ?sv rq' body ap1 = (Inr resp, ap2) \<and>
      (\<forall>r \<in> set (records (tabs (ap_db ap2))) - set (records (tabs (ap_db ap1))). r_account_id r = u \<or>
        (\<exists>e \<in> set (pq_envelopes body). e_key_ref e \<noteq> GroupKey g \<and> r = pushed_row (lib_codec lib) (r_account_id r) (r_seq r) e)) \<and>
      (group_shared (tabs (ap_db ap1)) g \<longrightarrow>
        (\<forall>e \<in> set (pq_envelopes body). e_key_ref e = GroupKey g \<longrightarrow> \<lparr>rj_id = e_id e, rj_kind = as_str (e_kind e),
          rj_reason = (case refuse e (now_ms (rn_store rq')) cf of Some r \<Rightarrow> r | None \<Rightarrow> NotAMember)\<rparr> \<in> set (ps_rejected resp)) \<and>
        (\<exists>resp' ap2'. push ?sv rq' \<lparr>pq_envelopes = filter (\<lambda>e. e_key_ref e \<noteq> GroupKey g) (pq_envelopes body)\<rparr> ap1 = (Inr resp', ap2') \<and>
          ps_accepted resp' = ps_accepted resp \<and> tabs (ap_db ap2') = tabs (ap_db ap2)))"
    by (rule push_from_outside [OF inv1 call room out])
qed

definition new_share :: share_request where
  "new_share = \<lparr>sq_group_id = ''g2'', sq_user_id = ''v'', sq_wrapped_group_key = ''w2''\<rparr>"

theorem share_reaches_its_member_witness:
  "fst (create_share demo_server ada new_share shared_app) = Inr () \<and>
   (\<exists>rs c. pull_loop 1 demo_server bob 0 (snd (create_share demo_server ada new_share shared_app)) =
      Some (Inr (map (row_envelope (lib_codec sample_lib)) rs, c))) \<and>
   visible (tabs (ap_db (snd (create_share demo_server ada new_share shared_app)))) ''v''
     (record_row_of sample_codec ''u'' 9 ''G'' (sample_envelope\<lparr>e_group_id := Some ''g2''\<rparr>))"
proof -
  have u: "sq_user_id new_share \<noteq> ''u''" "has_account (tabs (ap_db shared_app)) (sq_user_id new_share)"
    "row_at share_key (sq_group_id new_share, sq_user_id new_share) (shares (tabs (ap_db shared_app))) = None"
    by (simp_all add: new_share_def shared_app_def shared_tables_def has_account_def sample_account_def share_key_def)
  have b: "fst (caller (sqlite_server default_config sample_lib ''$dummy'') bob shared_app) = Inr (sq_user_id new_share)"
    using shared_callers(2) by (simp add: demo_server_def new_share_def)
  have page: "0 < cf_max_page default_config" "cf_max_page default_config < i64_max" "0 < (1::nat)"
    "length (records (tabs (ap_db shared_app))) \<le> 1 * nat (cf_max_page default_config)"
    by (simp_all add: default_config_def i64_max_def shared_app_def shared_tables_def)
  from share_reaches_its_member [OF shared_app_inv shared_callers(1) [unfolded demo_server_def] u b page refl]
  have "fst (create_share demo_server ada new_share shared_app) = Inr ()"
    "\<exists>rs c. pull_loop 1 demo_server bob 0 (snd (create_share demo_server ada new_share shared_app)) =
      Some (Inr (map (row_envelope (lib_codec sample_lib)) rs, c))"
    "\<forall>r. r_group_id r = Some (sq_group_id new_share) \<longrightarrow>
      visible (tabs (ap_db (snd (create_share demo_server ada new_share shared_app)))) (sq_user_id new_share) r"
    unfolding demo_server_def [symmetric] by blast+
  then show ?thesis by (simp add: new_share_def)
qed

text \<open>Ada shares the group with Carol too, and then takes Bob's share away: Bob's next envelope is not a member's.\<close>

definition second_share :: share_request where
  "second_share = \<lparr>sq_group_id = ''g1'', sq_user_id = ''w'', sq_wrapped_group_key = ''w3''\<rparr>"

theorem revocation_stops_the_member_witness:
  "\<exists>ap ap1 resp ap2. create_share demo_server ada second_share shared_app = (Inr (), ap) \<and>
     ap1 = snd (remove_share demo_server ada ''g1'' ''v'' ap) \<and>
     push demo_server bob \<lparr>pq_envelopes = [sample_envelope\<lparr>e_key_ref := GroupKey ''g1'', e_updated_at := 500\<rparr>]\<rparr> ap1 = (Inr resp, ap2) \<and>
     \<lparr>rj_id = ''h1'', rj_kind = ''host'', rj_reason = NotAMember\<rparr> \<in> set (ps_rejected resp)"
proof -
  let ?e = "sample_envelope\<lparr>e_key_ref := GroupKey ''g1'', e_updated_at := 500\<rparr>"
  have u: "sq_user_id second_share \<noteq> ''u''" "has_account (tabs (ap_db shared_app)) (sq_user_id second_share)"
    "row_at share_key (sq_group_id second_share, sq_user_id second_share) (shares (tabs (ap_db shared_app))) = None"
    by (simp_all add: second_share_def shared_app_def shared_tables_def has_account_def sample_account_def share_key_def)
  obtain ap where ap: "create_share demo_server ada second_share shared_app = (Inr (), ap)" "sqlite_inv (lib_codec sample_lib) (ap_db ap)"
    "tabs (ap_db ap) = (tabs (ap_db shared_app))\<lparr>shares := shares (tabs (ap_db shared_app)) @ [shared_row ada ''u'' second_share]\<rparr>"
    unfolding demo_server_def by (rule new_share_listed [OF shared_app_inv shared_callers(1) [unfolded demo_server_def] u])
  let ?ap1 = "snd (remove_share demo_server ada ''g1'' ''v'' ap)"
  let ?h = "\<lparr>sh_group_id = ''g1'', sh_owner_id = ''u'', sh_user_id = ''v'', sh_wrapped_group_key = ''w'', sh_created_at = 1\<rparr>"
  have sv: "sv_store demo_server = sqlite_store (lib_codec sample_lib)" by (simp add: demo_server_def)
  have callers: "fst (caller demo_server ada ap) = Inr ''u''" "fst (caller demo_server bob ap) = Inr ''v''"
    using sqlite.caller_tokens [OF sv, of ap shared_app] shared_callers(1,2) by (simp_all add: ap(3))
  have row: "row_at share_key (''g1'', ''v'') (shares (tabs (ap_db ap))) = Some ?h"
    by (simp add: ap(3) shared_app_def shared_tables_def share_key_def)
  have side: "0 < cf_max_page default_config" "cf_max_page default_config < i64_max"
    by (simp_all add: default_config_def i64_max_def)
  note gone = revocation_stops_the_member [OF ap(2) callers(1) [unfolded demo_server_def] row callers(2) [unfolded demo_server_def]
      side refl, folded demo_server_def]
  have shares1: "shares (tabs (ap_db ?ap1)) = [shared_row ada ''u'' second_share]"
    using removed_share(2) [OF ap(2) callers(1) [unfolded demo_server_def] row refl, folded demo_server_def]
    by (simp add: ap(3) shared_app_def shared_tables_def shared_row_def second_share_def)
  have room: "sqlite_counter (ap_db ap) + int (length (pq_envelopes \<lparr>pq_envelopes = [?e]\<rparr>)) \<le> i64_max"
    using create_share_counter [OF ap(1) [unfolded demo_server_def]] by (simp add: shared_app_def sqlite_counter_def i64_max_def)
  have "\<forall>s \<in> set (shares (tabs (ap_db ap))). sh_group_id s = ''g1'' \<longrightarrow> sh_owner_id s \<noteq> ''v''" "sh_owner_id ?h = ''u''"
    by (simp_all add: ap(3) shared_app_def shared_tables_def shared_row_def)
  then obtain resp ap2 where p: "push demo_server bob \<lparr>pq_envelopes = [?e]\<rparr> ?ap1 = (Inr resp, ap2)"
    "group_shared (tabs (ap_db ?ap1)) ''g1'' \<longrightarrow> (\<forall>e \<in> set (pq_envelopes \<lparr>pq_envelopes = [?e]\<rparr>). e_key_ref e = GroupKey ''g1'' \<longrightarrow>
      \<lparr>rj_id = e_id e, rj_kind = as_str (e_kind e),
        rj_reason = (case refuse e (now_ms (rn_store bob)) default_config of Some r \<Rightarrow> r | None \<Rightarrow> NotAMember)\<rparr> \<in> set (ps_rejected resp))"
    using gone room by blast
  have "group_shared (tabs (ap_db ?ap1)) ''g1''"
    by (simp add: group_shared_def shares1) (simp add: shared_row_def second_share_def)
  moreover have "refuse ?e (now_ms (rn_store bob)) default_config = None"
    by (simp add: refuse_def clock_is_plausible_def max_clock_skew_ms_def sample_envelope_def default_config_def bob_def
        sample_request_def now_ms_def is_i64_def)
  ultimately have "\<lparr>rj_id = ''h1'', rj_kind = ''host'', rj_reason = NotAMember\<rparr> \<in> set (ps_rejected resp)"
    using p(2) by (simp add: sample_envelope_def)
  with ap(1) p(1) show ?thesis by blast
qed

section \<open>What sharing does not check\<close>

text \<open>a share needs no ownership. Any signed-in account may share any group id with any other account,
  whether or not it owns the group or is in it: the request succeeds, the other account then sees every
  record that carries the id, whoever owns it; and where that account was a member already, the key wrapped
  for it by the real owner is replaced by the caller's, under the real owner's name.\<close>

theorem share_needs_no_ownership:
  assumes "sqlite_inv (lib_codec lib) (ap_db ap)" "fst (caller (sqlite_server cf lib dummy) rq ap) = Inr a"
    and "sq_user_id body \<noteq> a" "has_account (tabs (ap_db ap)) (sq_user_id body)"
    and "ap1 = snd (create_share (sqlite_server cf lib dummy) rq body ap)"
  shows "fst (create_share (sqlite_server cf lib dummy) rq body ap) = Inr () \<and>
    (\<forall>r. r_group_id r = Some (sq_group_id body) \<longrightarrow> visible (tabs (ap_db ap1)) (sq_user_id body) r) \<and>
    (\<forall>h. row_at share_key (sq_group_id body, sq_user_id body) (shares (tabs (ap_db ap))) = Some h \<longrightarrow>
      row_at share_key (sq_group_id body, sq_user_id body) (shares (tabs (ap_db ap1))) =
        Some (h\<lparr>sh_wrapped_group_key := sq_wrapped_group_key body\<rparr>))"
proof -
  let ?sv = "sqlite_server cf lib dummy" and ?row = "shared_row rq a body"
  have sv: "sv_store ?sv = sqlite_store (lib_codec lib)" by simp
  obtain ap' where ap': "create_share ?sv rq body ap = (Inr (), ap')" "sqlite_inv (lib_codec lib) (ap_db ap')"
    "ap_limit ap' = ap_limit ap" "tabs (ap_db ap') = (tabs (ap_db ap))\<lparr>shares :=
       fst (upsert share_key share_on_conflict ?row (shares (tabs (ap_db ap))))\<rparr>"
    by (rule sqlite.create_share_ok [OF sv assms(1-4)])
  then have ap1: "ap' = ap1" using assms(5) by simp
  have "visible (tabs (ap_db ap1)) (sq_user_id body) r" if "r_group_id r = Some (sq_group_id body)" for r
    using shared_with_upsert [where t = "tabs (ap_db ap)" and rq = rq and a = a and body = body] ap'(4) ap1 that
    by (simp add: visible_def)
  moreover have "row_at share_key (sq_group_id body, sq_user_id body) (shares (tabs (ap_db ap1))) =
      Some (h\<lparr>sh_wrapped_group_key := sq_wrapped_group_key body\<rparr>)"
    if h: "row_at share_key (sq_group_id body, sq_user_id body) (shares (tabs (ap_db ap))) = Some h" for h
  proof -
    have key: "share_key ?row = (sq_group_id body, sq_user_id body)" by (simp add: share_key_def shared_row_def)
    show ?thesis
      using share_table.row_at_same [of ?row "shares (tabs (ap_db ap))", unfolded key] h ap'(4) ap1
      by (simp add: upsert_returns key share_on_conflict_def) (simp add: shared_row_def)
  qed
  ultimately show ?thesis using ap'(1) by simp
qed

definition edit500 :: envelope where
  "edit500 = sample_envelope\<lparr>e_updated_at := 500\<rparr>"

definition hijack :: share_request where
  "hijack = \<lparr>sq_group_id = ''g1'', sq_user_id = ''v'', sq_wrapped_group_key = ''evil''\<rparr>"

theorem share_needs_no_ownership_witness:
  "\<not> in_group (tabs (ap_db shared_app)) ''w'' ''g1'' \<and>
   row_at share_key (''g1'', ''v'') (shares (tabs (ap_db (snd (create_share demo_server carol hijack shared_app))))) =
     Some \<lparr>sh_group_id = ''g1'', sh_owner_id = ''u'', sh_user_id = ''v'', sh_wrapped_group_key = ''evil'', sh_created_at = 1\<rparr>"
proof -
  have u: "sq_user_id hijack \<noteq> ''w''" "has_account (tabs (ap_db shared_app)) (sq_user_id hijack)"
    by (simp_all add: hijack_def shared_app_def shared_tables_def has_account_def sample_account_def)
  have "row_at share_key (''g1'', ''v'') (shares (tabs (ap_db shared_app))) =
      Some \<lparr>sh_group_id = ''g1'', sh_owner_id = ''u'', sh_user_id = ''v'', sh_wrapped_group_key = ''w'', sh_created_at = 1\<rparr>"
    "\<not> in_group (tabs (ap_db shared_app)) ''w'' ''g1''"
    by (simp_all add: shared_app_def shared_tables_def share_key_def in_group_def)
  with share_needs_no_ownership [OF shared_app_inv shared_callers(3) [unfolded demo_server_def] u refl]
  show ?thesis unfolding demo_server_def [symmetric] by (simp add: hijack_def)
qed

text \<open>the group hint of a record is not checked. A record sealed under its author's personal key may carry
  any group id in its plaintext hint: the push accepts it under the author's account although the author is
  not in the group, and every member of the group then finds it on pull. Only the key reference is
  checked against the membership.\<close>

theorem group_hint_is_not_checked:
  assumes "sqlite_inv (lib_codec lib) (ap_db ap)" "fst (caller (sqlite_server cf lib dummy) rq ap) = Inr a"
    and "sqlite_counter (ap_db ap) < i64_max" "refuse e (now_ms (rn_store rq)) cf = None"
    and "e_key_ref e = Personal" "e_group_id e = Some g" "shared_with (tabs (ap_db ap)) g u"
    and "row_at record_key (a, as_str (e_kind e), e_id e) (records (tabs (ap_db ap))) = None"
  shows "\<exists>resp ap1 r. push (sqlite_server cf lib dummy) rq \<lparr>pq_envelopes = [e]\<rparr> ap = (Inr resp, ap1) \<and>
    ps_rejected resp = [] \<and> r \<in> set (records (tabs (ap_db ap1))) \<and> r_account_id r = a \<and> r_id r = e_id e \<and>
    visible (tabs (ap_db ap1)) u r"
proof -
  let ?t = "tabs (ap_db ap)" and ?q = "sqlite_counter (ap_db ap)"
  let ?row = "pushed_row (lib_codec lib) a (?q + 1) e"
  have "upsert record_key (record_on_conflict sqlite_newer) ?row (records ?t) = (records ?t @ [?row], Some ?row)"
    using assms(8) by (simp add: upsert_def)
  then have run: "push_run sqlite_newer (lib_codec lib) cf a (now_ms (rn_store rq)) (pq_envelopes \<lparr>pq_envelopes = [e]\<rparr>) (?t, ?q) =
      ([AcceptedAt (?q + 1)], ?t\<lparr>records := records ?t @ [?row]\<rparr>, ?q + 1)"
    using assms(4,5) by (simp add: push_spec_def push_target_def)
  have fits: "?q + int (length (pq_envelopes \<lparr>pq_envelopes = [e]\<rparr>)) \<le> i64_max" using assms(3) by simp
  have run': "push_run sqlite_newer (lib_codec lib) (sv_config (sqlite_server cf lib dummy)) a (now_ms (rn_store rq))
      (pq_envelopes \<lparr>pq_envelopes = [e]\<rparr>) (?t, ?q) = ([AcceptedAt (?q + 1)], ?t\<lparr>records := records ?t @ [?row]\<rparr>, ?q + 1)"
    using run by simp
  have sv: "sv_store (sqlite_server cf lib dummy) = sqlite_store (lib_codec lib)" by simp
  obtain resp ap1 where p: "push (sqlite_server cf lib dummy) rq \<lparr>pq_envelopes = [e]\<rparr> ap = (Inr resp, ap1)"
    "tabs (ap_db ap1) = ?t\<lparr>records := records ?t @ [?row]\<rparr>"
    "ps_rejected resp = concat (map rejected_of (zip (pq_envelopes \<lparr>pq_envelopes = [e]\<rparr>) [AcceptedAt (?q + 1)]))"
    using sqlite.push_ok [OF sv assms(1,2) fits run'] by metis
  then show ?thesis
    using assms(6,7)
    by (intro exI [where x = resp] exI [where x = ap1] exI [where x = ?row])
      (simp add: rejected_of_def visible_def shared_with_def, simp add: pushed_row_def record_row_of_def)
qed

theorem group_hint_is_not_checked_witness:
  "\<exists>resp ap1 r. push demo_server carol \<lparr>pq_envelopes = [edit500]\<rparr> shared_app = (Inr resp, ap1) \<and>
     r \<in> set (records (tabs (ap_db ap1))) \<and> r_account_id r = ''w'' \<and> visible (tabs (ap_db ap1)) ''v'' r"
proof -
  have side: "sqlite_counter (ap_db shared_app) < i64_max" "refuse edit500 (now_ms (rn_store carol)) default_config = None"
    "e_key_ref edit500 = Personal" "e_group_id edit500 = Some ''g1''" "shared_with (tabs (ap_db shared_app)) ''g1'' ''v''"
    "row_at record_key (''w'', as_str (e_kind edit500), e_id edit500) (records (tabs (ap_db shared_app))) = None"
    by (simp_all add: shared_app_def sqlite_counter_def i64_max_def edit500_def refuse_def clock_is_plausible_def
        max_clock_skew_ms_def sample_envelope_def default_config_def carol_def sample_request_def now_ms_def is_i64_def
        shared_with_def shared_tables_def)
  from group_hint_is_not_checked [OF shared_app_inv shared_callers(3) [unfolded demo_server_def] side]
  show ?thesis unfolding demo_server_def [symmetric] by blast
qed

end
