(* ===== verification/System.thy ===== *)
theory System
  imports Sessions Convergence Routes_Shares
begin

text \<open>
  The server as a whole: the router of \<^verbatim>\<open>server/src/routes/mod.rs\<close>, a request as one step on the shared
  state, the states an instance can reach, and what holds in all of them.
\<close>

section \<open>The router\<close>

datatype http_method = GET | POST | DELETE

datatype api_call =
    Info
  | Register register_request
  | Login login_request
  | Refresh refresh_request
  | Recover recover_request
  | Rewrap rewrap_request
  | Logout
  | Keys
  | Lookup string
  | Pull i64
  | Push push_request
  | MyShares
  | CreateShare share_request
  | ListShares string
  | RemoveShare string string
  | ListDevices

text \<open>The method and the path each call is routed by; a captured segment is shown as itself.\<close>

fun route_of :: "api_call \<Rightarrow> http_method \<times> string list" where
  "route_of Info = (GET, [''v1'', ''instance''])"
| "route_of (Register _) = (POST, [''v1'', ''auth'', ''register''])"
| "route_of (Login _) = (POST, [''v1'', ''auth'', ''login''])"
| "route_of (Refresh _) = (POST, [''v1'', ''auth'', ''refresh''])"
| "route_of (Recover _) = (POST, [''v1'', ''auth'', ''recover''])"
| "route_of (Rewrap _) = (POST, [''v1'', ''auth'', ''rewrap''])"
| "route_of Logout = (POST, [''v1'', ''auth'', ''logout''])"
| "route_of Keys = (GET, [''v1'', ''account'', ''keys''])"
| "route_of (Lookup _) = (GET, [''v1'', ''users'', ''lookup''])"
| "route_of (Pull _) = (GET, [''v1'', ''sync''])"
| "route_of (Push _) = (POST, [''v1'', ''sync''])"
| "route_of MyShares = (GET, [''v1'', ''shares''])"
| "route_of (CreateShare _) = (POST, [''v1'', ''shares''])"
| "route_of (ListShares g) = (GET, [''v1'', ''shares'', g])"
| "route_of (RemoveShare g u) = (DELETE, [''v1'', ''shares'', g, u])"
| "route_of ListDevices = (GET, [''v1'', ''devices''])"

datatype reply =
    R_info instance_info
  | R_session session
  | R_unit
  | R_keys key_material
  | R_lookup user_lookup
  | R_pull pull_response
  | R_push push_response
  | R_shares "share list"
  | R_devices "device list"

definition map_op :: "('a \<Rightarrow> 'b) \<Rightarrow> ('e, 's, 'a) op \<Rightarrow> ('e, 's, 'b) op" where
  "map_op f m s = (map_sum id f (fst (m s)), snd (m s))"

fun handle :: "'s server \<Rightarrow> request \<Rightarrow> api_call \<Rightarrow> (error, 's app, reply) op" where
  "handle sv rq Info = ok_op (R_info (info sv))"
| "handle sv rq (Register b) = map_op R_session (register sv rq b)"
| "handle sv rq (Login b) = map_op R_session (login sv rq b)"
| "handle sv rq (Refresh b) = map_op R_session (refresh sv rq b)"
| "handle sv rq (Recover b) = map_op R_session (recover sv rq b)"
| "handle sv rq (Rewrap b) = map_op (\<lambda>_. R_unit) (rewrap sv rq b)"
| "handle sv rq Logout = map_op (\<lambda>_. R_unit) (logout sv rq)"
| "handle sv rq Keys = map_op R_keys (keys sv rq)"
| "handle sv rq (Lookup m) = map_op R_lookup (lookup sv rq m)"
| "handle sv rq (Pull c) = map_op R_pull (pull sv rq c)"
| "handle sv rq (Push b) = map_op R_push (push sv rq b)"
| "handle sv rq MyShares = map_op R_shares (mine sv rq)"
| "handle sv rq (CreateShare b) = map_op (\<lambda>_. R_unit) (create_share sv rq b)"
| "handle sv rq (ListShares g) = map_op R_shares (list_shares sv rq g)"
| "handle sv rq (RemoveShare g u) = map_op (\<lambda>_. R_unit) (remove_share sv rq g u)"
| "handle sv rq ListDevices = map_op R_devices (list_devices sv rq)"

text \<open>What goes on the wire: a reply, or the status and body of the error.\<close>

definition respond :: "'s server \<Rightarrow> request \<Rightarrow> api_call \<Rightarrow> 's app \<Rightarrow> ((nat \<times> api_error) + reply) \<times> 's app" where
  "respond sv rq call ap = (map_sum into_response id (fst (handle sv rq call ap)), snd (handle sv rq call ap))"

inductive reach :: "'s server \<Rightarrow> 's app \<Rightarrow> 's app \<Rightarrow> bool" for sv :: "'s server" where
  start: "reach sv ap ap"
| request: "reach sv ap ap1 \<Longrightarrow> snd (handle sv rq call ap1) = ap2 \<Longrightarrow> reach sv ap ap2"

inductive_cases reachE: "reach sv ap ap2"

section \<open>What every handler keeps\<close>

definition store_keeps :: "('s \<Rightarrow> bool) \<Rightarrow> 's store \<Rightarrow> bool" where
  "store_keeps P st \<longleftrightarrow>
     (\<forall>i. keeps P (s_account_by_id st i)) \<and> (\<forall>m. keeps P (s_account_by_email st m)) \<and>
     (\<forall>now h k. keeps P (s_take_token st now h k)) \<and> (\<forall>a c l. keeps P (s_pull st a c l)) \<and>
     (\<forall>a. keeps P (s_max_seq st a)) \<and> (\<forall>a g. keeps P (s_shares_for_group st a g)) \<and>
     (\<forall>a. keeps P (s_shares_for_user st a)) \<and> (\<forall>g. keeps P (s_share_owner st g)) \<and>
     (\<forall>a g. keeps P (s_can_write_group st a g)) \<and> (\<forall>a. keeps P (s_devices st a)) \<and>
     (\<forall>now b n. keeps P (s_create_account st now b n)) \<and> (\<forall>i n. keeps P (s_rewrap_account st i n)) \<and>
     (\<forall>h a k x. keeps P (s_put_token st h a k x)) \<and> (\<forall>now h k. keeps P (s_consume_token st now h k)) \<and>
     (\<forall>a. keeps P (s_revoke_account_tokens st a)) \<and> (\<forall>a e. keeps P (s_put_envelope st a e)) \<and>
     (\<forall>now a g u w. keeps P (s_put_share st now a g u w)) \<and> (\<forall>a g u. keeps P (s_delete_share st a g u)) \<and>
     (\<forall>now a d m. keeps P (s_touch_device st now a d m))"

lemma keeps_map_op [keeps_intros]: "keeps P m \<Longrightarrow> keeps P (map_op f m)"
  by (simp add: keeps_def map_op_def)

lemma keeps_case_prod [keeps_intros]: "(\<And>a b. keeps P (f a b)) \<Longrightarrow> keeps P (case p of (a, b) \<Rightarrow> f a b)"
  by (cases p) simp

lemma keeps_case_key_ref [keeps_intros]:
  "keeps P f \<Longrightarrow> (\<And>g. keeps P (h g)) \<Longrightarrow> keeps P (case k of Personal \<Rightarrow> f | GroupKey g \<Rightarrow> h g)"
  by (cases k) simp_all

lemma store_keepsD [keeps_intros]:
  assumes "store_keeps P st"
  shows "keeps P (s_account_by_id st i)" "keeps P (s_account_by_email st m)" "keeps P (s_take_token st now h k)"
    "keeps P (s_pull st a c l)" "keeps P (s_max_seq st a)" "keeps P (s_shares_for_group st a g)"
    "keeps P (s_shares_for_user st a)" "keeps P (s_share_owner st g)" "keeps P (s_can_write_group st a g)"
    "keeps P (s_devices st a)" "keeps P (s_create_account st now b n)" "keeps P (s_rewrap_account st i n)"
    "keeps P (s_put_token st h a k x)" "keeps P (s_consume_token st now h k)" "keeps P (s_revoke_account_tokens st a)"
    "keeps P (s_put_envelope st a e)" "keeps P (s_put_share st now a g u w)" "keeps P (s_delete_share st a g u)"
    "keeps P (s_touch_device st now a d m)"
  using assms by (simp_all add: store_keeps_def)

lemma keeps_caller_store [keeps_intros]:
  "store_keeps P (sv_store sv) \<Longrightarrow> keeps (\<lambda>ap. P (ap_db ap)) (caller sv rq)"
  unfolding caller_def by (intro keeps_intros) assumption

lemma keeps_issue_session [keeps_intros]:
  "store_keeps P (sv_store sv) \<Longrightarrow> keeps (\<lambda>ap. P (ap_db ap)) (issue_session sv rq a d n)"
  unfolding issue_session_def Let_def by (intro keeps_intros) assumption+

lemma keeps_auth_handlers:
  assumes "store_keeps P (sv_store sv)"
  shows "keeps (\<lambda>ap. P (ap_db ap)) (register sv rq b1)" "keeps (\<lambda>ap. P (ap_db ap)) (login sv rq b2)"
    "keeps (\<lambda>ap. P (ap_db ap)) (refresh sv rq b3)" "keeps (\<lambda>ap. P (ap_db ap)) (recover sv rq b4)"
    "keeps (\<lambda>ap. P (ap_db ap)) (rewrap sv rq b5)" "keeps (\<lambda>ap. P (ap_db ap)) (logout sv rq)"
    "keeps (\<lambda>ap. P (ap_db ap)) (keys sv rq)" "keeps (\<lambda>ap. P (ap_db ap)) (lookup sv rq m)"
  unfolding register_def login_def refresh_def recover_def rewrap_def logout_def keys_def lookup_def Let_def
  by (intro keeps_intros assms)+

lemma keeps_put_one:
  "store_keeps P (sv_store sv) \<Longrightarrow> keeps (\<lambda>ap. P (ap_db ap)) (put_one sv a e ps)"
  unfolding put_one_def by (intro keeps_intros) assumption

lemma keeps_push_one:
  assumes "store_keeps P (sv_store sv)"
  shows "keeps (\<lambda>ap. P (ap_db ap)) (push_one sv a now e ps)"
  unfolding push_one_def group_allowed_def group_owner_of_def
  by (intro keeps_intros keeps_put_one assms)

lemma keeps_push_loop:
  assumes "store_keeps P (sv_store sv)"
  shows "keeps (\<lambda>ap. P (ap_db ap)) (push_loop sv a now es ps)"
proof (induction es arbitrary: ps)
  case Nil
  show ?case by (simp add: keeps_ok)
next
  case (Cons e es)
  then show ?case by (simp add: keeps_bind keeps_push_one [OF assms])
qed

lemma keeps_sync_handlers:
  assumes "store_keeps P (sv_store sv)"
  shows "keeps (\<lambda>ap. P (ap_db ap)) (pull sv rq c)" "keeps (\<lambda>ap. P (ap_db ap)) (push sv rq b)"
    "keeps (\<lambda>ap. P (ap_db ap)) (mine sv rq)" "keeps (\<lambda>ap. P (ap_db ap)) (create_share sv rq s)"
    "keeps (\<lambda>ap. P (ap_db ap)) (list_shares sv rq g)" "keeps (\<lambda>ap. P (ap_db ap)) (remove_share sv rq g u)"
    "keeps (\<lambda>ap. P (ap_db ap)) (list_devices sv rq)"
  unfolding pull_def push_def mine_def create_share_def list_shares_def remove_share_def list_devices_def Let_def
  by (intro keeps_intros keeps_push_loop assms)+

lemma keeps_handle:
  assumes "store_keeps P (sv_store sv)"
  shows "keeps (\<lambda>ap. P (ap_db ap)) (handle sv rq call)"
  by (cases call) (simp_all add: keeps_map_op keeps_ok keeps_auth_handlers [OF assms] keeps_sync_handlers [OF assms])

lemma reach_keeps:
  assumes "store_keeps P (sv_store sv)"
  shows "reach sv ap ap' \<Longrightarrow> P (ap_db ap) \<Longrightarrow> P (ap_db ap')"
proof (induction rule: reach.induct)
  case (start ap)
  then show ?case .
next
  case (request ap ap1 rq call ap2)
  from keepsD [OF keeps_handle [OF assms] request.IH [OF request.prems], of rq call] request.hyps(2)
  show ?case by simp
qed

section \<open>Reachable states\<close>

lemma sqlite_store_keeps_inv: "store_keeps (sqlite_inv cd) (sqlite_store cd)"
proof -
  have "keeps (sqlite_inv cd) (s_pull (sqlite_store cd) a c l)" for a c l
    by (simp add: keeps_def sqlite_store_def sqlite_pull_def Let_def)
  then show ?thesis by (simp add: store_keeps_def sqlite.keeps_inv sqlite.keeps_max_seq)
qed

context collation
begin

lemma pg_store_keeps_inv: "store_keeps (pg_inv cd) (pg_store coll_gt cd)"
proof -
  have "keeps (pg_inv cd) (s_pull (pg_store coll_gt cd) a c l)" for a c l
    by (simp add: keeps_def pg_store_def pg_pull_def)
  then show ?thesis by (simp add: store_keeps_def pg.keeps_inv pg.keeps_max_seq)
qed

end

text \<open>The limiter is touched by the three handlers that guess, once each and first.\<close>

fun guarded :: "api_call \<Rightarrow> bool" where
  "guarded (Register _) = True"
| "guarded (Login _) = True"
| "guarded (Recover _) = True"
| "guarded _ = False"

lemma keeps_limit_on_db [keeps_intros]: "keeps (\<lambda>ap. ap_limit ap = l) (on_db f)"
  by (simp add: keeps_def)

lemma keeps_limit_issue: "keeps (\<lambda>ap. ap_limit ap = l) (issue_session sv rq a d n)"
  unfolding issue_session_def Let_def by (intro keeps_intros)

lemma keeps_limit_caller: "keeps (\<lambda>ap. ap_limit ap = l) (caller sv rq)"
  unfolding caller_def by (intro keeps_intros)

lemma keeps_limit_push_loop: "keeps (\<lambda>ap. ap_limit ap = l) (push_loop sv a now es ps)"
proof (induction es arbitrary: ps)
  case Nil
  show ?case by (simp add: keeps_ok)
next
  case (Cons e es)
  have "keeps (\<lambda>ap. ap_limit ap = l) (push_one sv a now e ps)"
    unfolding push_one_def group_allowed_def group_owner_of_def put_one_def by (intro keeps_intros)
  with Cons show ?case by (simp add: keeps_bind)
qed

lemma keeps_limit_handlers:
  "keeps (\<lambda>ap. ap_limit ap = l) (refresh sv rq b3)" "keeps (\<lambda>ap. ap_limit ap = l) (rewrap sv rq b5)"
  "keeps (\<lambda>ap. ap_limit ap = l) (logout sv rq)" "keeps (\<lambda>ap. ap_limit ap = l) (keys sv rq)"
  "keeps (\<lambda>ap. ap_limit ap = l) (lookup sv rq m)" "keeps (\<lambda>ap. ap_limit ap = l) (pull sv rq c)"
  "keeps (\<lambda>ap. ap_limit ap = l) (push sv rq b)" "keeps (\<lambda>ap. ap_limit ap = l) (mine sv rq)"
  "keeps (\<lambda>ap. ap_limit ap = l) (create_share sv rq s)" "keeps (\<lambda>ap. ap_limit ap = l) (list_shares sv rq g)"
  "keeps (\<lambda>ap. ap_limit ap = l) (remove_share sv rq g u)" "keeps (\<lambda>ap. ap_limit ap = l) (list_devices sv rq)"
  unfolding refresh_def rewrap_def logout_def keys_def lookup_def pull_def push_def mine_def create_share_def
    list_shares_def remove_share_def list_devices_def Let_def
  by (intro keeps_intros keeps_limit_issue keeps_limit_caller keeps_limit_push_loop)+

lemma guard_limit:
  "ap_limit (snd (guard rq ap)) = snd (check (rn_instant rq) (sa_ip (rq_peer rq)) (ap_limit ap))"
  by (simp add: guard_def split_beta)

lemma bind_guard_limit:
  assumes "\<And>l. keeps (\<lambda>ap. ap_limit ap = l) (g ())"
  shows "ap_limit (snd (bind_op (guard rq) g ap)) = ap_limit (snd (guard rq ap))"
  using keepsD [OF assms, of "snd (guard rq ap)"] by (simp add: bind_guard)

lemma guarded_limit:
  "ap_limit (snd (register sv rq b1 ap)) = ap_limit (snd (guard rq ap))"
  "ap_limit (snd (login sv rq b2 ap)) = ap_limit (snd (guard rq ap))"
  "ap_limit (snd (recover sv rq b4 ap)) = ap_limit (snd (guard rq ap))"
  unfolding register_def login_def recover_def Let_def
  by (rule bind_guard_limit, intro keeps_intros keeps_limit_issue)+

lemma handle_limit:
  "ap_limit (snd (handle sv rq call ap)) =
     (if guarded call then snd (check (rn_instant rq) (sa_ip (rq_peer rq)) (ap_limit ap)) else ap_limit ap)"
proof (cases "guarded call")
  case True
  then show ?thesis by (cases call) (simp_all add: map_op_def guarded_limit guard_limit)
next
  case False
  have keep: "ap_limit (snd (m ap)) = ap_limit ap" if "\<And>l. keeps (\<lambda>ap. ap_limit ap = l) m" for m :: "(error, 'a app, 'b) op"
    using keepsD [OF that] by blast
  from False show ?thesis
    by (cases call) (simp_all add: map_op_def ok_op_def keep [OF keeps_limit_handlers(1)] keep [OF keeps_limit_handlers(2)]
      keep [OF keeps_limit_handlers(3)] keep [OF keeps_limit_handlers(4)] keep [OF keeps_limit_handlers(5)]
      keep [OF keeps_limit_handlers(6)] keep [OF keeps_limit_handlers(7)] keep [OF keeps_limit_handlers(8)]
      keep [OF keeps_limit_handlers(9)] keep [OF keeps_limit_handlers(10)] keep [OF keeps_limit_handlers(11)]
      keep [OF keeps_limit_handlers(12)])
qed

definition limit_ok :: "rate_limit \<Rightarrow> bool" where
  "limit_ok rl \<longleftrightarrow> rl_max rl = 10 \<and> rl_window rl = 60000000000 \<and> (\<forall>ip. length (hits_of rl ip) \<le> 10)"

lemma limit_ok_check: "limit_ok rl \<Longrightarrow> limit_ok (snd (check now ip rl))"
proof -
  assume ok: "limit_ok rl"
  have "length (hits_of (snd (check now ip rl)) i) \<le> 10" for i
  proof (cases "i = ip \<and> fst (check now ip rl)")
    case True
    then have "length (filter (\<lambda>t. now - t < rl_window rl) (hits_of rl i)) < 10"
      using ok by (simp add: check_verdict limit_ok_def)
    with True show ?thesis by (simp add: check_hits)
  next
    case False
    then have "hits_of (snd (check now ip rl)) i = filter (\<lambda>t. now - t < rl_window rl) (hits_of rl i)"
      by (auto simp: check_hits)
    then have "length (hits_of (snd (check now ip rl)) i) \<le> length (hits_of rl i)" by simp
    with ok show ?thesis unfolding limit_ok_def by (meson order_trans)
  qed
  with ok show ?thesis by (simp add: limit_ok_def)
qed

lemma reach_limit: "reach sv ap ap' \<Longrightarrow> limit_ok (ap_limit ap) \<Longrightarrow> limit_ok (ap_limit ap')"
proof (induction rule: reach.induct)
  case (request ap ap1 rq call ap2)
  then show ?case using handle_limit [of sv rq call ap1] limit_ok_check by auto
qed simp

lemma auth_limit_ok: "limit_ok auth_limit"
  by (simp add: limit_ok_def auth_limit_def) (simp add: new_limit_def)

text \<open>every reachable state is well formed. Whatever requests an SQLite instance serves after its first
  start, in any order and with any clock readings and random bytes, its tables keep their unique keys and
  foreign keys, sequence numbers stay positive, distinct and at most the counter, every stored record
  decodes, and the limiter holds at most ten instants per address.\<close>

theorem sqlite_instance_stays_well_formed:
  assumes "codec_ok (lib_codec lib)" "lower_ok (lib_codec lib)"
    and "boot (sqlite_server cf lib dummy) fresh_sqlite = Inr ap0" "reach (sqlite_server cf lib dummy) ap0 ap"
  shows "tables_ok (tabs (ap_db ap)) (sqlite_counter (ap_db ap)) \<and>
    (\<forall>r \<in> set (records (tabs (ap_db ap))). \<exists>e. envelope_from_row (lib_codec lib) r = Inr e) \<and> limit_ok (ap_limit ap)"
proof -
  have "sqlite_inv (lib_codec lib) (ap_db ap0)" "ap_limit ap0 = auth_limit"
    using boot_sqlite [OF assms(1,2), of cf dummy] assms(3) by auto
  moreover have "store_keeps (sqlite_inv (lib_codec lib)) (sv_store (sqlite_server cf lib dummy))"
    by (simp add: sqlite_store_keeps_inv)
  ultimately have "sqlite_inv (lib_codec lib) (ap_db ap)" "limit_ok (ap_limit ap)"
    using reach_keeps [OF _ assms(4)] reach_limit [OF assms(4)] auth_limit_ok by simp_all
  then show ?thesis using sqlite.inv_tables sqlite.inv_decode by blast
qed

theorem sqlite_instance_stays_well_formed_witness:
  "\<exists>ap0. boot sample_server fresh_sqlite = Inr ap0 \<and>
     tables_ok (tabs (ap_db (snd (handle sample_server sample_request (Register sample_register) ap0))))
       (sqlite_counter (ap_db (snd (handle sample_server sample_request (Register sample_register) ap0))))"
proof -
  obtain ap0 where b: "boot sample_server fresh_sqlite = Inr ap0"
    using boot_sqlite [OF sample_lib_ok(1,2)] unfolding sample_server_def by blast
  have "reach sample_server ap0 (snd (handle sample_server sample_request (Register sample_register) ap0))"
    by (rule reach.request [OF reach.start refl])
  from sqlite_instance_stays_well_formed [OF sample_lib_ok(1,2) b [unfolded sample_server_def] this [unfolded sample_server_def]]
  show ?thesis using b unfolding sample_server_def by blast
qed

text \<open>the same on Postgres, under any collation that is a strict linear order.\<close>

theorem postgres_instance_stays_well_formed:
  assumes "collation coll_gt" "codec_ok (lib_codec lib)"
    and "boot (pg_server coll_gt cf lib dummy) fresh_pg = Inr ap0" "reach (pg_server coll_gt cf lib dummy) ap0 ap"
  shows "tables_ok (pg_tabs (ap_db ap)) (pg_counter (ap_db ap)) \<and>
    (\<forall>r \<in> set (records (pg_tabs (ap_db ap))). \<exists>e. envelope_from_row (lib_codec lib) r = Inr e) \<and> limit_ok (ap_limit ap)"
proof -
  have "pg_inv (lib_codec lib) (ap_db ap0)" "ap_limit ap0 = auth_limit"
    using boot_pg [OF assms(2), of coll_gt cf dummy] assms(3) by auto
  moreover have "store_keeps (pg_inv (lib_codec lib)) (sv_store (pg_server coll_gt cf lib dummy))"
    using collation.pg_store_keeps_inv [OF assms(1)] by simp
  ultimately have "pg_inv (lib_codec lib) (ap_db ap)" "limit_ok (ap_limit ap)"
    using reach_keeps [OF _ assms(4)] reach_limit [OF assms(4)] auth_limit_ok by simp_all
  then show ?thesis by (simp add: pg_inv_def rows_decode_def)
qed

theorem postgres_instance_stays_well_formed_witness:
  "\<exists>ap0. boot (pg_server c_collation open_config sample_lib ''$dummy'') fresh_pg = Inr ap0 \<and>
     tables_ok (pg_tabs (ap_db ap0)) (pg_counter (ap_db ap0))"
proof -
  obtain ap0 where b: "boot (pg_server c_collation open_config sample_lib ''$dummy'') fresh_pg = Inr ap0"
    using boot_pg [OF sample_lib_ok(1)] by blast
  from postgres_instance_stays_well_formed [OF c_collation.collation_axioms sample_lib_ok(1) b reach.start]
  show ?thesis using b by blast
qed

end
