(* ===== verification/Access.thy ===== *)
theory Access
  imports System
begin

text \<open>
  Who may do what, over the whole router: a call that needs a session is answered 401 exactly when the
  request carries no live access token, and then changes nothing; the limiter counts exactly the three
  calls that guess and is the only source of a 429. Both rest on \<open>avoids\<close>: which errors an
  operation can return at all.
\<close>

section \<open>Errors an operation cannot return\<close>

named_theorems avoids_intros \<open>which errors an operation avoids, by its structure\<close>

definition avoids :: "'e \<Rightarrow> ('e, 's, 'a) op \<Rightarrow> bool" where
  "avoids err m \<longleftrightarrow> (\<forall>s. fst (m s) \<noteq> Inl err)"

lemma avoidsD: "avoids err m \<Longrightarrow> fst (m s) \<noteq> Inl err"
  by (simp add: avoids_def)

lemma avoids_simple [avoids_intros]:
  "avoids err (ok_op x)"
  "e \<noteq> err \<Longrightarrow> avoids err (err_op e)"
  "e \<noteq> err \<Longrightarrow> avoids err (ok_or e v)"
  "r \<noteq> Inl err \<Longrightarrow> avoids err (lift_result r)"
  by (auto simp: avoids_def op_defs split: option.splits)

lemma avoids_bind [avoids_intros]:
  assumes "avoids err f" "\<And>x. avoids err (g x)"
  shows "avoids err (bind_op f g)"
  using assms by (auto simp: avoids_def bind_op_def split: prod.splits sum.splits) (metis fst_conv)+

lemma avoids_on_db [avoids_intros]: "avoids err f \<Longrightarrow> avoids err (on_db f)"
  by (simp add: avoids_def)

lemma avoids_map_op [avoids_intros]: "avoids err m \<Longrightarrow> avoids err (map_op f m)"
  by (auto simp: avoids_def map_op_def map_sum_def split: sum.splits)

lemma avoids_if [avoids_intros]:
  "avoids err f \<Longrightarrow> avoids err g \<Longrightarrow> avoids err (if b then f else g)"
  by simp

lemma avoids_case_option [avoids_intros]:
  "avoids err f \<Longrightarrow> (\<And>x. avoids err (g x)) \<Longrightarrow> avoids err (case v of None \<Rightarrow> f | Some x \<Rightarrow> g x)"
  by (cases v) simp_all

lemma avoids_case_prod [avoids_intros]: "(\<And>a b. avoids err (f a b)) \<Longrightarrow> avoids err (case p of (a, b) \<Rightarrow> f a b)"
  by (cases p) simp

lemma avoids_case_key_ref [avoids_intros]:
  "avoids err f \<Longrightarrow> (\<And>g. avoids err (h g)) \<Longrightarrow> avoids err (case k of Personal \<Rightarrow> f | GroupKey g \<Rightarrow> h g)"
  by (cases k) simp_all

section \<open>Errors of the SQLite store\<close>

text \<open>The errors only a handler returns.\<close>

definition handler_error :: "error \<Rightarrow> bool" where
  "handler_error err \<longleftrightarrow> err \<in> {BadCredentials, Unauthorised, RegistrationClosed, RateLimited}"

lemma collect_results_error:
  "collect_results rs = Inl e \<Longrightarrow> Inl e \<in> set rs"
  by (induction rs) (auto split: sum.splits)

lemma envelope_from_row_error: "envelope_from_row cd r = Inl e \<Longrightarrow> \<exists>m. e = Internal m"
  by (auto simp: envelope_from_row_def split: option.splits sum.splits)

lemma checked_upsert_error: "checked_upsert key upd ok new rows = Inl e \<Longrightarrow> \<exists>d. e = Db d"
  by (auto simp: checked_upsert_def split: if_splits prod.splits option.splits)

lemma sqlite_pull_avoids: "handler_error err \<Longrightarrow> avoids err (sqlite_pull cd a c l)"
  by (auto simp: avoids_def sqlite_pull_def Let_def handler_error_def
      dest!: collect_results_error dest: envelope_from_row_error [OF sym])

lemma sqlite_writes_avoid:
  assumes "handler_error err"
  shows "avoids err (sqlite_create_account cd now b n)" "avoids err (sqlite_put_token h a k x)"
    "avoids err (sqlite_put_envelope cd a e)" "avoids err (sqlite_put_share now a g u w)"
    "avoids err (sqlite_touch_device now a d m)"
  using assms
  by (auto simp: avoids_def sqlite_defs handler_error_def op_defs sqlite_account_by_id_def Let_def
      split: sum.splits option.splits if_splits prod.splits dest!: checked_upsert_error)

lemma sqlite_store_avoids [avoids_intros]:
  assumes "handler_error err"
  shows "avoids err (s_account_by_id (sqlite_store cd) i)" "avoids err (s_account_by_email (sqlite_store cd) m)"
    "avoids err (s_take_token (sqlite_store cd) now h k)" "avoids err (s_pull (sqlite_store cd) a c l)"
    "avoids err (s_max_seq (sqlite_store cd) a)" "avoids err (s_shares_for_group (sqlite_store cd) a g)"
    "avoids err (s_shares_for_user (sqlite_store cd) a)" "avoids err (s_share_owner (sqlite_store cd) g)"
    "avoids err (s_can_write_group (sqlite_store cd) a g)" "avoids err (s_devices (sqlite_store cd) a)"
    "avoids err (s_create_account (sqlite_store cd) now b n)" "avoids err (s_rewrap_account (sqlite_store cd) i n)"
    "avoids err (s_put_token (sqlite_store cd) h a k x)" "avoids err (s_consume_token (sqlite_store cd) now h k)"
    "avoids err (s_revoke_account_tokens (sqlite_store cd) a)" "avoids err (s_put_envelope (sqlite_store cd) a e)"
    "avoids err (s_put_share (sqlite_store cd) now a g u w)" "avoids err (s_delete_share (sqlite_store cd) a g u)"
    "avoids err (s_touch_device (sqlite_store cd) now a d m)"
  using assms sqlite_pull_avoids [OF assms] sqlite_writes_avoid [OF assms]
  by (simp_all add: sqlite_store_def)
    (auto simp: avoids_def sqlite_read_defs sqlite_defs Let_def handler_error_def split: option.splits prod.splits)

section \<open>Sessions\<close>

fun needs_session :: "api_call \<Rightarrow> bool" where
  "needs_session (Rewrap _) = True"
| "needs_session Logout = True"
| "needs_session Keys = True"
| "needs_session (Lookup _) = True"
| "needs_session (Pull _) = True"
| "needs_session (Push _) = True"
| "needs_session MyShares = True"
| "needs_session (CreateShare _) = True"
| "needs_session (ListShares _) = True"
| "needs_session (RemoveShare _ _) = True"
| "needs_session ListDevices = True"
| "needs_session _ = False"

lemma hash_auth_key_error: "handler_error err \<Longrightarrow> hash_auth_key lib salt k \<noteq> Inl err"
  by (auto simp: hash_auth_key_def handler_error_def split: sum.splits)

lemma avoids_push_loop:
  assumes "\<And>e ps. avoids err (push_one sv a now e ps)"
  shows "avoids err (push_loop sv a now es ps)"
proof (induction es arbitrary: ps)
  case Nil
  show ?case by (simp add: avoids_simple)
next
  case (Cons e es)
  with assms show ?case by (simp add: avoids_bind)
qed

text \<open>The errors a gated operation has no further use for: the two that are answered 401, and the limiter's.\<close>

definition at_the_door :: "error set" where
  "at_the_door = {Unauthorised, BadCredentials, RateLimited}"

lemma status_401: "fst (into_response e) = 401 \<Longrightarrow> e \<in> at_the_door"
  by (cases e) (simp_all add: into_response_def at_the_door_def)

text \<open>A gated operation asks for the caller first; after that it returns none of them.\<close>

definition gated :: "'s server \<Rightarrow> request \<Rightarrow> (error, 's app, 'a) op \<Rightarrow> bool" where
  "gated sv rq m \<longleftrightarrow> (\<exists>g. m = bind_op (caller sv rq) g \<and> (\<forall>a. \<forall>err \<in> at_the_door. avoids err (g a)))"

lemma gatedI:
  assumes "\<And>a. avoids Unauthorised (g a)" "\<And>a. avoids BadCredentials (g a)" "\<And>a. avoids RateLimited (g a)"
  shows "gated sv rq (bind_op (caller sv rq) g)"
  using assms unfolding gated_def at_the_door_def by blast

lemma handler_errors: "handler_error Unauthorised" "handler_error BadCredentials" "handler_error RateLimited"
  by (simp_all add: handler_error_def)

lemma sqlite_push_one_avoids:
  assumes "handler_error err"
  shows "avoids err (push_one (sqlite_server cf lib dummy) a now e ps)"
  unfolding push_one_def put_one_def group_allowed_def group_owner_of_def server_simps
  by (intro avoids_intros assms)

lemma sqlite_handlers_gated:
  fixes cf lib dummy
  defines "sv \<equiv> sqlite_server cf lib dummy"
  shows "gated sv rq (rewrap sv rq b5)" "gated sv rq (logout sv rq)" "gated sv rq (keys sv rq)"
    "gated sv rq (lookup sv rq m)" "gated sv rq (pull sv rq c)" "gated sv rq (push sv rq b)"
    "gated sv rq (mine sv rq)" "gated sv rq (create_share sv rq s)" "gated sv rq (list_shares sv rq g)"
    "gated sv rq (remove_share sv rq g u)" "gated sv rq (list_devices sv rq)"
  unfolding sv_def rewrap_def logout_def keys_def lookup_def pull_def push_def mine_def create_share_def
    list_shares_def remove_share_def list_devices_def Let_def server_simps
  by (intro gatedI avoids_intros avoids_push_loop sqlite_push_one_avoids handler_errors hash_auth_key_error
      error.distinct error.distinct [symmetric])+

lemma gated_map_op:
  assumes "gated sv rq m"
  shows "gated sv rq (map_op f m)"
proof -
  from assms obtain g where m: "m = bind_op (caller sv rq) g" and g: "\<forall>a. \<forall>err \<in> at_the_door. avoids err (g a)"
    unfolding gated_def by blast
  have "map_op f (bind_op (caller sv rq) g) = bind_op (caller sv rq) (\<lambda>a. map_op f (g a))"
    by (rule ext) (simp add: map_op_def bind_op_def split: prod.split sum.split)
  with g show ?thesis unfolding m gated_def by (blast intro: avoids_map_op)
qed

lemma gated_verdict:
  assumes "gated sv rq m" "snd (caller sv rq ap) = ap" "\<And>e. fst (caller sv rq ap) = Inl e \<Longrightarrow> e = Unauthorised"
  shows "(\<exists>a. fst (caller sv rq ap) = Inr a) \<and> (\<forall>err \<in> at_the_door. fst (m ap) \<noteq> Inl err) \<or>
    (\<forall>a. fst (caller sv rq ap) \<noteq> Inr a) \<and> m ap = (Inl Unauthorised, ap)"
proof -
  from assms(1) obtain g where m: "m = bind_op (caller sv rq) g" and g: "\<And>a err. err \<in> at_the_door \<Longrightarrow> avoids err (g a)"
    unfolding gated_def by blast
  show ?thesis
  proof (cases "fst (caller sv rq ap)")
    case (Inl e)
    with assms(2,3) show ?thesis by (simp add: m bind_op_fst)
  next
    case (Inr a)
    with assms(2) avoidsD [OF g, of _ a ap] show ?thesis by (simp add: m bind_op_fst)
  qed
qed

lemma sqlite_gated_call:
  assumes "needs_session call"
  shows "gated (sqlite_server cf lib dummy) rq (handle (sqlite_server cf lib dummy) rq call)"
  using assms by (cases call) (simp_all add: gated_map_op sqlite_handlers_gated)

lemma sqlite_gated_verdict:
  assumes "needs_session call"
  shows "(\<exists>a. fst (caller (sqlite_server cf lib dummy) rq ap) = Inr a) \<and>
      (\<forall>err \<in> at_the_door. fst (handle (sqlite_server cf lib dummy) rq call ap) \<noteq> Inl err) \<or>
    (\<forall>a. fst (caller (sqlite_server cf lib dummy) rq ap) \<noteq> Inr a) \<and>
      handle (sqlite_server cf lib dummy) rq call ap = (Inl Unauthorised, ap)"
proof -
  have sv: "sv_store (sqlite_server cf lib dummy) = sqlite_store (lib_codec lib)" by simp
  show ?thesis
    by (rule gated_verdict [OF sqlite_gated_call [OF assms] sqlite.caller_read [OF sv]]) (rule sqlite.caller_error [OF sv])
qed

text \<open>C4: access control. A call behind the bearer token is answered with status 401 if and only if the
  request carries no bearer token or one that is not live as an access token, refresh tokens included. So refused, the
  answer is \<open>unauthorised\<close> and the state is as before, whatever the call; with a live token the call may
  fail otherwise, but with no error that has the status 401.\<close>

theorem sessions_decide_access:
  assumes "sqlite_inv (lib_codec lib) (ap_db ap)" "needs_session call"
    and "signed_in = (\<exists>a h. bearer lib rq = Some h \<and>
      session_token (tabs (ap_db ap)) (rn_caller rq) (hash_token lib (trim h)) ACCESS a)"
  shows "((\<exists>body. fst (respond (sqlite_server cf lib dummy) rq call ap) = Inl (401, body)) \<longleftrightarrow> \<not> signed_in) \<and>
    (if signed_in then fst (handle (sqlite_server cf lib dummy) rq call ap) \<notin> {Inl Unauthorised, Inl BadCredentials}
     else handle (sqlite_server cf lib dummy) rq call ap = (Inl Unauthorised, ap) \<and>
      respond (sqlite_server cf lib dummy) rq call ap =
        (Inl (401, \<lparr>ae_code = ''unauthorised'', ae_message = ''sign in first''\<rparr>), ap))"
proof -
  let ?sv = "sqlite_server cf lib dummy"
  have sv: "sv_store ?sv = sqlite_store (lib_codec lib)" by simp
  have signed: "signed_in \<longleftrightarrow> (\<exists>a. fst (caller ?sv rq ap) = Inr a)"
    unfolding assms(3) sqlite.caller_iff [OF sv assms(1)] by simp
  from sqlite_gated_verdict [OF assms(2), of cf lib dummy rq ap] show ?thesis
  proof (elim disjE conjE)
    assume "\<exists>a. fst (caller ?sv rq ap) = Inr a" and no: "\<forall>err \<in> at_the_door. fst (handle ?sv rq call ap) \<noteq> Inl err"
    have "fst (respond ?sv rq call ap) \<noteq> Inl (401, body)" for body
    proof (cases "fst (handle ?sv rq call ap)")
      case (Inl e)
      with no status_401 [of e] show ?thesis by (auto simp: respond_def split_beta)
    qed (simp add: respond_def)
    with no \<open>\<exists>a. fst (caller ?sv rq ap) = Inr a\<close> show ?thesis by (simp add: signed at_the_door_def)
  next
    assume "\<forall>a. fst (caller ?sv rq ap) \<noteq> Inr a" "handle ?sv rq call ap = (Inl Unauthorised, ap)"
    then show ?thesis by (simp add: signed respond_def into_response_def)
  qed
qed

theorem sessions_decide_access_witness:
  "handle sample_server sample_request (Pull 0) sample_app = (Inl Unauthorised, sample_app)"
proof -
  have "bearer sample_lib sample_request = None" by (simp add: bearer_def sample_request_def)
  then show ?thesis
    using sessions_decide_access [OF sample_app_inv, of "Pull 0" False sample_request open_config "''$dummy''"]
    unfolding sample_server_def by simp
qed

section \<open>The limiter\<close>

lemma guard_eq:
  "guard rq ap = (if fst (check (rn_instant rq) (sa_ip (rq_peer rq)) (ap_limit ap)) then Inr () else Inl RateLimited,
     ap\<lparr>ap_limit := snd (check (rn_instant rq) (sa_ip (rq_peer rq)) (ap_limit ap))\<rparr>)"
  by (simp add: guard_def split_beta)

lemma sqlite_issue_session_avoids:
  "handler_error err \<Longrightarrow> avoids err (issue_session (sqlite_server cf lib dummy) rq a d n)"
  unfolding issue_session_def Let_def server_simps by (intro avoids_intros)

definition after_guard :: "request \<Rightarrow> (error, 's app, 'a) op \<Rightarrow> bool" where
  "after_guard rq m \<longleftrightarrow> (\<exists>g. m = bind_op (guard rq) g \<and> (\<forall>u. avoids RateLimited (g u)))"

lemma after_guardI: "(\<And>u. avoids RateLimited (g u)) \<Longrightarrow> after_guard rq (bind_op (guard rq) g)"
  unfolding after_guard_def by blast

lemma after_guard_verdict:
  assumes "after_guard rq m"
  shows "if fst (guard rq ap) = Inr () then fst (m ap) \<noteq> Inl RateLimited else m ap = (Inl RateLimited, snd (guard rq ap))"
proof -
  from assms obtain g where m: "m = bind_op (guard rq) g" and g: "\<And>u. avoids RateLimited (g u)"
    unfolding after_guard_def by blast
  show ?thesis
    using avoidsD [OF g, of "()" "snd (guard rq ap)"] by (auto simp: m guard_eq bind_op_fst)
qed

lemma validate_email_error: "handler_error err \<Longrightarrow> validate_email m \<noteq> Inl err"
  by (auto simp: validate_email_def handler_error_def Let_def)

lemma sqlite_guarded_calls:
  fixes cf lib dummy
  defines "sv \<equiv> sqlite_server cf lib dummy"
  shows "after_guard rq (register sv rq b1)" "after_guard rq (login sv rq b2)" "after_guard rq (recover sv rq b4)"
  unfolding sv_def register_def login_def recover_def Let_def server_simps
  by (intro after_guardI avoids_intros sqlite_issue_session_avoids handler_errors hash_auth_key_error
      validate_email_error error.distinct error.distinct [symmetric])+

lemma sqlite_refresh_avoids: "avoids RateLimited (refresh (sqlite_server cf lib dummy) rq b)"
  unfolding refresh_def server_simps
  by (intro avoids_intros sqlite_issue_session_avoids handler_errors error.distinct error.distinct [symmetric])

lemma after_guard_map_op:
  assumes "after_guard rq m"
  shows "after_guard rq (map_op f m)"
proof -
  from assms obtain g where m: "m = bind_op (guard rq) g" and g: "\<And>u. avoids RateLimited (g u)"
    unfolding after_guard_def by blast
  have "map_op f (bind_op (guard rq) g) = bind_op (guard rq) (\<lambda>u. map_op f (g u))"
    by (rule ext) (simp add: map_op_def bind_op_def split: prod.split sum.split)
  with g show ?thesis unfolding m by (auto intro!: after_guardI avoids_map_op)
qed

lemma sqlite_guarded_call:
  "guarded call \<Longrightarrow> after_guard rq (handle (sqlite_server cf lib dummy) rq call)"
  by (cases call) (simp_all add: after_guard_map_op sqlite_guarded_calls)

lemma sqlite_unguarded_call:
  assumes "\<not> guarded call"
  shows "fst (handle (sqlite_server cf lib dummy) rq call ap) \<noteq> Inl RateLimited"
proof (cases "needs_session call")
  case True
  from sqlite_gated_verdict [OF True, of cf lib dummy rq ap] show ?thesis by (auto simp: at_the_door_def)
next
  case False
  with assms avoidsD [OF avoids_map_op [OF sqlite_refresh_avoids]] show ?thesis
    by (cases call) (simp_all add: ok_op_def)
qed

text \<open>C34: the limiter is a guard of register, login and recover and of nothing else: only they move it, only
  they are answered 429, and they are exactly when their address has used up its attempts; a call so refused does
  nothing beyond the limiter's own bookkeeping.\<close>

theorem limiter_guards_the_guessing_calls:
  "(if guarded call \<and> \<not> fst (check (rn_instant rq) (sa_ip (rq_peer rq)) (ap_limit ap))
    then handle (sqlite_server cf lib dummy) rq call ap =
      (Inl RateLimited, ap\<lparr>ap_limit := snd (check (rn_instant rq) (sa_ip (rq_peer rq)) (ap_limit ap))\<rparr>)
    else fst (handle (sqlite_server cf lib dummy) rq call ap) \<noteq> Inl RateLimited) \<and>
   ap_limit (snd (handle (sqlite_server cf lib dummy) rq call ap)) =
     (if guarded call then snd (check (rn_instant rq) (sa_ip (rq_peer rq)) (ap_limit ap)) else ap_limit ap)"
proof (intro conjI handle_limit)
  show "if guarded call \<and> \<not> fst (check (rn_instant rq) (sa_ip (rq_peer rq)) (ap_limit ap))
    then handle (sqlite_server cf lib dummy) rq call ap =
      (Inl RateLimited, ap\<lparr>ap_limit := snd (check (rn_instant rq) (sa_ip (rq_peer rq)) (ap_limit ap))\<rparr>)
    else fst (handle (sqlite_server cf lib dummy) rq call ap) \<noteq> Inl RateLimited"
  proof (cases "guarded call")
    case True
    then have "after_guard rq (handle (sqlite_server cf lib dummy) rq call)" by (rule sqlite_guarded_call)
    from after_guard_verdict [OF this, of ap] True show ?thesis by (auto simp: guard_eq split: if_splits)
  next
    case False
    then show ?thesis by (simp add: sqlite_unguarded_call)
  qed
qed

end
