(* ===== verification/Progress.thy ===== *)
theory Progress
  imports System
begin

text \<open>
  What history an instance keeps: \<open>advances\<close> relates two states of the SQLite database when no
  sequence number went back, every row that is new or rewritten has a number above all earlier ones, and every
  record of the earlier state is still there, unchanged or replaced by a newer version of itself. Every
  handler advances, so every run does.
\<close>

section \<open>Advancing\<close>

definition advances :: "sqlite_db \<Rightarrow> sqlite_db \<Rightarrow> bool" where
  "advances db db' \<longleftrightarrow> sqlite_counter db \<le> sqlite_counter db' \<and>
     (\<forall>r \<in> set (records (tabs db')). r \<in> set (records (tabs db)) \<or> sqlite_counter db < r_seq r) \<and>
     (\<forall>r \<in> set (records (tabs db)). \<exists>r' \<in> set (records (tabs db')).
        record_key r' = record_key r \<and> (r' = r \<or> sqlite_newer r' r))"

lemma advances_refl: "records (tabs db') = records (tabs db) \<Longrightarrow> sequence db' = sequence db \<Longrightarrow> advances db db'"
  by (auto simp: advances_def sqlite_counter_def)

lemma advances_trans:
  assumes "advances a b" "advances b c"
  shows "advances a c"
proof -
  have count: "sqlite_counter a \<le> sqlite_counter b" "sqlite_counter b \<le> sqlite_counter c"
    using assms by (simp_all add: advances_def)
  have "r \<in> set (records (tabs a)) \<or> sqlite_counter a < r_seq r" if "r \<in> set (records (tabs c))" for r
    using assms that count unfolding advances_def by fastforce
  moreover have "\<exists>r'' \<in> set (records (tabs c)). record_key r'' = record_key r \<and> (r'' = r \<or> sqlite_newer r'' r)"
    if "r \<in> set (records (tabs a))" for r
  proof -
    from assms(1) that obtain r' where r': "r' \<in> set (records (tabs b))" "record_key r' = record_key r" "r' = r \<or> sqlite_newer r' r"
      unfolding advances_def by blast
    with assms(2) obtain r'' where "r'' \<in> set (records (tabs c))" "record_key r'' = record_key r'" "r'' = r' \<or> sqlite_newer r'' r'"
      unfolding advances_def by blast
    with r' sqlite.trans show ?thesis by metis
  qed
  ultimately show ?thesis using count by (simp add: advances_def)
qed

lemma advances_put_envelope:
  assumes "sqlite_inv cd db"
  shows "advances db (snd (sqlite_put_envelope cd a e db))"
proof (cases "snd (sqlite_put_envelope cd a e db) = db")
  case True
  then show ?thesis by (simp add: advances_refl)
next
  case False
  obtain n where n: "sequence db = Some n" using assms by (auto simp: sqlite_inv_def)
  with False obtain j rs ret where up: "checked_upsert record_key (record_on_conflict sqlite_newer) (has_account (tabs db) a)
      (record_row_of cd a (n + 1) j e) (records (tabs db)) = Inr (rs, ret)"
    and db': "snd (sqlite_put_envelope cd a e db) = db\<lparr>sequence := Some (n + 1), tabs := (tabs db)\<lparr>records := rs\<rparr>\<rparr>"
    by (auto simp: sqlite_put_envelope_def split: if_splits sum.splits)
  define new where "new = record_row_of cd a (n + 1) j e"
  have rs: "rs = fst (upsert record_key (record_on_conflict sqlite_newer) new (records (tabs db)))"
    using up unfolding new_def by (simp add: checked_upsert_Inr) (metis fst_conv)
  have dist: "distinct (map record_key (records (tabs db)))"
    using sqlite_inv_ok [OF assms] by (simp add: tables_ok_defs)
  have "r \<in> set (records (tabs db)) \<or> r_seq r = n + 1" if "r \<in> set rs" for r
    using set_upsertD [OF that [unfolded rs]] by (auto simp: record_upsert_returns new_def split: option.splits if_splits)
  moreover have "\<exists>r' \<in> set rs. record_key r' = record_key r \<and> (r' = r \<or> sqlite_newer r' r)"
    if r: "r \<in> set (records (tabs db))" for r
  proof (cases rule: upsert_cases [of record_key new "records (tabs db)" "record_on_conflict sqlite_newer"])
    case inserted
    with r rs show ?thesis by auto
  next
    case (kept old)
    with r rs show ?thesis by auto
  next
    case (updated old r')
    then have new: "r' = new" "sqlite_newer new old" and old: "record_key old = record_key new"
      by (auto simp: record_on_conflict_def dest: row_at_Some split: if_splits)
    show ?thesis
    proof (cases "record_key r = record_key new")
      case True
      then have "row_at record_key (record_key new) (records (tabs db)) = Some r"
        using r dist by (simp add: row_at_in)
      with updated(1) have "old = r" by simp
      moreover have "new \<in> set rs" using r True by (auto simp: rs updated(3) new(1))
      ultimately show ?thesis using new(2) True by metis
    next
      case False
      then have "r \<in> set rs" using r by (auto simp: rs updated(3) image_iff)
      then show ?thesis by blast
    qed
  qed
  ultimately show ?thesis
    unfolding advances_def db' by (simp add: sqlite_counter_def n) fastforce
qed

lemma advances_frame:
  "advances db (snd (sqlite_create_account cd now b m db))"
  "advances db (snd (sqlite_rewrap_account i m db))"
  "advances db (snd (sqlite_put_token h a k x db))"
  "advances db (snd (sqlite_consume_token now h k db))"
  "advances db (snd (sqlite_revoke_account_tokens a db))"
  "advances db (snd (sqlite_put_share now a g u w db))"
  "advances db (snd (sqlite_delete_share a g u db))"
  "advances db (snd (sqlite_touch_device now a d nm db))"
  by (auto intro!: advances_refl simp: sqlite_defs op_defs sqlite_account_by_id_def Let_def delete_returning_def
      split: sum.splits option.splits prod.splits)

section \<open>Every run advances\<close>

definition advanced_from :: "codec \<Rightarrow> sqlite_db \<Rightarrow> sqlite_db \<Rightarrow> bool" where
  "advanced_from cd db0 db \<longleftrightarrow> sqlite_inv cd db \<and> advances db0 db"

lemma keeps_advanced:
  assumes "keeps (sqlite_inv cd) f" "\<And>db. sqlite_inv cd db \<Longrightarrow> advances db (snd (f db))"
  shows "keeps (advanced_from cd db0) f"
  using assms advances_trans unfolding keeps_def advanced_from_def by blast

lemma sqlite_store_advances: "store_keeps (advanced_from cd db0) (sqlite_store cd)"
proof -
  have reads: "keeps (advanced_from cd db0) f" if "\<And>db. snd (f db) = db" for f :: "(error, sqlite_db, 'a) op"
    using that by (simp add: keeps_def)
  note inv = sqlite_store_keeps_inv [of cd, unfolded store_keeps_def]
  show ?thesis
    unfolding store_keeps_def
    by (intro conjI allI; (rule reads, simp add: sqlite_store_def sqlite_read_defs Let_def split: option.split; fail)?;
        (rule keeps_advanced, simp add: inv, simp add: sqlite_store_def advances_frame advances_put_envelope; fail)?)
qed

text \<open>no update is lost and no record vanishes. Between any two states of one run, the sequence counter
  does not go back; each record of the earlier state is in the later one, as it was or replaced by a version with a
  later clock, or the same clock and a greater device; and each row that is new or rewritten carries a number above the earlier
  counter, so a device that had read up to the counter is shown it.\<close>

theorem sqlite_history_only_grows:
  assumes "sqlite_inv (lib_codec lib) (ap_db ap)" "reach (sqlite_server cf lib dummy) ap ap'"
  shows "sqlite_counter (ap_db ap) \<le> sqlite_counter (ap_db ap') \<and>
    (\<forall>r \<in> set (records (tabs (ap_db ap))). \<exists>r' \<in> set (records (tabs (ap_db ap'))).
      record_key r' = record_key r \<and> (r' = r \<or> r_updated_at r < r_updated_at r' \<or>
        r_updated_at r = r_updated_at r' \<and> r_device_id r < r_device_id r')) \<and>
    (\<forall>r \<in> set (records (tabs (ap_db ap'))) - set (records (tabs (ap_db ap))). sqlite_counter (ap_db ap) < r_seq r)"
proof -
  have "store_keeps (advanced_from (lib_codec lib) (ap_db ap)) (sv_store (sqlite_server cf lib dummy))"
    by (simp add: sqlite_store_advances)
  from reach_keeps [OF this assms(2)] assms(1) have "advances (ap_db ap) (ap_db ap')"
    by (simp add: advanced_from_def advances_refl)
  then show ?thesis unfolding advances_def sqlite_newer_def by fastforce
qed

theorem sqlite_history_only_grows_witness:
  "\<exists>ap r'. ap = snd (handle demo_server bob (Push bob_push) logged_app) \<and> sqlite_counter (ap_db logged_app) \<le> sqlite_counter (ap_db ap) \<and>
     r' \<in> set (records (tabs (ap_db ap))) \<and> record_key r' = (''u'', ''host'', ''h2'')"
proof -
  let ?ap = "snd (handle demo_server bob (Push bob_push) logged_app)"
  let ?r = "pushed_row (lib_codec sample_lib) ''u'' 3 (sample_envelope\<lparr>e_id := ''h2''\<rparr>)"
  have "reach demo_server logged_app ?ap" by (rule reach.request [OF reach.start refl])
  from sqlite_history_only_grows [OF logged_app_inv this [unfolded demo_server_def]]
  have "sqlite_counter (ap_db logged_app) \<le> sqlite_counter (ap_db ?ap)"
    "\<forall>r \<in> set (records (tabs (ap_db logged_app))). \<exists>r' \<in> set (records (tabs (ap_db ?ap))). record_key r' = record_key r"
    unfolding demo_server_def by blast+
  moreover have "?r \<in> set (records (tabs (ap_db logged_app)))" by (simp add: logged_app_def)
  moreover have "record_key ?r = (''u'', ''host'', ''h2'')" by (simp add: pushed_row_def sample_envelope_def)
  ultimately show ?thesis by metis
qed

end
