(* ===== verification/Wire_Payload.thy ===== *)
theory Wire_Payload
  imports Wire_Record
begin

text \<open>
  The payloads of \<^verbatim>\<open>record.rs\<close>, one per record kind: what a client seals into the ciphertext of an
  envelope. The server never sees one.
\<close>

record host_payload =
  hp_group_id :: "string option"
  hp_label :: string
  hp_hostname :: string
  hp_port :: "i64 option"
  hp_identity_id :: "string option"
  hp_jump_host_id :: "string option"
  hp_color :: "string option"
  hp_icon :: "string option"
  hp_tags :: "string list"
  hp_sort :: i64
  hp_username :: "string option"
  hp_auth_kind :: "string option"
  hp_key_fingerprint :: "string option"
  hp_created_at :: i64

record group_payload =
  gp_parent_id :: "string option"
  gp_name :: string
  gp_sort :: i64
  gp_default_port :: "i64 option"
  gp_default_identity_id :: "string option"
  gp_default_jump_host_id :: "string option"
  gp_icon :: "string option"
  gp_color :: "string option"
  gp_created_at :: i64

record identity_payload =
  ip_label :: string
  ip_username :: string
  ip_auth_kind :: string
  ip_key_fingerprint :: "string option"
  ip_created_at :: i64

record var_def_payload =
  vp_scope :: string
  vp_scope_id :: string
  vp_name :: string
  vp_label :: "string option"
  vp_default_value :: "string option"
  vp_required :: bool
  vp_created_at :: i64

record setting_payload =
  sp_key :: string
  sp_value :: string

record workspace_payload =
  wp_name :: string
  wp_layout_json :: string
  wp_created_at :: i64

record device_layout_payload =
  dp_device_name :: string
  dp_layout_json :: string

end
