(* ===== verification/Crypto.thy ===== *)
theory Crypto
  imports Wire_Payload
begin

text \<open>
  \<^verbatim>\<open>crates/remotier-sync-proto/src/crypto.rs\<close>: the key hierarchy, sealing, and the anonymous box a group
  key is wrapped in. The primitives (crates \<open>sha2\<close>, \<open>argon2\<close>, \<open>hkdf\<close>,
  \<open>chacha20poly1305\<close>, \<open>x25519-dalek\<close>) are third-party: they are the fields of
  \<open>primitives\<close>, and \<open>aead_ok\<close>, \<open>exchange_ok\<close> and \<open>kdf_ok\<close> collect the documented laws used here. Random bytes are
  arguments. A \<open>ContentKey\<close>, a \<open>StaticSecret\<close> and a \<open>PublicKey\<close> are byte lists of
  length 32; zeroing on drop is not modelled.
\<close>

section \<open>The primitives\<close>

type_synonym bytes = "u8 list"

text \<open>Argon2 parameters: memory, passes, lanes, output length.\<close>

type_synonym argon_params = "nat \<times> nat \<times> nat \<times> nat option"

record primitives =
  sha256 :: "bytes \<Rightarrow> bytes"
  params_new :: "nat \<Rightarrow> nat \<Rightarrow> nat \<Rightarrow> nat option \<Rightarrow> string + argon_params"
  hash_password_into :: "argon_params \<Rightarrow> bytes \<Rightarrow> bytes \<Rightarrow> nat \<Rightarrow> string + bytes"
  hkdf_expand :: "bytes option \<Rightarrow> bytes \<Rightarrow> bytes \<Rightarrow> nat \<Rightarrow> string + bytes"
  key_fits :: "bytes \<Rightarrow> bool"
  nonce_fits :: "bytes \<Rightarrow> bool"
  aead_encrypt :: "bytes \<Rightarrow> bytes \<Rightarrow> bytes \<Rightarrow> bytes \<Rightarrow> bytes option"
  aead_decrypt :: "bytes \<Rightarrow> bytes \<Rightarrow> bytes \<Rightarrow> bytes \<Rightarrow> bytes option"
  x25519_public :: "bytes \<Rightarrow> bytes"
  x25519 :: "bytes \<Rightarrow> bytes \<Rightarrow> bytes"

text \<open>
  The laws. Slices of the right length make keys and nonces. Encryption takes any message below 4 GiB, and
  decryption yields a message exactly for the ciphertexts encryption makes of it: it recomputes the tag.
  A SHA-256 digest is 32 bytes. The two ends of an exchange share a secret. HKDF and Argon2 fill the 32 bytes asked for.
\<close>

definition aead_ok :: "primitives \<Rightarrow> bool" where
  "aead_ok pr \<longleftrightarrow>
     (\<forall>k. key_fits pr k \<longleftrightarrow> length k = 32) \<and> (\<forall>n. nonce_fits pr n \<longleftrightarrow> length n = 24) \<and>
     (\<forall>k n a m. length k = 32 \<longrightarrow> length n = 24 \<longrightarrow> length m < 4294967296 \<longrightarrow> aead_encrypt pr k n a m \<noteq> None) \<and>
     (\<forall>k n a m c. length k = 32 \<longrightarrow> length n = 24 \<longrightarrow>
        aead_decrypt pr k n a c = Some m \<longleftrightarrow> aead_encrypt pr k n a m = Some c)"

definition exchange_ok :: "primitives \<Rightarrow> bool" where
  "exchange_ok pr \<longleftrightarrow>
     (\<forall>s. length (x25519_public pr s) = 32) \<and>
     (\<forall>s t. x25519 pr s (x25519_public pr t) = x25519 pr t (x25519_public pr s))"

definition kdf_ok :: "primitives \<Rightarrow> bool" where
  "kdf_ok pr \<longleftrightarrow>
     (\<forall>b. length (sha256 pr b) = 32) \<and>
     (\<forall>salt i info. \<exists>b. length b = 32 \<and> hkdf_expand pr salt i info 32 = Inr b) \<and>
     (\<exists>ps. params_new pr 19456 2 1 (Some 32) = Inr ps \<and>
        (\<forall>p s. length p < 4294967296 \<longrightarrow> 8 \<le> length s \<longrightarrow> length s < 4294967296 \<longrightarrow>
          (\<exists>b. length b = 32 \<and> hash_password_into pr ps p s 32 = Inr b)))"

lemma aead_okD:
  assumes "aead_ok pr"
  shows "key_fits pr k \<longleftrightarrow> length k = 32" "nonce_fits pr n \<longleftrightarrow> length n = 24"
    and "length k = 32 \<Longrightarrow> length n = 24 \<Longrightarrow> aead_decrypt pr k n a c = Some m \<longleftrightarrow> aead_encrypt pr k n a m = Some c"
    and "length k = 32 \<Longrightarrow> length n = 24 \<Longrightarrow> length m < 4294967296 \<Longrightarrow> \<exists>c. aead_encrypt pr k n a m = Some c"
  using assms by (simp_all add: aead_ok_def)

lemma exchange_okD:
  assumes "exchange_ok pr"
  shows "length (x25519_public pr s) = 32"
    and "x25519 pr s (x25519_public pr t) = x25519 pr t (x25519_public pr s)"
  using assms by (simp_all add: exchange_ok_def)

lemma kdf_okD:
  assumes "kdf_ok pr"
  shows "length (sha256 pr b) = 32"
    and "\<exists>b. length b = 32 \<and> hkdf_expand pr salt i info 32 = Inr b"
  using assms by (simp_all add: kdf_ok_def)

section \<open>Constants and errors\<close>

definition KEY_LEN :: nat where "KEY_LEN = 32"

definition NONCE_LEN :: nat where "NONCE_LEN = 24"

definition ARGON_M_COST :: nat where "ARGON_M_COST = 19 * 1024"

definition ARGON_T_COST :: nat where "ARGON_T_COST = 2"

definition ARGON_P_COST :: nat where "ARGON_P_COST = 1"

definition SALT_CONTEXT :: bytes where "SALT_CONTEXT = as_bytes ''remotier.salt.v1''"

definition INFO_AUTH :: bytes where "INFO_AUTH = as_bytes ''remotier.auth.v1''"

definition INFO_WRAP :: bytes where "INFO_WRAP = as_bytes ''remotier.wrap.v1''"

definition INFO_BOX :: bytes where "INFO_BOX = as_bytes ''remotier.box.v1''"

datatype crypto_error =
    Kdf string
  | Decrypt
  | Encrypt
  | Length string nat nat
  | Json string

text \<open>The \<open>?\<close> operator, and \<open>map_err\<close> on a third-party result.\<close>

definition and_then :: "'e + 'a \<Rightarrow> ('a \<Rightarrow> 'e + 'b) \<Rightarrow> 'e + 'b" where
  "and_then r f = (case r of Inl e \<Rightarrow> Inl e | Inr x \<Rightarrow> f x)"

definition map_err :: "('d \<Rightarrow> 'e) \<Rightarrow> 'd + 'a \<Rightarrow> 'e + 'a" where
  "map_err f r = map_sum f id r"

lemma and_then_simps [simp]:
  "and_then (Inl e) f = Inl e"
  "and_then (Inr x) f = f x"
  "and_then r f = Inr y \<longleftrightarrow> (\<exists>x. r = Inr x \<and> f x = Inr y)"
  "map_err g (Inl d) = Inl (g d)"
  "map_err g (Inr x) = Inr x"
  by (simp_all add: and_then_def map_err_def split: sum.splits)

section \<open>The key hierarchy\<close>

definition key_from :: "bytes \<Rightarrow> string \<Rightarrow> crypto_error + bytes" where
  "key_from b what =
     (if length b = KEY_LEN then Inr b else Inl (Length what (length b) KEY_LEN))"

record account_keys =
  ak_auth :: bytes
  ak_wrap :: bytes

definition argon2id :: "primitives \<Rightarrow> bytes \<Rightarrow> bytes \<Rightarrow> crypto_error + bytes" where
  "argon2id pr secret salt =
     and_then (map_err Kdf (params_new pr ARGON_M_COST ARGON_T_COST ARGON_P_COST (Some KEY_LEN))) (\<lambda>params.
     map_err Kdf (hash_password_into pr params secret salt KEY_LEN))"

definition subkey :: "primitives \<Rightarrow> bytes \<Rightarrow> bytes \<Rightarrow> crypto_error + bytes" where
  "subkey pr master info = map_err Kdf (hkdf_expand pr None master info KEY_LEN)"

text \<open>What the salt is a digest of.\<close>

definition account_salt :: "string \<Rightarrow> bytes" where
  "account_salt email = SALT_CONTEXT @ as_bytes (to_ascii_lowercase (trim email))"

definition derive_master :: "primitives \<Rightarrow> string \<Rightarrow> string \<Rightarrow> crypto_error + bytes" where
  "derive_master pr password email =
     (let salt = sha256 pr (account_salt email)
      in argon2id pr (as_bytes password) salt)"

definition derive_account_keys :: "primitives \<Rightarrow> string \<Rightarrow> string \<Rightarrow> crypto_error + account_keys" where
  "derive_account_keys pr password email =
     and_then (derive_master pr password email) (\<lambda>master.
     and_then (subkey pr master INFO_AUTH) (\<lambda>auth.
     and_then (subkey pr master INFO_WRAP) (\<lambda>wrap.
     Inr \<lparr>ak_auth = auth, ak_wrap = wrap\<rparr>)))"

definition derive_recovery_keys :: "primitives \<Rightarrow> string \<Rightarrow> crypto_error + account_keys" where
  "derive_recovery_keys pr code =
     (let normalised = to_ascii_uppercase (remove_chars ''- '' code)
      in and_then (argon2id pr (as_bytes normalised) (as_bytes ''remotier.recovery.v1'')) (\<lambda>master.
         and_then (subkey pr master INFO_AUTH) (\<lambda>auth.
         and_then (subkey pr master INFO_WRAP) (\<lambda>wrap.
         Inr \<lparr>ak_auth = auth, ak_wrap = wrap\<rparr>))))"

text \<open>Fresh bytes from the AEAD's generator.\<close>

definition random_key :: "bytes \<Rightarrow> bytes" where
  "random_key generated = generated"

section \<open>Sealing\<close>

definition seal :: "primitives \<Rightarrow> bytes \<Rightarrow> bytes \<Rightarrow> bytes \<Rightarrow> bytes \<Rightarrow> crypto_error + bytes \<times> bytes" where
  "seal pr nonce key ad plaintext =
     (if \<not> key_fits pr key then Inl Encrypt
      else case aead_encrypt pr key nonce ad plaintext of
        None \<Rightarrow> Inl Encrypt
      | Some ciphertext \<Rightarrow> Inr (nonce, ciphertext))"

definition unseal :: "primitives \<Rightarrow> bytes \<Rightarrow> bytes \<Rightarrow> bytes \<Rightarrow> bytes \<Rightarrow> crypto_error + bytes" where
  "unseal pr key ad nonce ciphertext =
     (if \<not> key_fits pr key then Inl Decrypt
      else if \<not> nonce_fits pr nonce then Inl (Length ''nonce'' (length nonce) NONCE_LEN)
      else case aead_decrypt pr key nonce ad ciphertext of
        None \<Rightarrow> Inl Decrypt
      | Some plaintext \<Rightarrow> Inr plaintext)"

text \<open>The JSON writer and reader of the payload type are the trait instances the caller brings.\<close>

definition seal_json ::
  "('a \<Rightarrow> string + bytes) \<Rightarrow> primitives \<Rightarrow> bytes \<Rightarrow> bytes \<Rightarrow> bytes \<Rightarrow> 'a \<Rightarrow> crypto_error + bytes \<times> bytes" where
  "seal_json to_vec pr nonce key ad v = and_then (map_err Json (to_vec v)) (\<lambda>json. seal pr nonce key ad json)"

definition open_json ::
  "(bytes \<Rightarrow> string + 'a) \<Rightarrow> primitives \<Rightarrow> bytes \<Rightarrow> bytes \<Rightarrow> bytes \<Rightarrow> bytes \<Rightarrow> crypto_error + 'a" where
  "open_json from_slice pr key ad nonce ciphertext =
     and_then (unseal pr key ad nonce ciphertext) (\<lambda>json. map_err Json (from_slice json))"

section \<open>The account keypair and the wrapping of a group key\<close>

definition generate_account_keypair :: "primitives \<Rightarrow> bytes \<Rightarrow> bytes \<times> bytes" where
  "generate_account_keypair pr generated =
     (let secret = random_key generated; public = x25519_public pr secret in (secret, public))"

definition public_from_bytes :: "bytes \<Rightarrow> crypto_error + bytes" where
  "public_from_bytes b = (if length b = 32 then Inr b else Inl (Length ''public key'' (length b) 32))"

definition secret_from_bytes :: "bytes \<Rightarrow> crypto_error + bytes" where
  "secret_from_bytes b = (if length b = 32 then Inr b else Inl (Length ''secret key'' (length b) 32))"

definition box_key :: "primitives \<Rightarrow> bytes \<Rightarrow> bytes \<Rightarrow> bytes \<Rightarrow> crypto_error + bytes" where
  "box_key pr shared eph_public recipient =
     map_err Kdf (hkdf_expand pr (Some (eph_public @ recipient)) shared INFO_BOX KEY_LEN)"

definition wrap_for :: "primitives \<Rightarrow> bytes \<Rightarrow> bytes \<Rightarrow> bytes \<Rightarrow> bytes \<Rightarrow> crypto_error + bytes" where
  "wrap_for pr generated nonce recipient key =
     (let (eph_secret, eph_public) = generate_account_keypair pr generated;
          shared = x25519 pr eph_secret recipient
      in and_then (box_key pr shared eph_public recipient) (\<lambda>wrapping.
         and_then (seal pr nonce wrapping INFO_BOX key) (\<lambda>(nonce, ciphertext).
         Inr (eph_public @ nonce @ ciphertext))))"

definition unwrap_with :: "primitives \<Rightarrow> bytes \<Rightarrow> bytes \<Rightarrow> crypto_error + bytes" where
  "unwrap_with pr secret blob =
     (if length blob < 32 + NONCE_LEN then Inl (Length ''wrapped key'' (length blob) (32 + NONCE_LEN))
      else and_then (public_from_bytes (take 32 blob)) (\<lambda>eph_public.
        let nonce = take NONCE_LEN (drop 32 blob);
            ciphertext = drop (32 + NONCE_LEN) blob;
            shared = x25519 pr secret eph_public;
            ours = x25519_public pr secret
        in and_then (box_key pr shared eph_public ours) (\<lambda>wrapping.
           and_then (unseal pr wrapping INFO_BOX nonce ciphertext) (\<lambda>plaintext.
           key_from plaintext ''unwrapped key''))))"

section \<open>Recovery codes\<close>

definition ALPHABET :: string where
  "ALPHABET = ''ABCDEFGHJKMNPQRSTVWXYZ0123456789''"

text \<open>One pass of the loop: the separator before every fifth symbol but the first, then the symbol.\<close>

definition push_symbol :: "string \<Rightarrow> nat \<times> u8 \<Rightarrow> string" where
  "push_symbol out ib =
     (let (i, b) = ib;
          out = (if i > 0 \<and> i mod 5 = 0 then out @ ''-'' else out)
      in out @ [ALPHABET ! (unat b mod length ALPHABET)])"

definition generate_recovery_code :: "bytes \<Rightarrow> string" where
  "generate_recovery_code generated =
     foldl push_symbol [] (enumerate 0 (take 20 (random_key generated)))"

end
