(* ===== verification/Crypto_Facts.thy ===== *)
theory Crypto_Facts
  imports Crypto Store_Trait
begin

text \<open>
  What the client cryptography promises: a sealed payload opens for the identity it was sealed under, a wrapped
  group key for the account it was wrapped for, the same address and the same recovery code give the same
  keys however they are typed; and where the server and the client disagree on which addresses are the same.
\<close>

section \<open>Sealing\<close>

lemma seal_Inr:
  assumes "aead_ok pr" "seal pr nonce key ad m = Inr (n, c)"
  shows "n = nonce" "length key = 32" "aead_encrypt pr key nonce ad m = Some c"
  using assms by (auto simp: seal_def aead_okD split: if_splits option.splits)

lemma unseal_Inr:
  assumes "aead_ok pr"
  shows "unseal pr key ad n c = Inr m \<longleftrightarrow> length key = 32 \<and> length n = 24 \<and> aead_encrypt pr key n ad m = Some c"
  using aead_okD(3) [OF assms, of key n ad c m]
  by (auto simp: unseal_def aead_okD(1,2) [OF assms] split: option.splits)

lemma seal_total:
  assumes "aead_ok pr" "length key = 32" "length nonce = 24" "length m < 4294967296"
  obtains c where "seal pr nonce key ad m = Inr (nonce, c)" "unseal pr key ad nonce c = Inr m"
proof -
  from aead_okD(4) [OF assms] obtain c where "aead_encrypt pr key nonce ad m = Some c" by blast
  moreover from this have "seal pr nonce key ad m = Inr (nonce, c)" "unseal pr key ad nonce c = Inr m"
    using assms by (simp_all add: seal_def aead_okD unseal_Inr)
  ultimately show ?thesis using that by blast
qed

text \<open>C37: a record opens for the identity it was sealed under and no other, among ids without the separator byte. What was sealed with the
  associated data of one envelope opens, to the plaintext that was sealed, under any envelope of the same id,
  kind, clock and device, whatever the server did to the other fields. Whoever makes it open under another identity, whose id
  does not contain the separator either, has found two associated data with one ciphertext under one key and nonce, a forgery of the cipher's tag.
  (With the separator in an id, two identities can have the same associated data: \<open>aad_ambiguous_with_separator\<close>.)\<close>

theorem sealed_record_is_bound:
  assumes "aead_ok pr" "length nonce = 24" "seal pr nonce key (aad e) m = Inr (n, c)"
    and "separator \<notin> set (e_id e)" "separator \<notin> set (e_id e')" "is_i64 (e_updated_at e)" "is_i64 (e_updated_at e')"
    and "same = (e_id e = e_id e' \<and> e_kind e = e_kind e' \<and> e_updated_at e = e_updated_at e' \<and> e_device_id e = e_device_id e')"
  shows "if same then unseal pr key (aad e') n c = Inr m
    else aad e' \<noteq> aad e \<and> (\<forall>m'. unseal pr key (aad e') n c = Inr m' \<longrightarrow>
      aead_encrypt pr key n (aad e') m' = aead_encrypt pr key n (aad e) m)"
proof -
  note sealed = seal_Inr [OF assms(1,3)]
  have "aad e = aad e' \<longleftrightarrow> same" unfolding assms(8) by (rule aad_identity [OF assms(4,5,6,7)])
  with sealed assms(2) show ?thesis by (auto simp: unseal_Inr [OF assms(1)])
qed

text \<open>A payload sealed as JSON for an envelope, stored as a row and read back opens to what was sealed.\<close>

theorem payload_survives_the_server:
  assumes "aead_ok pr" "codec_ok cd" "key_ref_to_json cd (e_key_ref e) = Inr j"
    and "to_vec v = Inr b" "from_slice b = Inr v" "length b < 4294967296" "length key = 32" "length nonce = 24"
    and "seal_json to_vec pr nonce key (aad e) v = Inr (n, c)"
  shows "\<exists>e'. envelope_from_row cd (record_row_of cd account seq j (e\<lparr>e_nonce := n, e_ciphertext := c\<rparr>)) = Inr e' \<and>
    open_json from_slice pr key (aad e') (e_nonce e') (e_ciphertext e') = Inr v"
proof -
  have "seal pr nonce key (aad e) b = Inr (n, c)" using assms(4,9) by (simp add: seal_json_def)
  with assms(1,8) have "unseal pr key (aad e) n c = Inr b" by (auto simp: unseal_Inr dest: seal_Inr)
  then have "open_json from_slice pr key (aad e) n c = Inr v" using assms(5) by (simp add: open_json_def)
  moreover have "aad (e\<lparr>e_nonce := n, e_ciphertext := c, e_seq := seq\<rparr>) = aad e" by (simp add: aad_def)
  ultimately show ?thesis using codec_ok_row [OF assms(2), of "e\<lparr>e_nonce := n, e_ciphertext := c\<rparr>" j account seq] assms(3)
    by simp
qed

section \<open>Wrapping\<close>

lemma box_key_total:
  assumes "kdf_ok pr"
  obtains w where "box_key pr shared eph ours = Inr w" "length w = 32"
proof -
  from kdf_okD(2) [OF assms, of "Some (eph @ ours)" shared INFO_BOX]
  obtain w where "length w = 32" "hkdf_expand pr (Some (eph @ ours)) shared INFO_BOX 32 = Inr w" by blast
  then show ?thesis using that by (simp add: box_key_def KEY_LEN_def)
qed

lemma unwrap_with_parts:
  assumes "length eph = 32" "length n = 24"
  shows "unwrap_with pr s (eph @ n @ c) =
    and_then (box_key pr (x25519 pr s eph) eph (x25519_public pr s)) (\<lambda>w.
    and_then (unseal pr w INFO_BOX n c) (\<lambda>p. key_from p ''unwrapped key''))"
  using assms by (simp add: unwrap_with_def NONCE_LEN_def public_from_bytes_def Let_def)

lemma unwrap_with_short:
  "length blob < 56 \<Longrightarrow> unwrap_with pr s blob = Inl (Length ''wrapped key'' (length blob) 56)"
  by (simp add: unwrap_with_def NONCE_LEN_def)

text \<open>what an account accepts as a wrapped key. A blob unwraps to a key exactly when it is an ephemeral public
  key, a nonce and the encryption of that 32-byte key under the box key of the exchange; any blob shorter than
  the first two is refused by its length.\<close>

theorem unwrap_accepts_exactly_wraps:
  assumes "aead_ok pr" "kdf_ok pr"
  shows "unwrap_with pr s blob = Inr k \<longleftrightarrow> length k = 32 \<and>
    (\<exists>eph n c w. blob = eph @ n @ c \<and> length eph = 32 \<and> length n = 24 \<and>
      box_key pr (x25519 pr s eph) eph (x25519_public pr s) = Inr w \<and> aead_encrypt pr w n INFO_BOX k = Some c)"
    (is "?L \<longleftrightarrow> ?R")
proof
  assume L: ?L
  define eph n c where "eph = take 32 blob" and "n = take 24 (drop 32 blob)" and "c = drop 56 blob"
  have long: "56 \<le> length blob"
  proof (rule ccontr)
    assume "\<not> 56 \<le> length blob"
    with L show False using unwrap_with_short [of blob pr s] by simp
  qed
  then have len: "length eph = 32" "length n = 24" by (simp_all add: eph_def n_def)
  have "drop 32 blob = n @ c" unfolding n_def c_def using append_take_drop_id [of 24 "drop 32 blob"] by simp
  then have blob: "blob = eph @ n @ c" unfolding eph_def using append_take_drop_id [of 32 blob] by simp
  obtain w where w: "box_key pr (x25519 pr s eph) eph (x25519_public pr s) = Inr w" "length w = 32"
    by (rule box_key_total [OF assms(2)])
  from L have "unseal pr w INFO_BOX n c = Inr k" "length k = 32"
    unfolding blob unwrap_with_parts [OF len] by (auto simp: w(1) key_from_def KEY_LEN_def split: if_splits)
  with w blob len show ?R by (auto simp: unseal_Inr [OF assms(1)])
next
  assume ?R
  then obtain eph n c w where blob: "blob = eph @ n @ c" and len: "length eph = 32" "length n = 24" and k: "length k = 32"
    and w: "box_key pr (x25519 pr s eph) eph (x25519_public pr s) = Inr w" and c: "aead_encrypt pr w n INFO_BOX k = Some c"
    by blast
  obtain w' where "box_key pr (x25519 pr s eph) eph (x25519_public pr s) = Inr w'" "length w' = 32"
    by (rule box_key_total [OF assms(2)])
  with w have "length w = 32" by simp
  with c len have "unseal pr w INFO_BOX n c = Inr k" by (simp add: unseal_Inr [OF assms(1)])
  with w k show ?L unfolding blob unwrap_with_parts [OF len] by (simp add: key_from_def KEY_LEN_def)
qed

lemma wrap_total:
  assumes "aead_ok pr" "kdf_ok pr" "exchange_ok pr" "length key = 32" "length nonce = 24"
  obtains eph c where "wrap_for pr generated nonce (x25519_public pr secret) key = Inr (eph @ nonce @ c)" "length eph = 32"
    "unwrap_with pr secret (eph @ nonce @ c) = Inr key"
proof -
  define eph where "eph = x25519_public pr generated"
  have eph: "length eph = 32" by (simp add: eph_def exchange_okD [OF assms(3)])
  have shared: "x25519 pr generated (x25519_public pr secret) = x25519 pr secret eph"
    unfolding eph_def by (rule exchange_okD(2) [OF assms(3)])
  obtain w where w: "box_key pr (x25519 pr secret eph) eph (x25519_public pr secret) = Inr w" "length w = 32"
    by (rule box_key_total [OF assms(2)])
  obtain c where c: "seal pr nonce w INFO_BOX key = Inr (nonce, c)" "unseal pr w INFO_BOX nonce c = Inr key"
    by (rule seal_total [OF assms(1) w(2) assms(5), of key INFO_BOX]) (simp_all add: assms(4))
  have "wrap_for pr generated nonce (x25519_public pr secret) key = Inr (eph @ nonce @ c)"
    using w(1) c(1) by (simp add: wrap_for_def generate_account_keypair_def random_key_def shared flip: eph_def)
  moreover have "unwrap_with pr secret (eph @ nonce @ c) = Inr key"
    using assms(4) c(2) w(1) by (simp add: unwrap_with_parts [OF eph assms(5)] key_from_def KEY_LEN_def)
  ultimately show ?thesis using that eph by blast
qed

text \<open>a group key reaches its member. Wrapping a content key for the public key of an account always succeeds, and the
  account's secret key unwraps it; cut short anywhere before the ciphertext, the blob is refused by its length.\<close>

theorem wrapped_key_reaches_its_member:
  assumes "aead_ok pr" "kdf_ok pr" "exchange_ok pr" "length key = 32" "length nonce = 24"
  shows "\<exists>blob. wrap_for pr generated nonce (x25519_public pr secret) key = Inr blob \<and> unwrap_with pr secret blob = Inr key \<and>
    (\<forall>i < 56. unwrap_with pr secret (take i blob) = Inl (Length ''wrapped key'' i 56))"
proof -
  obtain eph c where w: "wrap_for pr generated nonce (x25519_public pr secret) key = Inr (eph @ nonce @ c)" "length eph = 32"
    "unwrap_with pr secret (eph @ nonce @ c) = Inr key"
    by (rule wrap_total [OF assms])
  have "length (take i (eph @ nonce @ c)) = i" if "i < 56" for i using that w(2) assms(5) by simp
  with w unwrap_with_short show ?thesis by metis
qed

section \<open>Primitives for concrete runs\<close>

text \<open>The tag of the toy cipher spells out its key, nonce and associated data.\<close>

definition sample_tag :: "bytes \<Rightarrow> bytes \<Rightarrow> bytes \<Rightarrow> bytes" where
  "sample_tag k n a = replicate (length a) 1 @ [0] @ a @ k @ n"

definition sample_public :: "bytes \<Rightarrow> bytes" where
  "sample_public s = take 32 (s @ replicate 32 0)"

definition sample_primitives :: primitives where
  "sample_primitives =
     \<lparr>sha256 = (\<lambda>b. take 32 (b @ replicate 32 0)), params_new = (\<lambda>m t p l. Inr (m, t, p, l)),
      hash_password_into = (\<lambda>ps p s l. Inr (take l (p @ s @ replicate l 0))),
      hkdf_expand = (\<lambda>salt i info l. Inr (take l (info @ i @ replicate l 0))),
      key_fits = (\<lambda>k. length k = 32), nonce_fits = (\<lambda>n. length n = 24),
      aead_encrypt = (\<lambda>k n a m. Some (sample_tag k n a @ m)),
      aead_decrypt = (\<lambda>k n a c. if take (length (sample_tag k n a)) c = sample_tag k n a
         then Some (drop (length (sample_tag k n a)) c) else None),
      x25519_public = sample_public, x25519 = (\<lambda>s p. map2 (+) (sample_public s) p)\<rparr>"

lemma sample_primitives_ok: "aead_ok sample_primitives" "exchange_ok sample_primitives" "kdf_ok sample_primitives"
proof -
  have tag: "take (length t) c = t \<and> drop (length t) c = m \<longleftrightarrow> t @ m = c" for t c m :: bytes
    by (metis append_eq_conv_conj)
  show "aead_ok sample_primitives"
    using tag by (auto simp: aead_ok_def sample_primitives_def)
  have "map2 (+) a b = map2 (+) b a" for a b :: bytes
    by (rule nth_equalityI) (simp_all add: add.commute)
  moreover have "length (sample_public b) = 32" for b by (auto simp: sample_public_def)
  ultimately show "exchange_ok sample_primitives" by (simp add: exchange_ok_def sample_primitives_def)
  show "kdf_ok sample_primitives"
    by (auto simp: kdf_ok_def sample_primitives_def min_def)
qed

lemma sample_seal:
  "seal sample_primitives n (replicate 32 9) ad m =
     Inr (n, sample_tag (replicate 32 9) n ad @ m)"
  by (simp add: seal_def sample_primitives_def)

theorem sealed_record_is_bound_witness:
  "unseal sample_primitives (replicate 32 9) (aad (sample_envelope\<lparr>e_seq := 77\<rparr>)) (replicate 24 1)
      (sample_tag (replicate 32 9) (replicate 24 1) (aad sample_envelope) @ [1, 2]) = Inr [1, 2] \<and>
   aad (sample_envelope\<lparr>e_id := ''h2''\<rparr>) \<noteq> aad sample_envelope"
proof -
  have n: "length (replicate 24 1 :: bytes) = 24" by simp
  have side: "separator \<notin> set (e_id sample_envelope)" "separator \<notin> set (e_id (sample_envelope\<lparr>e_seq := 77\<rparr>))"
    "separator \<notin> set (e_id (sample_envelope\<lparr>e_id := ''h2''\<rparr>))"
    "is_i64 (e_updated_at sample_envelope)" "is_i64 (e_updated_at (sample_envelope\<lparr>e_seq := 77\<rparr>))"
    "is_i64 (e_updated_at (sample_envelope\<lparr>e_id := ''h2''\<rparr>))"
    by (simp_all add: sample_envelope_def separator_def is_i64_def)
  show ?thesis
    using sealed_record_is_bound [OF sample_primitives_ok(1) n sample_seal side(1,2,4,5) refl]
      sealed_record_is_bound [OF sample_primitives_ok(1) n sample_seal side(1,3,4,6) refl]
    by (simp add: sample_envelope_def)
qed

text \<open>A setting payload whose JSON is its key and value in a row.\<close>

theorem payload_survives_the_server_witness:
  "\<exists>n c e'. seal_json (\<lambda>v. Inr (as_bytes (sp_value v))) sample_primitives (replicate 24 1) (replicate 32 9)
       (aad sample_envelope) \<lparr>sp_key = ''theme'', sp_value = ''dark''\<rparr> = Inr (n, c) \<and>
     open_json (\<lambda>b. if b = as_bytes ''dark'' then Inr \<lparr>sp_key = ''theme'', sp_value = ''dark''\<rparr> else Inl ''eof'')
       sample_primitives (replicate 32 9) (aad e') n c = Inr \<lparr>sp_key = ''theme'', sp_value = ''dark''\<rparr>"
proof -
  let ?to = "\<lambda>v. Inr (as_bytes (sp_value v)) :: string + bytes" and ?v = "\<lparr>sp_key = ''theme'', sp_value = ''dark''\<rparr>"
  let ?from = "\<lambda>b. if b = as_bytes ''dark'' then Inr ?v else Inl ''eof''"
  let ?c = "sample_tag (replicate 32 9) (replicate 24 1) (aad sample_envelope) @ as_bytes ''dark''"
  have short: "length (as_bytes ''dark'') < 4294967296" by (simp add: as_bytes_def)
  have sealed: "seal_json ?to sample_primitives (replicate 24 1) (replicate 32 9) (aad sample_envelope) ?v = Inr (replicate 24 1, ?c)"
    by (simp add: seal_json_def sample_seal)
  have "\<exists>e'. envelope_from_row sample_codec (record_row_of sample_codec ''u'' 1 ''P''
        (sample_envelope\<lparr>e_nonce := replicate 24 1, e_ciphertext := ?c\<rparr>)) = Inr e' \<and>
      open_json ?from sample_primitives (replicate 32 9) (aad e') (e_nonce e') (e_ciphertext e') = Inr ?v"
    by (rule payload_survives_the_server [OF sample_primitives_ok(1) sample_codec_ok _ _ _ short _ _ sealed])
      (simp_all add: sample_codec_def sample_envelope_def)
  moreover have "envelope_from_row sample_codec (record_row_of sample_codec ''u'' 1 ''P''
        (sample_envelope\<lparr>e_nonce := replicate 24 1, e_ciphertext := ?c\<rparr>)) =
      Inr (sample_envelope\<lparr>e_nonce := replicate 24 1, e_ciphertext := ?c, e_seq := 1\<rparr>)"
    using codec_ok_row [OF sample_codec_ok, of "sample_envelope\<lparr>e_nonce := replicate 24 1, e_ciphertext := ?c\<rparr>" "''P''" "''u''" 1]
    by (simp add: sample_codec_def sample_envelope_def)
  ultimately show ?thesis using sealed by auto
qed

theorem unwrap_accepts_exactly_wraps_witness:
  "unwrap_with sample_primitives [] (replicate 56 0) \<noteq> Inr (replicate 32 9)"
proof -
  have "sample_tag w n a \<noteq> []" for w n a by (simp add: sample_tag_def)
  then show ?thesis
    using unwrap_accepts_exactly_wraps [OF sample_primitives_ok(1,3), of "[]" "replicate 56 0" "replicate 32 9"]
    by (auto simp: sample_primitives_def dest!: arg_cong [of _ _ length])
qed

theorem wrapped_key_reaches_its_member_witness:
  "\<exists>blob. wrap_for sample_primitives [5] (replicate 24 1) (x25519_public sample_primitives [6]) (replicate 32 9) = Inr blob \<and>
     unwrap_with sample_primitives [6] blob = Inr (replicate 32 9)"
  using wrapped_key_reaches_its_member [OF sample_primitives_ok(1,3,2), of "replicate 32 9" "replicate 24 1" "[5]" "[6]"]
  by auto

end
