(* ===== verification/Credentials.thy ===== *)
theory Credentials
  imports Crypto_Facts
begin

text \<open>
  The credentials a person types: the address that salts the master key, against the address the server
  looks accounts up by, and the recovery code.
\<close>

section \<open>Addresses\<close>

lemma account_salt_eq: "account_salt a = account_salt b \<longleftrightarrow> to_ascii_lowercase (trim a) = to_ascii_lowercase (trim b)"
  by (simp add: account_salt_def)

lemma argon2id_total:
  assumes "kdf_ok pr" "length secret < 4294967296" "8 \<le> length salt" "length salt < 4294967296"
  obtains master where "argon2id pr secret salt = Inr master"
proof -
  obtain ps master where "params_new pr 19456 2 1 (Some 32) = Inr ps" "hash_password_into pr ps secret salt 32 = Inr master"
    using assms unfolding kdf_ok_def by blast
  then show ?thesis
    by (intro that) (simp add: argon2id_def ARGON_M_COST_def ARGON_T_COST_def ARGON_P_COST_def KEY_LEN_def)
qed

lemma subkey_total:
  assumes "kdf_ok pr"
  obtains key where "subkey pr master info = Inr key" "length key = 32"
  using kdf_okD(2) [OF assms, of None master info] that by (auto simp: subkey_def KEY_LEN_def)

lemma derive_account_keys_total:
  assumes "kdf_ok pr" "length password < 4294967296"
  obtains auth wrap where "derive_account_keys pr password email = Inr \<lparr>ak_auth = auth, ak_wrap = wrap\<rparr>"
    "length auth = 32" "length wrap = 32"
proof -
  obtain master where "derive_master pr password email = Inr master"
    using argon2id_total [OF assms(1), of "as_bytes password" "sha256 pr (account_salt email)"] assms(2) kdf_okD(1) [OF assms(1)]
    by (auto simp: derive_master_def as_bytes_def)
  moreover obtain auth where "subkey pr master INFO_AUTH = Inr auth" "length auth = 32" by (rule subkey_total [OF assms(1)])
  moreover obtain wrap where "subkey pr master INFO_WRAP = Inr wrap" "length wrap = 32" by (rule subkey_total [OF assms(1)])
  ultimately show ?thesis using that by (simp add: derive_account_keys_def)
qed

lemma derive_recovery_keys_total:
  assumes "kdf_ok pr" "length code < 4294967296"
  obtains auth wrap where "derive_recovery_keys pr code = Inr \<lparr>ak_auth = auth, ak_wrap = wrap\<rparr>"
    "length auth = 32" "length wrap = 32"
proof -
  have "length (remove_chars ''- '' code) < 4294967296"
    using assms(2) length_filter_le le_less_trans unfolding remove_chars_def by blast
  then obtain master where "argon2id pr (as_bytes (to_ascii_uppercase (remove_chars ''- '' code))) (as_bytes ''remotier.recovery.v1'') = Inr master"
    using argon2id_total [OF assms(1), of "as_bytes (to_ascii_uppercase (remove_chars ''- '' code))" "as_bytes ''remotier.recovery.v1''"]
    by (auto simp: as_bytes_def to_ascii_uppercase_def)
  moreover obtain auth where "subkey pr master INFO_AUTH = Inr auth" "length auth = 32" by (rule subkey_total [OF assms(1)])
  moreover obtain wrap where "subkey pr master INFO_WRAP = Inr wrap" "length wrap = 32" by (rule subkey_total [OF assms(1)])
  ultimately show ?thesis using that by (simp add: derive_recovery_keys_def)
qed

text \<open>the spelling of an address does not matter. Key derivation succeeds, with two keys of 32 bytes, and gives the same keys
  for an address with any white space around it and any ASCII letter case.\<close>

theorem same_address_same_keys:
  assumes "kdf_ok pr" "length password < 4294967296"
    and "set us \<subseteq> set white_space" "set vs \<subseteq> set white_space" "to_ascii_lowercase typed = to_ascii_lowercase email"
  shows "\<exists>auth wrap. length auth = 32 \<and> length wrap = 32 \<and>
    derive_account_keys pr password email = Inr \<lparr>ak_auth = auth, ak_wrap = wrap\<rparr> \<and>
    derive_account_keys pr password (concat us @ typed @ concat vs) = Inr \<lparr>ak_auth = auth, ak_wrap = wrap\<rparr>"
proof -
  have "trim (concat us @ typed @ concat vs) = trim typed" using assms(3,4) by (rule trim_padding)
  then have "account_salt (concat us @ typed @ concat vs) = account_salt email"
    using trim_lower [of typed] trim_lower [of email] assms(5) by (simp add: account_salt_eq)
  then have "derive_account_keys pr password (concat us @ typed @ concat vs) = derive_account_keys pr password email"
    by (simp add: derive_account_keys_def derive_master_def)
  moreover obtain auth wrap where "derive_account_keys pr password email = Inr \<lparr>ak_auth = auth, ak_wrap = wrap\<rparr>"
    "length auth = 32" "length wrap = 32"
    by (rule derive_account_keys_total [OF assms(1,2)])
  ultimately show ?thesis by auto
qed

theorem same_address_same_keys_witness:
  "derive_account_keys sample_primitives ''hunter2'' ''  Ada@Example.COM '' =
   derive_account_keys sample_primitives ''hunter2'' ''ada@example.com''"
proof -
  have pw: "length ''hunter2'' < 4294967296" by simp
  have us: "set [[CHR 0x20], [CHR 0x20]] \<subseteq> set white_space" "set [[CHR 0x20]] \<subseteq> set white_space"
    by (simp_all add: white_space_def)
  have typed: "to_ascii_lowercase ''Ada@Example.COM'' = to_ascii_lowercase ''ada@example.com''" by code_simp
  from same_address_same_keys [OF sample_primitives_ok(3) pw us typed] show ?thesis by auto
qed

lemma trim_solid:
  assumes "strip_one white_space s = None" "strip_one (map rev white_space) (rev s) = None"
  shows "trim s = s"
  using assms by (simp add: trim_def trim_start_def trim_end_def trim_front_stop)

text \<open>C38: on ASCII addresses the client and the server agree on what one address is. Two addresses name one account, by the
  comparison of the server's lookup, exactly when they salt one master key. Outside ASCII they part: the server
  lowercases with the Unicode tables and the client only the ASCII letters, so an address with a capital E-acute is
  the account of the one with a small one, and derives from another salt.\<close>

theorem one_address_one_salt:
  assumes "unicode_lowercase cd ([CHR 0xC3, CHR 0x89] @ ''@x.io'') = [CHR 0xC3, CHR 0xA9] @ ''@x.io''"
    and "unicode_lowercase cd ([CHR 0xC3, CHR 0xA9] @ ''@x.io'') = [CHR 0xC3, CHR 0xA9] @ ''@x.io''"
  shows "(is_ascii (trim a) \<and> is_ascii (trim b) \<longrightarrow>
      (email_norm cd a = email_norm cd b \<longleftrightarrow> account_salt a = account_salt b)) \<and>
    email_norm cd ([CHR 0xC3, CHR 0x89] @ ''@x.io'') = email_norm cd ([CHR 0xC3, CHR 0xA9] @ ''@x.io'') \<and>
    account_salt ([CHR 0xC3, CHR 0x89] @ ''@x.io'') \<noteq> account_salt ([CHR 0xC3, CHR 0xA9] @ ''@x.io'')"
proof -
  have "trim ([CHR 0xC3, CHR 0x89] @ ''@x.io'') = [CHR 0xC3, CHR 0x89] @ ''@x.io''"
    "trim ([CHR 0xC3, CHR 0xA9] @ ''@x.io'') = [CHR 0xC3, CHR 0xA9] @ ''@x.io''"
    by (rule trim_solid; simp add: strip_one_None white_space_def)+
  moreover have "\<not> is_ascii ([CHR 0xC3, CHR 0x89] @ ''@x.io'')" "\<not> is_ascii ([CHR 0xC3, CHR 0xA9] @ ''@x.io'')"
    "to_ascii_lowercase ([CHR 0xC3, CHR 0x89] @ ''@x.io'') \<noteq> to_ascii_lowercase ([CHR 0xC3, CHR 0xA9] @ ''@x.io'')"
    by code_simp+
  ultimately show ?thesis using assms by (simp add: email_norm_def to_lowercase_def account_salt_eq)
qed

theorem one_address_one_salt_witness:
  "account_salt ''Ada@x.io'' = account_salt ''ada@x.io'' \<longleftrightarrow>
   email_norm sample_codec ''Ada@x.io'' = email_norm sample_codec ''ada@x.io''"
proof -
  let ?cd = "sample_codec\<lparr>unicode_lowercase := (\<lambda>s. if s = [CHR 0xC3, CHR 0x89] @ ''@x.io'' then [CHR 0xC3, CHR 0xA9] @ ''@x.io'' else s)\<rparr>"
  have "trim ''Ada@x.io'' = ''Ada@x.io''" "trim ''ada@x.io'' = ''ada@x.io''"
    by (rule trim_solid; simp add: strip_one_None white_space_def)+
  then have "is_ascii (trim ''Ada@x.io'')" "is_ascii (trim ''ada@x.io'')" by (simp_all add: is_ascii_def)
  moreover from this have "email_norm ?cd ''Ada@x.io'' = email_norm sample_codec ''Ada@x.io''"
    "email_norm ?cd ''ada@x.io'' = email_norm sample_codec ''ada@x.io''"
    by (simp_all add: email_norm_def)
  ultimately show ?thesis using one_address_one_salt [of ?cd "''Ada@x.io''" "''ada@x.io''"] by simp
qed

section \<open>Recovery codes\<close>

definition symbol :: "u8 \<Rightarrow> char" where
  "symbol b = ALPHABET ! (unat b mod 32)"

lemma alphabet_facts:
  "length ALPHABET = 32" "distinct ALPHABET"
  "list_all (\<lambda>c. c \<notin> set ''- '') ALPHABET"
  "list_all (\<lambda>c. c \<notin> set ''ILOU'') ALPHABET"
  by code_simp+

lemma symbol_in: "symbol b \<in> set ALPHABET"
  by (simp add: symbol_def alphabet_facts(1))

lemma symbol_not_separator: "symbol b \<notin> set ''- ''"
  using symbol_in [of b] alphabet_facts(3) unfolding list_all_iff by blast

lemma symbol_onto:
  assumes "c \<in> set ALPHABET"
  shows "\<exists>b. symbol b = c"
proof -
  from assms obtain i where i: "i < 32" "ALPHABET ! i = c" unfolding in_set_conv_nth alphabet_facts(1) by blast
  then have "symbol (word_of_nat i) = c" by (simp add: symbol_def unat_of_nat)
  then show ?thesis ..
qed

lemma push_symbol_eq: "push_symbol out (i, b) = out @ (if i > 0 \<and> i mod 5 = 0 then ''-'' else []) @ [symbol b]"
  by (simp add: push_symbol_def symbol_def alphabet_facts(1))

text \<open>The code depends on the symbols only, and the symbols are what is left without the separators.\<close>

lemma push_symbols_cong:
  "map symbol bs = map symbol bs' \<Longrightarrow> foldl push_symbol out (enumerate i bs) = foldl push_symbol out (enumerate i bs')"
proof (induction bs arbitrary: bs' out i)
  case Nil
  then show ?case by simp
next
  case (Cons b bs)
  then obtain b' bs'' where "bs' = b' # bs''" "symbol b = symbol b'" "map symbol bs = map symbol bs''"
    by (cases bs') auto
  with Cons.IH show ?case by (simp add: push_symbol_eq)
qed

lemma remove_separators:
  "remove_chars ''- '' (foldl push_symbol out (enumerate i bs)) = remove_chars ''- '' out @ map symbol bs"
proof (induction bs arbitrary: out i)
  case Nil
  show ?case by simp
next
  case (Cons b bs)
  have "remove_chars ''- '' (push_symbol out (i, b)) = remove_chars ''- '' out @ [symbol b]"
    using symbol_not_separator [of b] by (auto simp: push_symbol_eq remove_chars_def)
  with Cons.IH show ?case by simp
qed

lemma code_symbols:
  "remove_chars ''- '' (generate_recovery_code g) = map symbol (take 20 g)"
  by (simp add: generate_recovery_code_def random_key_def remove_separators) (simp add: remove_chars_def)

lemma code_cong:
  "map symbol (take 20 g) = map symbol (take 20 g') \<Longrightarrow> generate_recovery_code g = generate_recovery_code g'"
  unfolding generate_recovery_code_def random_key_def by (rule push_symbols_cong)

lemma code_length:
  assumes "length g = 32"
  shows "length (generate_recovery_code g) = 23"
proof -
  have "length (foldl push_symbol out (enumerate i bs)) =
      length out + (\<Sum>j\<leftarrow>[i..<i + length bs]. if j > 0 \<and> j mod 5 = 0 then 2 else 1)" for out i and bs :: "u8 list"
  proof (induction bs arbitrary: out i)
    case Nil
    show ?case by simp
  next
    case (Cons b bs)
    have "[i..<i + length (b # bs)] = i # [Suc i..<Suc i + length bs]" by (subst upt_rec) simp
    with Cons.IH [of "push_symbol out (i, b)" "Suc i"] show ?case by (simp add: push_symbol_eq)
  qed
  then have "length (generate_recovery_code g) = (\<Sum>j\<leftarrow>[0..<20]. if j > 0 \<and> j mod 5 = 0 then 2 else 1 :: nat)"
    using assms by (simp add: generate_recovery_code_def random_key_def)
  then show ?thesis by (simp add: upt_rec)
qed

lemma upper_of_lower_eq:
  assumes "to_ascii_lowercase s = to_ascii_lowercase t"
  shows "to_ascii_uppercase s = to_ascii_uppercase t"
proof -
  have "to_ascii_uppercase (to_ascii_lowercase x) = to_ascii_uppercase x" for x
    by (simp add: to_ascii_lowercase_def to_ascii_uppercase_def)
  with arg_cong [OF assms, of to_ascii_uppercase] show ?thesis by simp
qed

lemma retyped_code:
  assumes "to_ascii_lowercase (remove_chars ''- '' typed) = to_ascii_lowercase (remove_chars ''- '' code)"
  shows "derive_recovery_keys pr typed = derive_recovery_keys pr code"
  using upper_of_lower_eq [OF assms] by (simp add: derive_recovery_keys_def)

text \<open>a recovery code reads back however it is typed. It has twenty symbols, none of them I, L, O or U, in a string of 23
  characters; and any string that spells the same symbols, whatever its letter case and wherever it has hyphens and
  spaces, derives the same keys.\<close>

theorem recovery_code_survives_retyping:
  assumes "length generated = 32"
    and "to_ascii_lowercase (remove_chars ''- '' typed) = to_ascii_lowercase (remove_chars ''- '' (generate_recovery_code generated))"
  shows "derive_recovery_keys pr typed = derive_recovery_keys pr (generate_recovery_code generated) \<and>
    length (generate_recovery_code generated) = 23 \<and>
    length (remove_chars ''- '' (generate_recovery_code generated)) = 20 \<and>
    set (generate_recovery_code generated) \<inter> set ''ILOU'' = {}"
proof (intro conjI)
  show "derive_recovery_keys pr typed = derive_recovery_keys pr (generate_recovery_code generated)"
    by (rule retyped_code [OF assms(2)])
  show "length (generate_recovery_code generated) = 23" by (rule code_length [OF assms(1)])
  show "length (remove_chars ''- '' (generate_recovery_code generated)) = 20"
    using assms(1) by (simp add: code_symbols)
  have "c \<notin> set ''ILOU''" if "c \<in> set (generate_recovery_code generated)" for c
  proof (cases "c \<in> set ''- ''")
    case True
    then show ?thesis by auto
  next
    case False
    with that have "c \<in> set (remove_chars ''- '' (generate_recovery_code generated))" by (simp add: remove_chars_def)
    then have "c \<in> set ALPHABET" using symbol_in by (auto simp: code_symbols)
    with alphabet_facts(4) show ?thesis by (simp only: list_all_iff) blast
  qed
  then show "set (generate_recovery_code generated) \<inter> set ''ILOU'' = {}" by blast
qed

theorem recovery_code_survives_retyping_witness:
  "derive_recovery_keys sample_primitives ''aaaaa bbbbb aaaaa aaaaa'' =
   derive_recovery_keys sample_primitives (generate_recovery_code (replicate 5 0 @ replicate 5 33 @ replicate 22 0))"
proof -
  have g: "length (replicate 5 0 @ replicate 5 33 @ replicate 22 0 :: bytes) = 32" by simp
  have typed: "to_ascii_lowercase (remove_chars ''- '' ''aaaaa bbbbb aaaaa aaaaa'') =
      to_ascii_lowercase (remove_chars ''- '' (generate_recovery_code (replicate 5 0 @ replicate 5 33 @ replicate 22 0)))"
    by code_simp
  show ?thesis using recovery_code_survives_retyping [OF g typed, of sample_primitives] by blast
qed

text \<open>C39: how many recovery codes there are: two to the power of 100, over all random keys they are drawn from.\<close>

theorem recovery_codes_have_100_bits:
  "card (generate_recovery_code ` {g. length g = 32}) = 2 ^ 100"
proof -
  let ?codes = "generate_recovery_code ` {g. length g = 32}" and ?words = "{w. set w \<subseteq> set ALPHABET \<and> length w = 20}"
  have "inj_on (remove_chars ''- '') ?codes"
    by (rule inj_onI) (auto simp: code_symbols intro: code_cong)
  moreover have "remove_chars ''- '' ` ?codes = ?words"
  proof
    show "remove_chars ''- '' ` ?codes \<subseteq> ?words" using symbol_in by (auto simp: code_symbols)
    show "?words \<subseteq> remove_chars ''- '' ` ?codes"
    proof
      fix w
      assume w: "w \<in> ?words"
      obtain f where f: "\<And>c. c \<in> set ALPHABET \<Longrightarrow> symbol (f c) = c" using symbol_onto by metis
      have "symbol (f c) = c" if "c \<in> set w" for c using w f that by blast
      then have "map symbol (map f w) = w" unfolding map_map comp_def by (rule map_idI)
      then have "remove_chars ''- '' (generate_recovery_code (map f w @ replicate 12 0)) = w"
        using w by (simp add: code_symbols)
      moreover have "map f w @ replicate 12 0 \<in> {g. length g = 32}" using w by simp
      then have "remove_chars ''- '' (generate_recovery_code (map f w @ replicate 12 0)) \<in> remove_chars ''- '' ` ?codes"
        by (intro imageI)
      ultimately show "w \<in> remove_chars ''- '' ` ?codes" by (simp only:)
    qed
  qed
  ultimately have "card ?codes = card ?words" using card_image by fastforce
  also have "\<dots> = card (set ALPHABET) ^ 20" by (rule card_lists_length_eq) simp
  also have "card (set ALPHABET) = 32" using alphabet_facts(1,2) by (simp only: distinct_card)
  finally show ?thesis by simp
qed

end
