(* ===== verification/Pg_Interleaving.thy ===== *)
theory Pg_Interleaving
  imports Sync
begin

text \<open>
  Concurrent writers on Postgres. \<open>put_envelope\<close> of \<^verbatim>\<open>postgres.rs\<close> is one statement, but
  \<open>nextval\<close> takes its number outside the transaction: a statement draws its number when it starts and its
  row is seen when it commits, and other statements may start and commit in between. Here the method is cut at
  that point; \<open>put_envelope_is_begin_then_finish\<close> shows that the two halves, run without a gap, are the
  method. A statement that meets a row another one is writing waits for it, so the comparison of the upsert sees
  the committed row: it is part of the second half.
\<close>

section \<open>Statements in flight\<close>

record open_statement =
  os_account :: string
  os_envelope :: envelope
  os_key_ref :: string
  os_seq :: i64

record pg_run =
  run_db :: pg_db
  run_open :: "open_statement list"

definition begin_put :: "codec \<Rightarrow> string \<Rightarrow> envelope \<Rightarrow> pg_run \<Rightarrow> pg_run option" where
  "begin_put cd account_id e s =
     (case key_ref_to_json cd (e_key_ref e) of
        Inl _ \<Rightarrow> None
      | Inr key_ref \<Rightarrow>
          (case pg_nextval (record_seq (run_db s)) of
             Inl _ \<Rightarrow> None
           | Inr q \<Rightarrow> Some (s\<lparr>run_db := (run_db s)\<lparr>record_seq := Some (q, True)\<rparr>,
               run_open := run_open s @ [\<lparr>os_account = account_id, os_envelope = e, os_key_ref = key_ref, os_seq = q\<rparr>]\<rparr>)))"

definition commit_row ::
  "(string \<Rightarrow> string \<Rightarrow> bool) \<Rightarrow> codec \<Rightarrow> open_statement \<Rightarrow> pg_db \<Rightarrow> (error + i64 option) \<times> pg_db" where
  "commit_row coll_gt cd x db =
     (case checked_upsert record_key (record_on_conflict (pg_newer coll_gt))
             (has_account (pg_tabs db) (os_account x))
             (record_row_of cd (os_account x) (os_seq x) (os_key_ref x) (os_envelope x)) (records (pg_tabs db)) of
        Inl err \<Rightarrow> (Inl err, db)
      | Inr (rs, ret) \<Rightarrow> (Inr (map_option r_seq ret), db\<lparr>pg_tabs := (pg_tabs db)\<lparr>records := rs\<rparr>\<rparr>))"

definition finish_put ::
  "(string \<Rightarrow> string \<Rightarrow> bool) \<Rightarrow> codec \<Rightarrow> open_statement \<Rightarrow> pg_run \<Rightarrow> pg_run" where
  "finish_put coll_gt cd x s =
     s\<lparr>run_db := snd (commit_row coll_gt cd x (run_db s)), run_open := remove1 x (run_open s)\<rparr>"

inductive pg_runs :: "(string \<Rightarrow> string \<Rightarrow> bool) \<Rightarrow> codec \<Rightarrow> pg_run \<Rightarrow> pg_run \<Rightarrow> bool"
  for coll_gt :: "string \<Rightarrow> string \<Rightarrow> bool" and cd :: codec where
  stay: "pg_runs coll_gt cd s s"
| begins: "pg_runs coll_gt cd s s1 \<Longrightarrow> begin_put cd a e s1 = Some s2 \<Longrightarrow> pg_runs coll_gt cd s s2"
| finishes: "pg_runs coll_gt cd s s1 \<Longrightarrow> x \<in> set (run_open s1) \<Longrightarrow> finish_put coll_gt cd x s1 = s2 \<Longrightarrow> pg_runs coll_gt cd s s2"

inductive_cases pg_runsE: "pg_runs coll_gt cd s s'"

lemma begin_put_Some:
  assumes "begin_put cd a e s = Some s'"
  obtains j q where "key_ref_to_json cd (e_key_ref e) = Inr j" "pg_nextval (record_seq (run_db s)) = Inr q"
    "run_open s' = run_open s @ [\<lparr>os_account = a, os_envelope = e, os_key_ref = j, os_seq = q\<rparr>]"
    "run_db s' = (run_db s)\<lparr>record_seq := Some (q, True)\<rparr>"
  using assms by (auto simp: begin_put_def split: sum.splits)

text \<open>Without a gap the two halves are the method: the same state, the same answer.\<close>

lemma put_envelope_is_begin_then_finish:
  assumes "begin_put cd a e s = Some s1" "x = last (run_open s1)"
  shows "pg_put_envelope coll_gt cd a e (run_db s) = commit_row coll_gt cd x (run_db s1)"
    and "x \<notin> set (run_open s) \<Longrightarrow> finish_put coll_gt cd x s1 = s\<lparr>run_db := snd (pg_put_envelope coll_gt cd a e (run_db s))\<rparr>"
proof -
  obtain j q where j: "key_ref_to_json cd (e_key_ref e) = Inr j" and q: "pg_nextval (record_seq (run_db s)) = Inr q"
    and s1: "run_open s1 = run_open s @ [\<lparr>os_account = a, os_envelope = e, os_key_ref = j, os_seq = q\<rparr>]"
      "run_db s1 = (run_db s)\<lparr>record_seq := Some (q, True)\<rparr>"
    by (rule begin_put_Some [OF assms(1)])
  then show eq: "pg_put_envelope coll_gt cd a e (run_db s) = commit_row coll_gt cd x (run_db s1)"
    by (auto simp: pg_put_envelope_def commit_row_def assms(2) split: sum.splits)
  show "finish_put coll_gt cd x s1 = s\<lparr>run_db := snd (pg_put_envelope coll_gt cd a e (run_db s))\<rparr>"
    if "x \<notin> set (run_open s)"
    using that s1(1) assms(2) unfolding eq by (simp add: finish_put_def remove1_append)
qed

section \<open>What a reader can miss\<close>

lemma nextval_above: "pg_nextval (record_seq db) = Inr q \<Longrightarrow> q = pg_counter db + 1"
  by (auto simp: pg_nextval_def pg_counter_def split: option.splits if_splits)

lemma commit_row_counter: "pg_counter (snd (commit_row coll_gt cd x db)) = pg_counter db"
  by (simp add: commit_row_def pg_counter_def split: sum.split prod.split)

lemma commit_row_records:
  assumes "r \<in> set (records (pg_tabs (snd (commit_row coll_gt cd x db))))"
  shows "r \<in> set (records (pg_tabs db)) \<or> r_seq r = os_seq x"
proof (cases "checked_upsert record_key (record_on_conflict (pg_newer coll_gt)) (has_account (pg_tabs db) (os_account x))
    (record_row_of cd (os_account x) (os_seq x) (os_key_ref x) (os_envelope x)) (records (pg_tabs db))")
  case (Inl err)
  with assms show ?thesis by (simp add: commit_row_def)
next
  case (Inr res)
  then obtain rs ret where res: "res = (rs, ret)" by (cases res)
  let ?new = "record_row_of cd (os_account x) (os_seq x) (os_key_ref x) (os_envelope x)"
  have rs: "rs = fst (upsert record_key (record_on_conflict (pg_newer coll_gt)) ?new (records (pg_tabs db)))"
    using Inr res by (simp add: checked_upsert_Inr) (metis fst_conv)
  from assms Inr res have "r \<in> set rs" by (simp add: commit_row_def)
  from set_upsertD [OF this [unfolded rs]] show ?thesis
    by (auto simp: record_upsert_returns split: option.splits if_splits)
qed

text \<open>Numbers of open statements were drawn already, or are above the counter the run started with.\<close>

lemma pg_runs_numbers:
  assumes "pg_runs coll_gt cd s s'"
  shows "pg_counter (run_db s) \<le> pg_counter (run_db s') \<and>
    (\<forall>x \<in> set (run_open s'). x \<in> set (run_open s) \<or> pg_counter (run_db s) < os_seq x) \<and>
    (\<forall>r \<in> set (records (pg_tabs (run_db s'))). r \<in> set (records (pg_tabs (run_db s))) \<or>
       pg_counter (run_db s) < r_seq r \<or> r_seq r \<in> os_seq ` set (run_open s))"
  using assms
proof (induction rule: pg_runs.induct)
  case (stay s)
  show ?case by simp
next
  case (begins s s1 a e s2)
  from begins.hyps(2) obtain j q where q: "pg_nextval (record_seq (run_db s1)) = Inr q"
    and s2: "run_open s2 = run_open s1 @ [\<lparr>os_account = a, os_envelope = e, os_key_ref = j, os_seq = q\<rparr>]"
      "run_db s2 = (run_db s1)\<lparr>record_seq := Some (q, True)\<rparr>"
    by (rule begin_put_Some)
  have "pg_counter (run_db s2) = q" by (simp add: s2 pg_counter_def)
  with begins.IH nextval_above [OF q] s2 show ?case by auto
next
  case (finishes s s1 x s2)
  have s2: "run_db s2 = snd (commit_row coll_gt cd x (run_db s1))" "set (run_open s2) \<subseteq> set (run_open s1)"
    using finishes.hyps(3) by (auto simp: finish_put_def dest: subsetD [OF set_remove1_subset])
  have "pg_counter (run_db s2) = pg_counter (run_db s1)" unfolding s2(1) by (rule commit_row_counter)
  moreover have "r \<in> set (records (pg_tabs (run_db s))) \<or> pg_counter (run_db s) < r_seq r \<or> r_seq r \<in> os_seq ` set (run_open s)"
    if "r \<in> set (records (pg_tabs (run_db s2)))" for r
  proof (cases "r_seq r = os_seq x")
    case True
    then show ?thesis using finishes.IH finishes.hyps(2) by auto
  next
    case False
    then have "r \<in> set (records (pg_tabs (run_db s1)))" using commit_row_records that unfolding s2(1) by blast
    then show ?thesis using finishes.IH by blast
  qed
  ultimately show ?case using finishes.IH s2(2) by (auto dest: subsetD)
qed

text \<open>C22: what a reader can miss on Postgres. Every row that is new or rewritten after some moment has a number above the
  counter of that moment, as on SQLite, or the number of a statement that was open at that moment. So a
  cursor taken while no statement is open misses nothing.\<close>

theorem pg_reader_misses_only_open_statements:
  assumes "pg_runs coll_gt cd s s'" "r \<in> set (records (pg_tabs (run_db s')))" "r \<notin> set (records (pg_tabs (run_db s)))"
  shows "pg_counter (run_db s) < r_seq r \<or> r_seq r \<in> os_seq ` set (run_open s)"
  using pg_runs_numbers [OF assms(1)] assms(2,3) by blast

text \<open>Two devices of one account push at once, and the second commits first.\<close>

definition race_start :: pg_run where
  "race_start = \<lparr>run_db = \<lparr>pg_tabs = no_tables\<lparr>accounts := [sample_account ''u'' ''u@x'']\<rparr>, record_seq = Some (1, False)\<rparr>, run_open = []\<rparr>"

definition race_envelope :: "string \<Rightarrow> envelope" where
  "race_envelope i = sample_envelope\<lparr>e_id := i, e_group_id := None\<rparr>"

definition race_statement :: "string \<Rightarrow> i64 \<Rightarrow> open_statement" where
  "race_statement i q = \<lparr>os_account = ''u'', os_envelope = race_envelope i, os_key_ref = ''P'', os_seq = q\<rparr>"

definition race_row :: "string \<Rightarrow> i64 \<Rightarrow> record_row" where
  "race_row i q = record_row_of sample_codec ''u'' q ''P'' (race_envelope i)"

definition race_db :: "record_row list \<Rightarrow> pg_db" where
  "race_db rs = \<lparr>pg_tabs = no_tables\<lparr>accounts := [sample_account ''u'' ''u@x''], records := rs\<rparr>, record_seq = Some (2, True)\<rparr>"

lemma race_begins:
  "begin_put sample_codec ''u'' (race_envelope ''h1'') race_start =
     Some (race_start\<lparr>run_db := race_db []\<lparr>record_seq := Some (1, True)\<rparr>, run_open := [race_statement ''h1'' 1]\<rparr>)"
  "begin_put sample_codec ''u'' (race_envelope ''h2'')
       (race_start\<lparr>run_db := race_db []\<lparr>record_seq := Some (1, True)\<rparr>, run_open := [race_statement ''h1'' 1]\<rparr>) =
     Some \<lparr>run_db = race_db [], run_open = [race_statement ''h1'' 1, race_statement ''h2'' 2]\<rparr>"
  by (simp_all add: begin_put_def race_start_def race_envelope_def race_statement_def race_db_def sample_codec_def
      sample_envelope_def pg_nextval_def i64_max_def no_tables_def)

lemma race_finishes:
  "finish_put c_collation sample_codec (race_statement ''h2'' 2)
       \<lparr>run_db = race_db [], run_open = [race_statement ''h1'' 1, race_statement ''h2'' 2]\<rparr> =
     \<lparr>run_db = race_db [race_row ''h2'' 2], run_open = [race_statement ''h1'' 1]\<rparr>"
  "finish_put c_collation sample_codec (race_statement ''h1'' 1)
       \<lparr>run_db = race_db [race_row ''h2'' 2], run_open = [race_statement ''h1'' 1]\<rparr> =
     \<lparr>run_db = race_db [race_row ''h2'' 2, race_row ''h1'' 1], run_open = []\<rparr>"
  by (simp_all add: finish_put_def commit_row_def race_statement_def race_db_def race_row_def checked_upsert_def
      upsert_def has_account_def sample_account_def no_tables_def race_envelope_def record_key_def record_row_of_def)

lemma race_runs:
  "pg_runs c_collation sample_codec race_start
     \<lparr>run_db = race_db [race_row ''h2'' 2], run_open = [race_statement ''h1'' 1]\<rparr>" (is "pg_runs _ _ _ ?s1")
  "pg_runs c_collation sample_codec
     \<lparr>run_db = race_db [race_row ''h2'' 2], run_open = [race_statement ''h1'' 1]\<rparr>
     \<lparr>run_db = race_db [race_row ''h2'' 2, race_row ''h1'' 1], run_open = []\<rparr>" (is "pg_runs _ _ _ ?s2")
  "pg_runs c_collation sample_codec race_start
     \<lparr>run_db = race_db [race_row ''h2'' 2, race_row ''h1'' 1], run_open = []\<rparr>"
proof -
  have "pg_runs c_collation sample_codec race_start
      \<lparr>run_db = race_db [], run_open = [race_statement ''h1'' 1, race_statement ''h2'' 2]\<rparr>"
    by (rule pg_runs.begins [OF pg_runs.begins [OF pg_runs.stay race_begins(1)] race_begins(2)])
  then show 1: "pg_runs c_collation sample_codec race_start ?s1"
    by (rule pg_runs.finishes [OF _ _ race_finishes(1)]) simp
  show "pg_runs c_collation sample_codec ?s1 ?s2"
    by (rule pg_runs.finishes [OF pg_runs.stay _ race_finishes(2)]) simp
  show "pg_runs c_collation sample_codec race_start ?s2"
    by (rule pg_runs.finishes [OF 1 _ race_finishes(2)]) simp
qed

text \<open>C23: concurrent pushes can hide a record on Postgres. Two pushes of one account overlap on a fresh instance: the one that drew
  number 1 commits after the one that drew number 2. A reader in between gets a page that ends at cursor 2; the
  record with number 1 is committed and visible afterwards, and the log after cursor 2 does not show it.\<close>

theorem pg_cursor_can_skip_a_record:
  "\<exists>s1 s2 e r. pg_runs c_collation sample_codec race_start s1 \<and> pg_runs c_collation sample_codec s1 s2 \<and>
     pg_pull sample_codec ''u'' 0 501 (run_db s1) = (Inr [e], run_db s1) \<and> e_seq e = 2 \<and>
     run_open s2 = [] \<and> r \<in> set (records (pg_tabs (run_db s2))) \<and> visible (pg_tabs (run_db s2)) ''u'' r \<and>
     pg_pull sample_codec ''u'' (e_seq e) 501 (run_db s2) = (Inr [], run_db s2)"
proof -
  let ?s1 = "\<lparr>run_db = race_db [race_row ''h2'' 2], run_open = [race_statement ''h1'' 1]\<rparr>"
  let ?s2 = "\<lparr>run_db = race_db [race_row ''h2'' 2, race_row ''h1'' 1], run_open = []\<rparr>"
  note 1 = race_runs(1) and 2 = race_runs(2)
  have row: "envelope_from_row sample_codec (race_row ''h2'' 2) = Inr ((race_envelope ''h2'')\<lparr>e_seq := 2\<rparr>)"
    unfolding race_row_def
    by (rule codec_ok_row [OF sample_codec_ok]) (simp add: sample_codec_def race_envelope_def sample_envelope_def)
  have seqs: "r_seq (race_row i q) = q" "r_account_id (race_row i q) = ''u''" for i q by (simp_all add: race_row_def)
  have "pg_pull sample_codec ''u'' 0 501 (run_db ?s1) = (Inr [(race_envelope ''h2'')\<lparr>e_seq := 2\<rparr>], run_db ?s1)"
    by (simp add: pg_pull_def log_after_def visible_def race_db_def seqs row)
  moreover have "pg_pull sample_codec ''u'' 2 501 (run_db ?s2) = (Inr [], run_db ?s2)"
    by (simp add: pg_pull_def log_after_def visible_def race_db_def seqs)
  moreover have "race_row ''h1'' 1 \<in> set (records (pg_tabs (run_db ?s2)))" "visible (pg_tabs (run_db ?s2)) ''u'' (race_row ''h1'' 1)"
    by (simp_all add: race_db_def visible_def seqs)
  ultimately show ?thesis using 1 2
    by (intro exI [of _ ?s1] exI [of _ ?s2] exI [of _ "(race_envelope ''h2'')\<lparr>e_seq := 2\<rparr>"] exI [of _ "race_row ''h1'' 1"]) simp
qed

theorem pg_reader_misses_only_open_statements_witness:
  "\<exists>s. pg_runs c_collation sample_codec race_start s \<and> pg_counter (run_db race_start) < r_seq (race_row ''h1'' 1) \<and>
     race_row ''h1'' 1 \<in> set (records (pg_tabs (run_db s)))"
proof -
  let ?s2 = "\<lparr>run_db = race_db [race_row ''h2'' 2, race_row ''h1'' 1], run_open = []\<rparr>"
  note run = race_runs(3)
  have "race_row ''h1'' 1 \<in> set (records (pg_tabs (run_db ?s2)))" by (simp add: race_db_def)
  moreover have "race_row ''h1'' 1 \<notin> set (records (pg_tabs (run_db race_start)))" by (simp add: race_start_def no_tables_def)
  ultimately show ?thesis using pg_reader_misses_only_open_statements [OF run, of "race_row ''h1'' 1"] run
    by (intro exI [of _ ?s2]) (simp add: race_start_def)
qed

section \<open>The first cursor\<close>

text \<open>C40: the high-water mark of an instance that has stored nothing. On SQLite it is the number before the next one; on Postgres
  a sequence that was never called reports the number the next record gets, so a client that goes on from that cursor
  never sees the first record.\<close>

theorem fresh_high_water_mark:
  assumes "sqlite_inv cd sdb" "pg_inv cd pdb" "record_seq pdb = Some (v, False)" "key_ref_to_json cd (e_key_ref e) = Inr j"
    and "has_account (pg_tabs pdb) a" "records (pg_tabs pdb) = []" "has_account (tabs sdb) a" "records (tabs sdb) = []"
    and "sqlite_counter sdb < i64_max"
  shows "\<exists>q pdb' sdb'. pg_max_seq b pdb = (Inr q, pdb) \<and> pg_put_envelope coll_gt cd a e pdb = (Inr (Some q), pdb') \<and>
      log_after (pg_tabs pdb') a q = [] \<and>
      sqlite_max_seq b sdb = (Inr (sqlite_counter sdb), sdb) \<and>
      sqlite_put_envelope cd a e sdb = (Inr (Some (sqlite_counter sdb + 1)), sdb') \<and>
      log_after (tabs sdb') a (sqlite_counter sdb) = [record_row_of cd a (sqlite_counter sdb + 1) j e]"
proof -
  have v: "pg_counter pdb = v - 1" "v \<le> i64_max" using assms(2,3) by (simp_all add: pg_counter_def pg_inv_def)
  have "pg_put_envelope coll_gt cd a e pdb =
      (Inr (Some v), pdb\<lparr>record_seq := Some (v, True), pg_tabs := (pg_tabs pdb)\<lparr>records := [record_row_of cd a v j e]\<rparr>\<rparr>)"
    using pg_put_envelope_eq [OF assms(2,5) _ assms(4) refl, of coll_gt] v assms(6) by (simp add: upsert_def)
  moreover have "sqlite_put_envelope cd a e sdb =
      (Inr (Some (sqlite_counter sdb + 1)), sdb\<lparr>sequence := Some (sqlite_counter sdb + 1),
        tabs := (tabs sdb)\<lparr>records := [record_row_of cd a (sqlite_counter sdb + 1) j e]\<rparr>\<rparr>)"
    using sqlite_put_envelope_eq [OF assms(1,7,9,4) refl] assms(8) by (simp add: upsert_def)
  ultimately show ?thesis
    using assms(3) by (simp add: pg_max_seq_def sqlite_max_seq_eq [OF assms(1)] log_after_def visible_def)
qed

theorem fresh_high_water_mark_witness:
  "\<exists>q pdb'. pg_max_seq ''u'' (run_db race_start) = (Inr q, run_db race_start) \<and>
     pg_put_envelope c_collation (lib_codec sample_lib) ''u'' sample_envelope (run_db race_start) = (Inr (Some q), pdb')"
proof -
  let ?cd = "lib_codec sample_lib" and ?sdb = "\<lparr>tabs = no_tables\<lparr>accounts := [sample_account ''u'' ''u@x'']\<rparr>, sequence = Some 0\<rparr>"
  have ok: "tables_ok (no_tables\<lparr>accounts := [sample_account ''u'' ''u@x'']\<rparr>) 0"
    by (simp add: tables_ok_defs no_tables_def i64_max_def)
  have sinv: "sqlite_inv ?cd ?sdb"
    using ok sample_lib_ok(1,2)
    by (simp add: sqlite_inv_def sqlite_counter_def emails_lower_def rows_decode_def no_tables_def sample_account_def to_ascii_lowercase_def ascii_lower_def)
  have pinv: "pg_inv ?cd (run_db race_start)"
    using ok sample_lib_ok(1) by (simp add: pg_inv_def race_start_def pg_counter_def i64_max_def rows_decode_def no_tables_def)
  have "key_ref_to_json ?cd (e_key_ref sample_envelope) = Inr ''P''"
    by (simp add: sample_lib_def sample_codec_def sample_envelope_def)
  from fresh_high_water_mark [OF sinv pinv _ this, of 1 "''u''" "''u''" c_collation] show ?thesis
    by (auto simp: race_start_def has_account_def sample_account_def no_tables_def sqlite_counter_def i64_max_def)
qed

end
