(* ===== verification/Handler_Steps.thy ===== *)
theory Handler_Steps
  imports Sessions
begin

text \<open>
  Handlers cut into steps. A handler of \<^verbatim>\<open>server/src/routes/auth.rs\<close> awaits each store call, and another
  request may run at every \<open>await\<close>. \<open>prog\<close> is a handler cut at its accesses to the shared state, each of which is one
  statement and so one step; \<open>run\<close> puts the steps back together, and a lemma for each handler shows
  that what is cut here is the handler. \<open>overlap\<close> lets any number of handlers take steps in any order; \<open>along\<close> is
  one handler with anything happening between its steps.
\<close>

section \<open>Handlers as sequences of steps\<close>

datatype ('s, 'a) prog = Finished "error + 'a" | Await "'s \<Rightarrow> ('s, 'a) prog \<times> 's"

primrec run :: "('s, 'a) prog \<Rightarrow> 's \<Rightarrow> (error + 'a) \<times> 's" where
  "run (Finished r) = (\<lambda>s. (r, s))"
| "run (Await f) = (\<lambda>s. case (map_prod run id \<circ> f) s of (rest, s') \<Rightarrow> rest s')"

primrec steps_keep :: "('s \<Rightarrow> bool) \<Rightarrow> ('s, 'a) prog \<Rightarrow> bool" where
  "steps_keep P (Finished r) \<longleftrightarrow> True"
| "steps_keep P (Await f) \<longleftrightarrow> (\<forall>s. P s \<longrightarrow> (case (map_prod (steps_keep P) id \<circ> f) s of (ok, s') \<Rightarrow> ok \<and> P s'))"

definition await :: "(error, 's, 'a) op \<Rightarrow> ('a \<Rightarrow> ('s, 'b) prog) \<Rightarrow> ('s, 'b) prog" where
  "await m k = Await (\<lambda>s. case m s of (Inl e, s') \<Rightarrow> (Finished (Inl e), s') | (Inr x, s') \<Rightarrow> (k x, s'))"

definition done_or :: "error \<Rightarrow> 'a option \<Rightarrow> ('a \<Rightarrow> ('s, 'b) prog) \<Rightarrow> ('s, 'b) prog" where
  "done_or e v k = (case v of None \<Rightarrow> Finished (Inl e) | Some x \<Rightarrow> k x)"

lemma run_await: "run (await m k) = bind_op m (\<lambda>x. run (k x))"
  by (rule ext) (simp add: await_def bind_op_def split: prod.split sum.split)

lemma run_done_or: "run (done_or e v k) = bind_op (ok_or e v) (\<lambda>x. run (k x))"
  by (rule ext) (cases v; simp add: done_or_def)

lemma steps_keep_await:
  assumes "keeps P m" "\<And>x. steps_keep P (k x)"
  shows "steps_keep P (await m k)"
  using assms(2) keepsD' [OF assms(1)] by (auto simp: await_def split: prod.splits sum.splits)

lemma steps_keep_done_or: "(\<And>x. steps_keep P (k x)) \<Longrightarrow> steps_keep P (done_or e v k)"
  by (cases v) (simp_all add: done_or_def)

inductive overlap :: "('s, 'a) prog list \<times> 's \<Rightarrow> ('s, 'a) prog list \<times> 's \<Rightarrow> bool" where
  none: "overlap c c"
| advance: "overlap c (ps, s) \<Longrightarrow> i < length ps \<Longrightarrow> ps ! i = Await f \<Longrightarrow> f s = (p, s') \<Longrightarrow>
    overlap c (ps[i := p], s')"

text \<open>A handler may run to its end without being interrupted, so every handler is answered under some schedule.\<close>

lemma run_overlap:
  assumes "overlap c (ps, s)" "i < length ps"
  shows "overlap c (ps[i := Finished (fst (run (ps ! i) s))], snd (run (ps ! i) s))"
proof -
  have "overlap c (ps, s) \<Longrightarrow> i < length ps \<Longrightarrow> ps ! i = p \<Longrightarrow>
      overlap c (ps[i := Finished (fst (run p s))], snd (run p s))" for p
  proof (induction p arbitrary: ps s)
    case (Finished r)
    then show ?case by (metis fst_conv list_update_id run.simps(1) snd_conv)
  next
    case (Await f)
    obtain q s' where q: "f s = (q, s')" by (cases "f s")
    have "overlap c (ps[i := q], s')" by (rule overlap.advance [of c ps s i f q s', OF Await.prems q])
    moreover have "(q, s') \<in> range f" using q by (metis rangeI)
    ultimately show ?case using Await.IH [of "(q, s')" q "ps[i := q]" s'] q Await.prems(2) by simp
  qed
  with assms show ?thesis by blast
qed

section \<open>A handler among others\<close>

inductive along ::
  "('s \<Rightarrow> 's \<Rightarrow> bool) \<Rightarrow> ('s, 'a) prog \<times> 's \<Rightarrow> ('s \<times> 's) list \<Rightarrow> ('s, 'a) prog \<times> 's \<Rightarrow> bool" for others c where
  begins: "along others c [] c"
| other: "along others c own (p, s) \<Longrightarrow> others s s' \<Longrightarrow> along others c own (p, s')"
| self: "along others c own (Await f, s) \<Longrightarrow> f s = (p, s') \<Longrightarrow> along others c (own @ [(s, s')]) (p, s')"

text \<open>A promise on each step of a handler, in terms of the steps it took before.\<close>

primrec promises :: "(('s \<times> 's) list \<Rightarrow> 's \<Rightarrow> 's \<Rightarrow> bool) \<Rightarrow> ('s, 'a) prog \<Rightarrow> ('s \<times> 's) list \<Rightarrow> bool" where
  "promises P (Finished r) = (\<lambda>own. True)"
| "promises P (Await f) = (\<lambda>own. \<forall>s. case (map_prod (promises P) id \<circ> f) s of (rest, s') \<Rightarrow>
     P own s s' \<and> rest (own @ [(s, s')]))"

lemma promises_await:
  "promises P (await m k) own \<longleftrightarrow> (\<forall>s. P own s (snd (m s)) \<and>
     (\<forall>x. fst (m s) = Inr x \<longrightarrow> promises P (k x) (own @ [(s, snd (m s))])))"
proof -
  have "(case (map_prod (promises P) id \<circ> (\<lambda>s. case m s of (Inl e, s') \<Rightarrow> (Finished (Inl e), s') | (Inr x, s') \<Rightarrow> (k x, s'))) s
      of (rest, s') \<Rightarrow> P own s s' \<and> rest (own @ [(s, s')])) \<longleftrightarrow>
    P own s (snd (m s)) \<and> (\<forall>x. fst (m s) = Inr x \<longrightarrow> promises P (k x) (own @ [(s, snd (m s))]))" for s
    by (cases "m s"; cases "fst (m s)") simp_all
  then show ?thesis by (simp add: await_def)
qed

lemma along_await:
  "along others c own (await m k, s) \<Longrightarrow> m s = (Inr x, s') \<Longrightarrow> along others c (own @ [(s, s')]) (k x, s')"
  using along.self [of others c own "\<lambda>s. case m s of (Inl e, s') \<Rightarrow> (Finished (Inl e), s') | (Inr x, s') \<Rightarrow> (k x, s')" s "k x" s']
  by (simp add: await_def)

lemma along_promises:
  assumes "along others c own c'" "promises P (fst c) []"
  shows "promises P (fst c') own \<and> (\<forall>i < length own. P (take i own) (fst (own ! i)) (snd (own ! i)))"
  using assms
proof (induction rule: along.induct)
  case begins
  then show ?case by simp
next
  case (other own p s s')
  then show ?case by simp
next
  case (self own f s p s')
  then have IH: "promises P (Await f) own" "\<forall>i < length own. P (take i own) (fst (own ! i)) (snd (own ! i))"
    by simp_all
  from IH(1) self.hyps(2) have "P own s s'" "promises P p (own @ [(s, s')])" by (auto dest!: spec [of _ s])
  with IH(2) show ?case by (simp add: nth_append less_Suc_eq)
qed

section \<open>The account handlers, cut at their store calls\<close>

definition issue_session_steps ::
  "'s server \<Rightarrow> request \<Rightarrow> account \<Rightarrow> string \<Rightarrow> string \<Rightarrow> ('s app, session) prog" where
  "issue_session_steps sv rq account device_id device_name =
     (let now = now_ms (rn_issue rq);
          (access, access_hash) = mint_token (sv_lib sv) (rn_access rq);
          (refresh_token, refresh_hash) = mint_token (sv_lib sv) (rn_refresh rq);
          ttl = cf_access_ttl_secs (sv_config sv);
          session = Finished (Inr \<lparr>ss_account_id = a_id account, ss_email = a_email account, ss_access_token = access,
                ss_refresh_token = refresh_token, ss_expires_in = ttl,
                ss_key_material = key_material_of account\<rparr>)
      in await (on_db (s_put_token (sv_store sv) access_hash (a_id account) ACCESS (i64_wrap (now + i64_wrap (ttl * 1000))))) (\<lambda>_.
         await (on_db (s_put_token (sv_store sv) refresh_hash (a_id account) REFRESH (i64_wrap (now + REFRESH_TTL_MS)))) (\<lambda>_.
         if device_id \<noteq> []
         then await (on_db (s_touch_device (sv_store sv) (rn_touch rq) (a_id account) device_id device_name)) (\<lambda>_. session)
         else session)))"

definition refresh_steps :: "'s server \<Rightarrow> request \<Rightarrow> refresh_request \<Rightarrow> ('s app, session) prog" where
  "refresh_steps sv rq body =
     await (on_db (s_consume_token (sv_store sv) (rn_store rq)
       (hash_token (sv_lib sv) (rf_refresh_token body)) REFRESH)) (\<lambda>row.
     done_or Unauthorised row (\<lambda>row.
     await (on_db (s_account_by_id (sv_store sv) (tr_account_id row))) (\<lambda>account.
     done_or Unauthorised account (\<lambda>account.
     issue_session_steps sv rq account [] []))))"

text \<open>The limiter holds its lock during a check: a step of its own.\<close>

definition login_steps :: "'s server \<Rightarrow> request \<Rightarrow> login_request \<Rightarrow> ('s app, session) prog" where
  "login_steps sv rq body =
     await (guard rq) (\<lambda>_.
     await (on_db (s_account_by_email (sv_store sv) (lr_email body))) (\<lambda>account.
     case account of
       None \<Rightarrow> (let _ = verify_auth_key (sv_lib sv) (lr_auth_key body) (sv_dummy_hash sv) in Finished (Inl BadCredentials))
     | Some account \<Rightarrow>
         if \<not> verify_auth_key (sv_lib sv) (lr_auth_key body) (a_auth_hash account) then Finished (Inl BadCredentials)
         else issue_session_steps sv rq account (lr_device_id body) (lr_device_name body)))"

lemma run_finished: "run (Finished (Inr x)) = ok_op x" "run (Finished (Inl e)) = err_op e"
  by (rule ext, simp add: ok_op_def err_op_def)+

lemma bind_ok_left: "bind_op (ok_op x) g = g x"
  by (rule ext) simp

lemma run_issue_session: "run (issue_session_steps sv rq account d n) = issue_session sv rq account d n"
  by (cases "d = []")
    (simp_all add: issue_session_steps_def issue_session_def Let_def run_await run_finished bind_ok_left split_beta del: run.simps)

lemma run_refresh: "run (refresh_steps sv rq body) = refresh sv rq body"
  by (simp add: refresh_steps_def refresh_def run_await run_done_or run_issue_session del: run.simps)

lemma run_login: "run (login_steps sv rq body) = login sv rq body"
proof -
  have "run (case v of None \<Rightarrow> Finished (Inl BadCredentials)
      | Some x \<Rightarrow> if \<not> P x then Finished (Inl BadCredentials) else issue_session_steps sv rq x d n) =
    (case v of None \<Rightarrow> err_op BadCredentials
      | Some x \<Rightarrow> if \<not> P x then err_op BadCredentials else issue_session sv rq x d n)" for v P d n
    by (cases v) (simp_all add: run_finished run_issue_session del: run.simps)
  then show ?thesis by (simp only: login_steps_def login_def run_await Let_def)
qed

text \<open>From any point on, a handler may run to its end without being interrupted.\<close>

lemma along_run:
  assumes "along others c own (p, s)"
  shows "\<exists>rest. along others c (own @ rest) (Finished (fst (run p s)), snd (run p s))"
  using assms
proof (induction p arbitrary: own s)
  case (Finished r)
  then show ?case by (intro exI [of _ "[]"]) simp
next
  case (Await f)
  obtain q s' where q: "f s = (q, s')" by (cases "f s")
  then have "(q, s') \<in> range f" by (metis rangeI)
  from Await.IH [OF this _ along.self [OF Await.prems q]]
  obtain rest where "along others c ((own @ [(s, s')]) @ rest) (Finished (fst (run q s')), snd (run q s'))" by auto
  with q show ?case by (intro exI [of _ "(s, s') # rest"]) simp
qed

end
