(* ===== verification/Concurrency.thy ===== *)
theory Concurrency
  imports Handler_Steps
begin

text \<open>
  Requests that present one refresh token and overlap (\<^verbatim>\<open>refresh\<close> in \<^verbatim>\<open>server/src/routes/auth.rs\<close>): at most one of them
  is answered with a session, whether or not the others finish, and if all finish exactly one is.
\<close>

section \<open>One token, many requests\<close>

definition spent :: "codec \<Rightarrow> string \<Rightarrow> sqlite_db app \<Rightarrow> bool" where
  "spent cd h ap \<longleftrightarrow> sqlite_inv cd (ap_db ap) \<and> (\<forall>t \<in> set (tokens (tabs (ap_db ap))). t_hash t \<noteq> h)"

lemma put_token_spent:
  assumes "x \<noteq> h"
  shows "keeps (spent cd h) (on_db (s_put_token (sqlite_store cd) x a k e))"
proof (rule keepsI)
  fix ap :: "sqlite_db app"
  assume sp: "spent cd h ap"
  then have "sqlite_inv cd (snd (sqlite_put_token x a k e (ap_db ap)))"
    by (simp add: spent_def sqlite_token_writes_inv)
  moreover have "t_hash t \<noteq> h" if "t \<in> set (tokens (tabs (snd (sqlite_put_token x a k e (ap_db ap)))))" for t
  proof (cases "tabs (snd (sqlite_put_token x a k e (ap_db ap))) = tabs (ap_db ap)")
    case True
    with sp that show ?thesis by (simp add: spent_def)
  next
    case False
    let ?new = "\<lparr>t_hash = x, t_account_id = a, t_kind = k, t_expires_at = e\<rparr>"
    from False have "tokens (tabs (snd (sqlite_put_token x a k e (ap_db ap)))) = fst (upsert t_hash token_on_conflict ?new (tokens (tabs (ap_db ap))))"
      by (auto simp: sqlite_put_token_def checked_upsert_def split: if_splits prod.splits)
    with that set_upsertD [of t t_hash token_on_conflict ?new "tokens (tabs (ap_db ap))"]
    have "t \<in> set (tokens (tabs (ap_db ap))) \<or> snd (upsert t_hash token_on_conflict ?new (tokens (tabs (ap_db ap)))) = Some t" by auto
    with token_table.returned_key [of ?new "tokens (tabs (ap_db ap))" t] sp assms show ?thesis by (auto simp: spent_def)
  qed
  ultimately show "spent cd h (snd (on_db (s_put_token (sqlite_store cd) x a k e) ap))"
    by (simp add: spent_def sqlite_store_def)
qed

text \<open>The two outcomes of the step that reads the token.\<close>

lemma consume_outcome:
  fixes h now cd
  defines "con \<equiv> on_db (s_consume_token (sqlite_store cd) now h REFRESH)"
  assumes "sqlite_inv cd (ap_db ap)"
  shows "(\<exists>row. fst (con ap) = Inr (Some row) \<and> spent cd h (snd (con ap)) \<and> \<not> spent cd h ap) \<or>
    fst (con ap) = Inr None \<and> sqlite_inv cd (ap_db (snd (con ap))) \<and> (spent cd h ap \<longrightarrow> spent cd h (snd (con ap)))"
proof (cases "find (live_token now h REFRESH) (tokens (tabs (ap_db ap)))")
  case None
  then show ?thesis
    using assms(2) sqlite_token_writes_inv(2) [OF assms(2), of now h REFRESH]
    by (auto simp: con_def sqlite_store_def sqlite_filters spent_def)
next
  case (Some t)
  then have t: "t \<in> set (tokens (tabs (ap_db ap)))" "live_token now h REFRESH t" by (auto simp: find_Some_iff)
  have "distinct (map t_hash (tokens (tabs (ap_db ap))))" by (rule sqlite.tokens_distinct [OF assms(2)])
  then have "t_hash t' \<noteq> h" if "t' \<in> set (tokens (tabs (ap_db ap)))" "\<not> live_token now h REFRESH t'" for t'
    using that t by (auto simp: distinct_map inj_on_def live_token_def)
  then have "spent cd h (snd (con ap))"
    using sqlite_token_writes_inv(2) [OF assms(2), of now h REFRESH]
    by (auto simp: con_def sqlite_store_def sqlite_filters spent_def)
  moreover have "\<not> spent cd h ap" using t by (auto simp: spent_def live_token_def)
  ultimately show ?thesis using Some by (simp add: con_def sqlite_store_def sqlite_filters)
qed

lemma after_consume_keeps:
  assumes "snd (mint_token lib (rn_access rq)) \<noteq> h" "snd (mint_token lib (rn_refresh rq)) \<noteq> h"
  shows "steps_keep (spent (lib_codec lib) h) (issue_session_steps (sqlite_server cf lib dummy) rq account [] [])"
  unfolding issue_session_steps_def Let_def split_beta server_simps
  by (intro steps_keep_await put_token_spent assms) simp

text \<open>Every request has yet to read the token or has lost it, but for one at most, and that one only once the token is spent.\<close>

definition one_winner ::
  "codec \<Rightarrow> string \<Rightarrow> (sqlite_db app, 'a) prog list \<Rightarrow> (sqlite_db app, 'a) prog list \<times> sqlite_db app \<Rightarrow> bool" where
  "one_winner cd h start c \<longleftrightarrow> length (fst c) = length start \<and> sqlite_inv cd (ap_db (snd c)) \<and>
     (\<exists>w. \<forall>i < length start. fst c ! i = start ! i \<or> (\<exists>e. fst c ! i = Finished (Inl e)) \<or>
        i = w \<and> steps_keep (spent cd h) (fst c ! i) \<and> spent cd h (snd c))"

text \<open>What the first step of a refresh leaves of the request.\<close>

lemma await_step:
  assumes "await m k = Await f" "f s = (p, s')"
  shows "s' = snd (m s)" "fst (m s) = Inr x \<Longrightarrow> p = k x" "fst (m s) = Inl e \<Longrightarrow> p = Finished (Inl e)"
proof -
  have "f = (\<lambda>s. case m s of (Inl e, s') \<Rightarrow> (Finished (Inl e), s') | (Inr x, s') \<Rightarrow> (k x, s'))"
    using assms(1) by (simp add: await_def)
  then show "s' = snd (m s)" "fst (m s) = Inr x \<Longrightarrow> p = k x" "fst (m s) = Inl e \<Longrightarrow> p = Finished (Inl e)"
    using assms(2) by (cases "m s"; cases "fst (m s)"; simp)+
qed

definition refresh_rest :: "'s server \<Rightarrow> request \<Rightarrow> token_row option \<Rightarrow> ('s app, session) prog" where
  "refresh_rest sv rq row =
     done_or Unauthorised row (\<lambda>row.
     await (on_db (s_account_by_id (sv_store sv) (tr_account_id row))) (\<lambda>account.
     done_or Unauthorised account (\<lambda>account.
     issue_session_steps sv rq account [] [])))"

lemma refresh_steps_eq:
  "refresh_steps sv rq body =
     await (on_db (s_consume_token (sv_store sv) (rn_store rq) (hash_token (sv_lib sv) (rf_refresh_token body)) REFRESH)) (refresh_rest sv rq)"
  by (simp add: refresh_steps_def refresh_rest_def [abs_def])

lemma refresh_first_step:
  assumes "refresh_steps (sqlite_server cf lib dummy) rq body = Await f" "f ap = (p, ap')" "sqlite_inv (lib_codec lib) (ap_db ap)"
    and "h = hash_token lib (rf_refresh_token body)"
    and "snd (mint_token lib (rn_access rq)) \<noteq> h" "snd (mint_token lib (rn_refresh rq)) \<noteq> h"
  shows "\<not> spent (lib_codec lib) h ap \<and> spent (lib_codec lib) h ap' \<and> steps_keep (spent (lib_codec lib) h) p \<or>
    (\<exists>e. p = Finished (Inl e)) \<and> sqlite_inv (lib_codec lib) (ap_db ap') \<and> (spent (lib_codec lib) h ap \<longrightarrow> spent (lib_codec lib) h ap')"
proof -
  let ?con = "on_db (s_consume_token (sqlite_store (lib_codec lib)) (rn_store rq) h REFRESH)"
  have first: "await ?con (refresh_rest (sqlite_server cf lib dummy) rq) = Await f"
    using assms(1) by (simp add: refresh_steps_eq assms(4))
  have "keeps (spent (lib_codec lib) h) (on_db (s_account_by_id (sqlite_store (lib_codec lib)) i))" for i
    by (simp add: keeps_def on_db_def sqlite_store_def sqlite_account_by_id_def spent_def)
  then have keep: "steps_keep (spent (lib_codec lib) h) (refresh_rest (sqlite_server cf lib dummy) rq (Some row))" for row
    unfolding refresh_rest_def done_or_def option.case server_simps
    by (intro steps_keep_await) (auto simp: after_consume_keeps [OF assms(5,6)] split: option.split)
  note after = await_step [OF first assms(2)]
  have "refresh_rest (sqlite_server cf lib dummy) rq None = Finished (Inl Unauthorised)"
    by (simp add: refresh_rest_def done_or_def)
  with consume_outcome [OF assms(3), of "rn_store rq" h] keep after(2) show ?thesis
    unfolding after(1) by (elim disjE) fastforce+
qed

lemma steps_keep_step: "steps_keep P (Await f) \<Longrightarrow> P s \<Longrightarrow> f s = (p, s') \<Longrightarrow> steps_keep P p \<and> P s'"
  by (auto dest!: spec [of _ s])

lemma overlap_one_winner:
  assumes "\<forall>rq \<in> set rqs. snd (mint_token lib (rn_access rq)) \<noteq> h \<and> snd (mint_token lib (rn_refresh rq)) \<noteq> h"
    and "h = hash_token lib (rf_refresh_token body)"
    and "start = map (\<lambda>rq. refresh_steps (sqlite_server cf lib dummy) rq body) rqs"
  shows "overlap c c' \<Longrightarrow> one_winner (lib_codec lib) h start c \<Longrightarrow> one_winner (lib_codec lib) h start c'"
proof (induction rule: overlap.induct)
  case (none c)
  then show ?case .
next
  case (advance c ps s i f p s')
  let ?spent = "spent (lib_codec lib) h"
  from advance.IH [OF advance.prems] obtain w where len: "length ps = length start" and inv: "sqlite_inv (lib_codec lib) (ap_db s)"
    and phase: "\<And>j. j < length start \<Longrightarrow> ps ! j = start ! j \<or> (\<exists>e. ps ! j = Finished (Inl e)) \<or> j = w \<and> steps_keep ?spent (ps ! j) \<and> ?spent s"
    unfolding one_winner_def by auto
  have i: "i < length start" using advance.hyps(2) len by simp
  have upd: "ps[i := p] ! j = (if j = i then p else ps ! j)" if "j < length start" for j
    using that len by (simp add: nth_list_update)
  have winner: "one_winner (lib_codec lib) h start (ps[i := p], s')" if "sqlite_inv (lib_codec lib) (ap_db s')"
    "\<And>j. j < length start \<Longrightarrow> j \<noteq> i \<Longrightarrow> ps ! j = start ! j \<or> (\<exists>e. ps ! j = Finished (Inl e)) \<or>
       j = v \<and> steps_keep ?spent (ps ! j) \<and> ?spent s'"
    "(\<exists>e. p = Finished (Inl e)) \<or> i = v \<and> steps_keep ?spent p \<and> ?spent s'" for v
    unfolding one_winner_def fst_conv snd_conv
    using that len by (intro conjI exI [of _ v] allI impI) (simp_all add: upd)
  show ?case
  proof (cases "i = w \<and> steps_keep ?spent (ps ! i) \<and> ?spent s")
    case True
    then have "steps_keep ?spent p" "?spent s'"
      using steps_keep_step [of ?spent f s p s'] advance.hyps(3,4) by simp_all
    moreover from this have "sqlite_inv (lib_codec lib) (ap_db s')" by (simp add: spent_def)
    ultimately show ?thesis using phase True by (intro winner [of w]) auto
  next
    case False
    with phase [OF i] advance.hyps(3) have at: "start ! i = Await f" by auto
    with assms(3) i have "refresh_steps (sqlite_server cf lib dummy) (rqs ! i) body = Await f" by simp
    from refresh_first_step [OF this advance.hyps(4) inv assms(2)] assms(1,3) i
    consider (won) "\<not> ?spent s" "?spent s'" "steps_keep ?spent p"
      | (lost) e where "p = Finished (Inl e)" "sqlite_inv (lib_codec lib) (ap_db s')" "?spent s \<longrightarrow> ?spent s'"
      by auto
    then show ?thesis
    proof cases
      case won
      then have "sqlite_inv (lib_codec lib) (ap_db s')" by (simp add: spent_def)
      with won phase show ?thesis by (intro winner [of i]) auto
    next
      case lost
      with phase show ?thesis by (intro winner [of w]) auto
    qed
  qed
qed

text \<open>a refresh token is used once, also by requests that overlap. However many requests present one refresh token,
  and however their steps are interleaved, at most one of them is answered with a session.\<close>

theorem refresh_is_single_use_when_requests_overlap:
  assumes "sqlite_inv (lib_codec lib) (ap_db ap)"
    and "\<forall>rq \<in> set rqs. snd (mint_token lib (rn_access rq)) \<noteq> hash_token lib (rf_refresh_token body) \<and>
      snd (mint_token lib (rn_refresh rq)) \<noteq> hash_token lib (rf_refresh_token body)"
    and "overlap (map (\<lambda>rq. refresh_steps (sqlite_server cf lib dummy) rq body) rqs, ap) (ps, ap')"
  shows "card {i. i < length ps \<and> (\<exists>s. ps ! i = Finished (Inr s))} \<le> 1"
proof -
  let ?start = "map (\<lambda>rq. refresh_steps (sqlite_server cf lib dummy) rq body) rqs"
  have "one_winner (lib_codec lib) (hash_token lib (rf_refresh_token body)) ?start (?start, ap)"
    using assms(1) by (simp add: one_winner_def)
  from overlap_one_winner [OF assms(2) refl refl assms(3) this] obtain w where len: "length ps = length ?start"
    and phase: "\<And>i. i < length ?start \<Longrightarrow> ps ! i = ?start ! i \<or> (\<exists>e. ps ! i = Finished (Inl e)) \<or> i = w"
    unfolding one_winner_def by auto
  have waits: "?start ! i \<noteq> Finished r" if "i < length ?start" for i r
    using that by (simp add: refresh_steps_def await_def)
  have "{i. i < length ps \<and> (\<exists>s. ps ! i = Finished (Inr s))} \<subseteq> {w}"
  proof
    fix i
    assume "i \<in> {i. i < length ps \<and> (\<exists>s. ps ! i = Finished (Inr s))}"
    then obtain r where i: "i < length ?start" "ps ! i = Finished (Inr r)" unfolding len by auto
    from phase [OF i(1)] waits [OF i(1), of "Inr r"] i(2) show "i \<in> {w}" by auto
  qed
  from card_mono [OF _ this] show ?thesis by simp
qed

lemma sample_pair_fresh:
  "\<forall>rq \<in> set [sample_request2, sample_request2].
     snd (mint_token sample_lib (rn_access rq)) \<noteq> hash_token sample_lib (rf_refresh_token sample_refresh) \<and>
     snd (mint_token sample_lib (rn_refresh rq)) \<noteq> hash_token sample_lib (rf_refresh_token sample_refresh)"
  using sample_refresh_fresh by simp

text \<open>Two requests with the refresh token of the sample registration: the first runs, then the second.\<close>

lemma sample_overlap:
  obtains ap :: "sqlite_db app" and s r ap2 where "sqlite_inv (lib_codec sample_lib) (ap_db ap)"
    "session_token (tabs (ap_db ap)) (rn_store sample_request2) (hash_token sample_lib (rf_refresh_token sample_refresh)) REFRESH ''u''"
    "overlap (map (\<lambda>rq. refresh_steps sample_server rq sample_refresh) [sample_request2, sample_request2], ap)
       ([Finished (Inr s), Finished r], ap2)"
proof -
  let ?p = "refresh_steps sample_server sample_request2 sample_refresh"
  let ?start = "map (\<lambda>rq. refresh_steps sample_server rq sample_refresh) [sample_request2, sample_request2]"
  obtain ap :: "sqlite_db app" where ap1: "sqlite_inv (lib_codec sample_lib) (ap_db ap)"
    and ap2: "tokens (tabs (ap_db ap)) = put_rows [access_row sample_server sample_request ''u'', refresh_row sample_server sample_request ''u''] []"
    using sample_registration by blast
  have sv: "sv_store sample_server = sqlite_store (lib_codec sample_lib)" by (simp add: sample_server_def)
  note live = sample_refresh_live [OF ap2]
  then have live': "session_token (tabs (ap_db ap)) (rn_store sample_request2) (hash_token (sv_lib sample_server) (rf_refresh_token sample_refresh)) REFRESH ''u''"
    by (simp add: sample_server_def)
  obtain s ap1' where ok: "refresh sample_server sample_request2 sample_refresh ap = (Inr s, ap1')"
    by (rule sqlite.refresh_ok [OF sv ap1 live'])
  obtain r ap2' where r: "run ?p ap1' = (r, ap2')" by fastforce
  have "overlap (?start, ap) ([Finished (Inr s), ?p], ap1')"
    using run_overlap [OF overlap.none [of "(?start, ap)"], of 0] ok by (simp add: run_refresh)
  from run_overlap [OF this, of 1] have "overlap (?start, ap) ([Finished (Inr s), Finished r], ap2')" by (simp add: r)
  with ap1 live show ?thesis by (rule that)
qed

theorem refresh_is_single_use_when_requests_overlap_witness:
  "\<exists>ap ps ap'. overlap (map (\<lambda>rq. refresh_steps sample_server rq sample_refresh) [sample_request2, sample_request2], ap) (ps, ap') \<and>
     (\<forall>i < 2. \<exists>r. ps ! i = Finished r) \<and> card {i. i < length ps \<and> (\<exists>s. ps ! i = Finished (Inr s))} = 1"
proof -
  obtain ap s r ap2 where inv: "sqlite_inv (lib_codec sample_lib) (ap_db ap)"
    and two: "overlap (map (\<lambda>rq. refresh_steps sample_server rq sample_refresh) [sample_request2, sample_request2], ap)
       ([Finished (Inr s), Finished r], ap2)"
    by (rule sample_overlap)
  let ?ps = "[Finished (Inr s), Finished r] :: (sqlite_db app, session) prog list"
  let ?won = "{i. i < length ?ps \<and> (\<exists>s. ?ps ! i = Finished (Inr s))}"
  have "card ?won \<le> 1"
    by (rule refresh_is_single_use_when_requests_overlap [OF inv sample_pair_fresh two [unfolded sample_server_def]])
  moreover have "card {0 :: nat} \<le> card ?won" by (rule card_mono) auto
  ultimately have "card ?won = 1" by simp
  moreover have "\<forall>i < 2. \<exists>r. ?ps ! i = Finished r" by (simp add: nth_Cons' less_2_cases_iff)
  ultimately show ?thesis using two by blast
qed

section \<open>One request is served\<close>

text \<open>Whatever else happens that keeps \<open>P\<close>, the handler keeps \<open>P\<close> at each of its steps and ends with a result in \<open>Q\<close>.\<close>

primrec fulfils :: "('s \<Rightarrow> bool) \<Rightarrow> (error + 'a \<Rightarrow> bool) \<Rightarrow> ('s, 'a) prog \<Rightarrow> bool" where
  "fulfils P Q (Finished r) \<longleftrightarrow> Q r"
| "fulfils P Q (Await f) \<longleftrightarrow> (\<forall>s. P s \<longrightarrow> (case (map_prod (fulfils P Q) id \<circ> f) s of (ok, s') \<Rightarrow> ok \<and> P s'))"

lemma fulfils_await:
  assumes "\<And>s. P s \<Longrightarrow> \<exists>x. fst (m s) = Inr x \<and> P (snd (m s)) \<and> fulfils P Q (k x)"
  shows "fulfils P Q (await m k)"
proof -
  let ?f = "\<lambda>s. case m s of (Inl e, s') \<Rightarrow> (Finished (Inl e), s') | (Inr x, s') \<Rightarrow> (k x, s')"
  have "case (map_prod (fulfils P Q) id \<circ> ?f) s of (ok, s') \<Rightarrow> ok \<and> P s'" if "P s" for s
    using assms [OF that] by (cases "m s"; cases "fst (m s)") simp_all
  then show ?thesis by (simp add: await_def)
qed

lemma fulfils_step: "fulfils P Q (Await f) \<Longrightarrow> P s \<Longrightarrow> f s = (p, s') \<Longrightarrow> fulfils P Q p \<and> P s'"
  by (auto dest!: spec [of _ s])

definition spent_by :: "codec \<Rightarrow> string \<Rightarrow> string \<Rightarrow> sqlite_db app \<Rightarrow> bool" where
  "spent_by cd h a ap \<longleftrightarrow> spent cd h ap \<and> has_account (tabs (ap_db ap)) a"

definition session_of :: "string \<Rightarrow> error + session \<Rightarrow> bool" where
  "session_of a r \<longleftrightarrow> (\<exists>s. r = Inr s \<and> ss_account_id s = a)"

lemma issue_session_fulfils:
  assumes "snd (mint_token lib (rn_access rq)) \<noteq> h" "snd (mint_token lib (rn_refresh rq)) \<noteq> h" "a_id account = a"
  shows "fulfils (spent_by (lib_codec lib) h a) (session_of a) (issue_session_steps (sqlite_server cf lib dummy) rq account [] [])"
proof -
  have step: "fst (on_db (s_put_token (sqlite_store (lib_codec lib)) x a k e) s) = Inr () \<and>
      spent_by (lib_codec lib) h a (snd (on_db (s_put_token (sqlite_store (lib_codec lib)) x a k e) s))"
    if "x \<noteq> h" "k \<in> {ACCESS, REFRESH}" "spent_by (lib_codec lib) h a s" for x k e s
  proof -
    note prem = that
    have st: "sqlite_inv (lib_codec lib) (ap_db s)" "has_account (tabs (ap_db s)) a" "spent (lib_codec lib) h s"
      using prem(3) by (simp_all add: spent_by_def spent_def)
    obtain s' where s': "on_db (s_put_token (sqlite_store (lib_codec lib)) x a k e) s = (Inr (), s')"
      "tabs (ap_db s') = (tabs (ap_db s))\<lparr>tokens := put_rows [\<lparr>t_hash = x, t_account_id = a, t_kind = k, t_expires_at = e\<rparr>]
         (tokens (tabs (ap_db s)))\<rparr>"
      by (rule sqlite.put_token_step [OF st(1,2) prem(2)])
    moreover have "spent (lib_codec lib) h s'"
      by (rule keepsD' [OF put_token_spent [OF prem(1)] st(3) s'(1)])
    moreover note st(2)
    ultimately show ?thesis by (simp add: spent_by_def)
  qed
  have put: "fulfils (spent_by (lib_codec lib) h a) (session_of a) (await (on_db (s_put_token (sqlite_store (lib_codec lib)) x a k e)) (\<lambda>_. rest))"
    if "x \<noteq> h" "k \<in> {ACCESS, REFRESH}" "fulfils (spent_by (lib_codec lib) h a) (session_of a) rest" for x k e rest
    using step [OF that(1,2)] that(3) by (intro fulfils_await) auto
  show ?thesis
    unfolding issue_session_steps_def Let_def split_beta server_simps assms(3)
    by (intro put assms) (simp_all add: session_of_def assms(3))
qed

lemma refresh_first_step_wins:
  assumes "refresh_steps (sqlite_server cf lib dummy) rq body = Await f" "f ap = (p, ap')" "sqlite_inv (lib_codec lib) (ap_db ap)"
    and h: "h = hash_token lib (rf_refresh_token body)"
    and fresh: "snd (mint_token lib (rn_access rq)) \<noteq> h" "snd (mint_token lib (rn_refresh rq)) \<noteq> h"
    and live: "session_token (tabs (ap_db ap)) (rn_store rq) h REFRESH a"
  shows "fulfils (spent_by (lib_codec lib) h a) (session_of a) p" "spent_by (lib_codec lib) h a ap'"
proof -
  let ?con = "on_db (s_consume_token (sqlite_store (lib_codec lib)) (rn_store rq) h REFRESH)"
  have first: "await ?con (refresh_rest (sqlite_server cf lib dummy) rq) = Await f"
    using assms(1) by (simp add: refresh_steps_eq h)
  obtain k where k: "find (live_token (rn_store rq) h REFRESH) (tokens (tabs (ap_db ap))) = Some k" "t_account_id k = a"
    using live session_token_iff [OF sqlite.tokens_distinct [OF assms(3)]] by auto
  have con: "fst (?con ap) = Inr (Some \<lparr>tr_account_id = a\<rparr>)" using k by (simp add: sqlite.on_db_consume)
  have p: "p = refresh_rest (sqlite_server cf lib dummy) rq (Some \<lparr>tr_account_id = a\<rparr>)"
    by (rule await_step(2) [OF first assms(2) con])
  have "fulfils (spent_by (lib_codec lib) h a) (session_of a)
      (await (on_db (s_account_by_id (sqlite_store (lib_codec lib)) a)) (\<lambda>account.
         done_or Unauthorised account (\<lambda>account. issue_session_steps (sqlite_server cf lib dummy) rq account [] [])))"
  proof (rule fulfils_await)
    fix s :: "sqlite_db app"
    assume s: "spent_by (lib_codec lib) h a s"
    then obtain r where r: "row_at ar_id a (accounts (tabs (ap_db s))) = Some r"
      by (cases "row_at ar_id a (accounts (tabs (ap_db s)))") (auto simp: row_at_None has_account_def spent_by_def)
    then have "a_id (account_from_row r) = a" using row_at_Some [OF r] by (simp add: account_from_row_def)
    with r s issue_session_fulfils [OF fresh]
    show "\<exists>x. fst (on_db (s_account_by_id (sqlite_store (lib_codec lib)) a) s) = Inr x \<and>
      spent_by (lib_codec lib) h a (snd (on_db (s_account_by_id (sqlite_store (lib_codec lib)) a) s)) \<and>
      fulfils (spent_by (lib_codec lib) h a) (session_of a)
        (done_or Unauthorised x (\<lambda>account. issue_session_steps (sqlite_server cf lib dummy) rq account [] []))"
      by (simp add: sqlite.on_db_account_by_id done_or_def)
  qed
  then show "fulfils (spent_by (lib_codec lib) h a) (session_of a) p" by (simp add: p refresh_rest_def done_or_def)
  have "has_account (tabs (ap_db ap)) a"
    using live sqlite.inv_tables [OF assms(3)] by (auto simp: session_token_def tables_ok_defs)
  then have "has_account (tabs (ap_db (snd (?con ap)))) a" using sqlite.consume_token by simp
  moreover have "spent (lib_codec lib) h (snd (?con ap))" using consume_outcome [OF assms(3), of "rn_store rq" h] con by auto
  ultimately show "spent_by (lib_codec lib) h a ap'" unfolding await_step(1) [OF first assms(2)] by (simp add: spent_by_def)
qed

text \<open>Nothing has happened, or one request is on its way to a session and the rest have not begun or have lost.\<close>

definition one_served ::
  "codec \<Rightarrow> string \<Rightarrow> string \<Rightarrow> (sqlite_db app, session) prog list \<times> sqlite_db app \<Rightarrow>
   (sqlite_db app, session) prog list \<times> sqlite_db app \<Rightarrow> bool" where
  "one_served cd h a c0 c \<longleftrightarrow> c = c0 \<or> length (fst c) = length (fst c0) \<and> spent_by cd h a (snd c) \<and>
     (\<exists>w < length (fst c0). fulfils (spent_by cd h a) (session_of a) (fst c ! w) \<and>
        (\<forall>i < length (fst c0). i \<noteq> w \<longrightarrow> fst c ! i = fst c0 ! i \<or> (\<exists>e. fst c ! i = Finished (Inl e))))"

lemma overlap_one_served:
  assumes fresh: "\<forall>rq \<in> set rqs. snd (mint_token lib (rn_access rq)) \<noteq> h \<and> snd (mint_token lib (rn_refresh rq)) \<noteq> h"
    and h: "h = hash_token lib (rf_refresh_token body)"
    and start: "start = map (\<lambda>rq. refresh_steps (sqlite_server cf lib dummy) rq body) rqs"
    and inv: "sqlite_inv (lib_codec lib) (ap_db ap)"
    and live: "\<forall>rq \<in> set rqs. session_token (tabs (ap_db ap)) (rn_store rq) h REFRESH a"
  shows "overlap c c' \<Longrightarrow> one_served (lib_codec lib) h a (start, ap) c \<Longrightarrow> one_served (lib_codec lib) h a (start, ap) c'"
proof (induction rule: overlap.induct)
  case (none c)
  then show ?case .
next
  case (advance c ps s i f p s')
  let ?by = "spent_by (lib_codec lib) h a"
  have first: "rqs ! i \<in> set rqs \<and> refresh_steps (sqlite_server cf lib dummy) (rqs ! i) body = Await f"
    if "ps ! i = start ! i" "i < length start"
    using that advance.hyps(3) by (simp add: start)
  from advance.IH [OF advance.prems] consider (idle) "ps = start" "s = ap"
    | (running) w where "length ps = length start" "?by s" "w < length start" "fulfils ?by (session_of a) (ps ! w)"
        "\<And>j. j < length start \<Longrightarrow> j \<noteq> w \<Longrightarrow> ps ! j = start ! j \<or> (\<exists>e. ps ! j = Finished (Inl e))"
    unfolding one_served_def by auto
  then show ?case
  proof cases
    case idle
    with advance.hyps(2) first have i: "rqs ! i \<in> set rqs" "refresh_steps (sqlite_server cf lib dummy) (rqs ! i) body = Await f" "i < length start"
      by simp_all
    from refresh_first_step_wins [OF i(2) advance.hyps(4) [unfolded idle] inv h] i(1) assms(1) live
    have "fulfils ?by (session_of a) p" "?by s'" by blast+
    with i(3) idle show ?thesis unfolding one_served_def by auto
  next
    case running
    then have i: "i < length start" using advance.hyps(2) by simp
    show ?thesis
    proof (cases "i = w")
      case True
      with fulfils_step [of ?by "session_of a" f s p s'] running(2,4) advance.hyps(3,4)
      have step: "fulfils ?by (session_of a) p" "?by s'" by simp_all
      show ?thesis
        unfolding one_served_def fst_conv snd_conv
      proof (rule disjI2, intro conjI exI [of _ w] allI impI)
        show "length (ps[i := p]) = length start" "w < length start" using running by simp_all
        show "ps[i := p] ! j = start ! j \<or> (\<exists>e. ps[i := p] ! j = Finished (Inl e))" if "j < length start" "j \<noteq> w" for j
          using running(5) [OF that] True that(2) by simp
      qed (use running step True in simp_all)
    next
      case False
      with running(5) [OF i] advance.hyps(3) have "ps ! i = start ! i" by auto
      from first [OF this i] assms(1) have rq: "rqs ! i \<in> set rqs" "refresh_steps (sqlite_server cf lib dummy) (rqs ! i) body = Await f"
        "snd (mint_token lib (rn_access (rqs ! i))) \<noteq> h" "snd (mint_token lib (rn_refresh (rqs ! i))) \<noteq> h"
        by auto
      have sp: "spent (lib_codec lib) h s" "sqlite_inv (lib_codec lib) (ap_db s)" "has_account (tabs (ap_db s)) a"
        using running(2) by (simp_all add: spent_by_def spent_def)
      obtain e where lost: "p = Finished (Inl e)" "spent (lib_codec lib) h s'"
        using refresh_first_step [OF rq(2) advance.hyps(4) sp(2) h rq(3,4)] sp(1) by auto
      have "s' = snd (on_db (s_consume_token (sqlite_store (lib_codec lib)) (rn_store (rqs ! i)) h REFRESH) s)"
        using await_step(1) [OF rq(2) [unfolded refresh_steps_eq] advance.hyps(4)] by (simp add: h)
      then have "has_account (tabs (ap_db s')) a" using sp(3) sqlite.consume_token by simp
      with lost have kept: "?by s'" by (simp add: spent_by_def)
      show ?thesis
        unfolding one_served_def fst_conv snd_conv
      proof (rule disjI2, intro conjI kept exI [of _ w] allI impI)
        show "length (ps[i := p]) = length start" "w < length start" using running by simp_all
        show "fulfils ?by (session_of a) (ps[i := p] ! w)" using False running(4) by simp
        show "ps[i := p] ! j = start ! j \<or> (\<exists>e. ps[i := p] ! j = Finished (Inl e))" if "j < length start" "j \<noteq> w" for j
          using running(1) running(5) [OF that] lost(1) i by (cases "j = i") auto
      qed
    qed
  qed
qed

text \<open>C15: and one of them is served. When requests that present one live refresh token overlap and all have been answered,
  exactly one of them was answered with a session, for the account of the token, and every other one with an error.\<close>

theorem overlapping_refreshes_serve_exactly_one:
  assumes "sqlite_inv (lib_codec lib) (ap_db ap)" "rqs \<noteq> []"
    and "\<forall>rq \<in> set rqs. snd (mint_token lib (rn_access rq)) \<noteq> hash_token lib (rf_refresh_token body) \<and>
      snd (mint_token lib (rn_refresh rq)) \<noteq> hash_token lib (rf_refresh_token body)"
    and "\<forall>rq \<in> set rqs. session_token (tabs (ap_db ap)) (rn_store rq) (hash_token lib (rf_refresh_token body)) REFRESH a"
    and "overlap (map (\<lambda>rq. refresh_steps (sqlite_server cf lib dummy) rq body) rqs, ap) (ps, ap')"
    and "\<forall>p \<in> set ps. \<exists>r. p = Finished r"
  shows "\<exists>w < length ps. (\<exists>s. ps ! w = Finished (Inr s) \<and> ss_account_id s = a) \<and>
    (\<forall>i < length ps. i \<noteq> w \<longrightarrow> (\<exists>e. ps ! i = Finished (Inl e)))"
proof -
  let ?start = "map (\<lambda>rq. refresh_steps (sqlite_server cf lib dummy) rq body) rqs"
  have waits: "?start ! i \<noteq> Finished r" if "i < length ?start" for i r
    using that by (simp add: refresh_steps_def await_def)
  have "one_served (lib_codec lib) (hash_token lib (rf_refresh_token body)) a (?start, ap) (ps, ap')"
    by (rule overlap_one_served [OF assms(3) refl refl assms(1,4,5)]) (simp add: one_served_def)
  moreover have "ps \<noteq> ?start" using waits [of 0] assms(2,6) by (cases rqs) auto
  ultimately obtain w where w: "length ps = length ?start" "w < length ?start" "fulfils (spent_by (lib_codec lib) (hash_token lib (rf_refresh_token body)) a) (session_of a) (ps ! w)"
    and rest: "\<And>i. i < length ?start \<Longrightarrow> i \<noteq> w \<Longrightarrow> ps ! i = ?start ! i \<or> (\<exists>e. ps ! i = Finished (Inl e))"
    unfolding one_served_def by auto
  from w(1,2) assms(6) obtain r where "ps ! w = Finished r" by (metis nth_mem)
  with w(3) have "\<exists>s. ps ! w = Finished (Inr s) \<and> ss_account_id s = a" by (auto simp: session_of_def)
  moreover have "\<exists>e. ps ! i = Finished (Inl e)" if "i < length ps" "i \<noteq> w" for i
    using rest [of i] waits [of i] assms(6) that w(1) by (metis nth_mem)
  ultimately show ?thesis using w(1,2) by metis
qed

theorem overlapping_refreshes_serve_exactly_one_witness:
  "\<exists>ap ps ap' s e. overlap (map (\<lambda>rq. refresh_steps sample_server rq sample_refresh) [sample_request2, sample_request2], ap) (ps, ap') \<and>
     ps = [Finished (Inr s), Finished (Inl e)] \<and> ss_account_id s = ''u''"
proof -
  obtain ap s r ap2 where run: "sqlite_inv (lib_codec sample_lib) (ap_db ap)"
    "session_token (tabs (ap_db ap)) (rn_store sample_request2) (hash_token sample_lib (rf_refresh_token sample_refresh)) REFRESH ''u''"
    "overlap (map (\<lambda>rq. refresh_steps sample_server rq sample_refresh) [sample_request2, sample_request2], ap)
       ([Finished (Inr s), Finished r], ap2)"
    by (rule sample_overlap)
  let ?ps = "[Finished (Inr s), Finished r] :: (sqlite_db app, session) prog list"
  have ended: "\<forall>p \<in> set ?ps. \<exists>r. p = Finished r" by simp
  have two: "[sample_request2, sample_request2] \<noteq> []"
    "\<forall>rq \<in> set [sample_request2, sample_request2]. session_token (tabs (ap_db ap)) (rn_store rq)
      (hash_token sample_lib (rf_refresh_token sample_refresh)) REFRESH ''u''"
    using run(2) by simp_all
  obtain w where "w < length ?ps" "\<exists>s'. ?ps ! w = Finished (Inr s') \<and> ss_account_id s' = ''u''"
    "\<And>i. i < length ?ps \<Longrightarrow> i \<noteq> w \<Longrightarrow> \<exists>e. ?ps ! i = Finished (Inl e)"
    using overlapping_refreshes_serve_exactly_one [OF run(1) two(1) sample_pair_fresh two(2) run(3) [unfolded sample_server_def] ended]
    by blast
  from this(1,2) this(3) [of 0] this(3) [of 1] have "ss_account_id s = ''u''" "\<exists>e. r = Inl e"
    by (auto simp: less_Suc_eq)
  with run(3) show ?thesis by blast
qed

end
