(* ===== verification/Push_Overlap.thy ===== *)
theory Push_Overlap
  imports Concurrency System
begin

text \<open>
  A push that overlaps other requests (\<^verbatim>\<open>server/src/routes/sync.rs\<close>). The handler asks the store whether the
  caller may write a group, then who owns the group, then files the record: three statements, with other requests
  between them. \<open>push_steps\<close> is the handler cut at its store calls, \<open>along\<close> a run of it in which
  anything may happen to the database between two steps, and \<open>own\<close> the states around its own steps.
\<close>

section \<open>Push, cut at its store calls\<close>

definition put_one_steps ::
  "'s server \<Rightarrow> string \<Rightarrow> envelope \<Rightarrow> push_state \<Rightarrow> (push_state \<Rightarrow> ('s app, 'a) prog) \<Rightarrow> ('s app, 'a) prog" where
  "put_one_steps sv storage_account e ps k =
     await (on_db (s_put_envelope (sv_store sv) storage_account e)) (\<lambda>r.
     case r of
       Some seq \<Rightarrow> k (accept e seq ps)
     | None \<Rightarrow> k (reject e Stale ps))"

definition group_allowed_steps ::
  "'s server \<Rightarrow> string \<Rightarrow> string \<Rightarrow> push_state \<Rightarrow> (bool \<times> push_state \<Rightarrow> ('s app, 'a) prog) \<Rightarrow> ('s app, 'a) prog" where
  "group_allowed_steps sv account_id g ps k =
     (case pu_writable ps g of
        Some known \<Rightarrow> k (known, ps)
      | None \<Rightarrow>
          await (on_db (s_can_write_group (sv_store sv) account_id g)) (\<lambda>known.
          k (known, ps\<lparr>pu_writable := (pu_writable ps)(g \<mapsto> known)\<rparr>)))"

definition group_owner_steps ::
  "'s server \<Rightarrow> string \<Rightarrow> push_state \<Rightarrow> (string option \<times> push_state \<Rightarrow> ('s app, 'a) prog) \<Rightarrow> ('s app, 'a) prog" where
  "group_owner_steps sv g ps k =
     (case pu_owners ps g of
        Some known \<Rightarrow> k (known, ps)
      | None \<Rightarrow>
          await (on_db (s_share_owner (sv_store sv) g)) (\<lambda>known.
          k (known, ps\<lparr>pu_owners := (pu_owners ps)(g \<mapsto> known)\<rparr>)))"

definition push_one_steps ::
  "'s server \<Rightarrow> string \<Rightarrow> i64 \<Rightarrow> envelope \<Rightarrow> push_state \<Rightarrow> (push_state \<Rightarrow> ('s app, 'a) prog) \<Rightarrow> ('s app, 'a) prog" where
  "push_one_steps sv account_id now e ps k =
     (case refuse e now (sv_config sv) of
        Some reason \<Rightarrow> k (reject e reason ps)
      | None \<Rightarrow>
          (case e_key_ref e of
             Personal \<Rightarrow> put_one_steps sv account_id e ps k
           | GroupKey g \<Rightarrow>
               group_allowed_steps sv account_id g ps (\<lambda>(allowed, ps).
               if \<not> allowed then k (reject e NotAMember ps)
               else group_owner_steps sv g ps (\<lambda>(owner, ps).
                    put_one_steps sv (case owner of Some x \<Rightarrow> x | None \<Rightarrow> account_id) e ps k))))"

fun push_loop_steps ::
  "'s server \<Rightarrow> string \<Rightarrow> i64 \<Rightarrow> envelope list \<Rightarrow> push_state \<Rightarrow> (push_state \<Rightarrow> ('s app, 'a) prog) \<Rightarrow> ('s app, 'a) prog" where
  "push_loop_steps sv account_id now [] ps k = k ps"
| "push_loop_steps sv account_id now (e # es) ps k =
     push_one_steps sv account_id now e ps (\<lambda>ps. push_loop_steps sv account_id now es ps k)"

text \<open>The extractor makes one store call, so it is one step.\<close>

definition push_steps :: "'s server \<Rightarrow> request \<Rightarrow> push_request \<Rightarrow> ('s app, push_response) prog" where
  "push_steps sv rq body =
     await (caller sv rq) (\<lambda>account_id.
     push_loop_steps sv account_id (now_ms (rn_store rq)) (pq_envelopes body) push_start (\<lambda>ps.
     await (on_db (s_max_seq (sv_store sv) account_id)) (\<lambda>cursor.
     Finished (Inr \<lparr>ps_accepted = pu_accepted ps, ps_rejected = pu_rejected ps, ps_cursor = cursor\<rparr>))))"

lemma run_put_one: "run (put_one_steps sv x e ps k) = bind_op (put_one sv x e ps) (\<lambda>ps. run (k ps))"
  by (rule ext) (simp add: put_one_steps_def put_one_def run_await bind_op_def ok_op_def split: prod.split sum.split option.split)

lemma run_group_allowed: "run (group_allowed_steps sv a g ps k) = bind_op (group_allowed sv a g ps) (\<lambda>x. run (k x))"
  by (rule ext) (simp add: group_allowed_steps_def group_allowed_def run_await bind_op_def ok_op_def split: prod.split sum.split option.split)

lemma run_group_owner: "run (group_owner_steps sv g ps k) = bind_op (group_owner_of sv g ps) (\<lambda>x. run (k x))"
  by (rule ext) (simp add: group_owner_steps_def group_owner_of_def run_await bind_op_def ok_op_def split: prod.split sum.split option.split)

lemma run_push_one: "run (push_one_steps sv a now e ps k) = bind_op (push_one sv a now e ps) (\<lambda>ps. run (k ps))"
proof (rule ext)
  show "run (push_one_steps sv a now e ps k) s = bind_op (push_one sv a now e ps) (\<lambda>ps. run (k ps)) s" for s
    by (simp add: push_one_steps_def push_one_def run_put_one run_group_allowed run_group_owner bind_op_def ok_op_def
        split: prod.split sum.split option.split key_ref.split)
qed

lemma run_push_loop: "run (push_loop_steps sv a now es ps k) = bind_op (push_loop sv a now es ps) (\<lambda>ps. run (k ps))"
  by (induction es arbitrary: ps)
    (simp_all add: run_push_one fun_eq_iff bind_op_def ok_op_def split: prod.split sum.split)

lemma run_push: "run (push_steps sv rq body) = push sv rq body"
  by (simp add: push_steps_def push_def run_await run_push_loop run_finished del: run.simps)

section \<open>What a push writes among other requests\<close>

definition group_open :: "tables \<Rightarrow> string \<Rightarrow> string \<Rightarrow> bool" where
  "group_open t a g \<longleftrightarrow> \<not> group_shared t g \<or> in_group t a g"

text \<open>The tables at the start of the handler's own step \<open>j\<close>.\<close>

definition tables_at :: "(sqlite_db app \<times> sqlite_db app) list \<Rightarrow> nat \<Rightarrow> tables" where
  "tables_at own j = tabs (ap_db (fst (own ! j)))"

definition asked :: "string \<Rightarrow> (sqlite_db app \<times> sqlite_db app) list \<Rightarrow> string \<Rightarrow> bool" where
  "asked a own g \<longleftrightarrow> (\<exists>j < length own. group_open (tables_at own j) a g)"

definition owned_then :: "string \<Rightarrow> (sqlite_db app \<times> sqlite_db app) list \<Rightarrow> string \<Rightarrow> string \<Rightarrow> bool" where
  "owned_then a own g x \<longleftrightarrow>
     (\<exists>j k. j < k \<and> k < length own \<and> group_open (tables_at own j) a g \<and> group_owner (tables_at own k) g = Some x)"

text \<open>Where an earlier answer of the store lets a push of account \<open>a\<close> file a record.\<close>

definition answered_for :: "string \<Rightarrow> (sqlite_db app \<times> sqlite_db app) list \<Rightarrow> string \<Rightarrow> bool" where
  "answered_for a own x \<longleftrightarrow> x = a \<or> (\<exists>g. owned_then a own g x)"

definition writes_as_answered ::
  "sqlite_db server \<Rightarrow> request \<Rightarrow> (sqlite_db app \<times> sqlite_db app) list \<Rightarrow> sqlite_db app \<Rightarrow> sqlite_db app \<Rightarrow> bool" where
  "writes_as_answered sv rq own s s' \<longleftrightarrow>
     tabs (ap_db s') = (tabs (ap_db s))\<lparr>records := records (tabs (ap_db s'))\<rparr> \<and>
     (\<forall>r \<in> set (records (tabs (ap_db s'))) \<union> set (records (tabs (ap_db s))).
        r \<in> set (records (tabs (ap_db s'))) \<inter> set (records (tabs (ap_db s))) \<or>
        own \<noteq> [] \<and> (\<exists>a. fst (caller sv rq (fst (own ! 0))) = Inr a \<and> answered_for a own (r_account_id r)))"

definition ready :: "sqlite_db server \<Rightarrow> request \<Rightarrow> string \<Rightarrow> (sqlite_db app \<times> sqlite_db app) list \<Rightarrow> push_state \<Rightarrow> bool" where
  "ready sv rq a own ps \<longleftrightarrow> own \<noteq> [] \<and> fst (caller sv rq (fst (own ! 0))) = Inr a \<and>
     (\<forall>g. pu_writable ps g = Some True \<longrightarrow> asked a own g) \<and>
     (\<forall>g x. pu_owners ps g = Some (Some x) \<longrightarrow> owned_then a own g x)"

lemma answers_last:
  "asked a own g \<Longrightarrow> asked a (own @ [z]) g"
  "owned_then a own g x \<Longrightarrow> owned_then a (own @ [z]) g x"
  "group_open (tabs (ap_db (fst z))) a g \<Longrightarrow> asked a (own @ [z]) g"
  "asked a own g \<Longrightarrow> group_owner (tabs (ap_db (fst z))) g = Some x \<Longrightarrow> owned_then a (own @ [z]) g x"
proof -
  have at: "tables_at (own @ [z]) j = (if j < length own then tables_at own j else tabs (ap_db (fst z)))" if "j \<le> length own" for j
    using that by (auto simp: tables_at_def nth_append)
  show "asked a (own @ [z]) g" if "asked a own g"
  proof -
    from that obtain j where "j < length own" "group_open (tables_at own j) a g" by (auto simp: asked_def)
    then show ?thesis unfolding asked_def by (intro exI [of _ j]) (simp add: at)
  qed
  show "owned_then a (own @ [z]) g x" if "owned_then a own g x"
  proof -
    from that obtain j k where "j < k" "k < length own" "group_open (tables_at own j) a g"
      "group_owner (tables_at own k) g = Some x" by (auto simp: owned_then_def)
    then show ?thesis unfolding owned_then_def by (intro exI [of _ j] exI [of _ k]) (simp add: at)
  qed
  show "group_open (tabs (ap_db (fst z))) a g \<Longrightarrow> asked a (own @ [z]) g"
    unfolding asked_def by (rule exI [of _ "length own"]) (simp add: at)
  show "owned_then a (own @ [z]) g x" if q: "asked a own g" and o: "group_owner (tabs (ap_db (fst z))) g = Some x"
  proof -
    from q obtain j where "j < length own" "group_open (tables_at own j) a g" by (auto simp: asked_def)
    with o show ?thesis unfolding owned_then_def
      by (intro exI [of _ j] exI [of _ "length own"]) (simp add: at)
  qed
qed

lemma ready_more: "ready sv rq a own ps \<Longrightarrow> ready sv rq a (own @ [z]) ps"
  by (auto simp: ready_def nth_append answers_last)

lemma ready_noted [simp]:
  "ready sv rq a own (accept e q ps) = ready sv rq a own ps" "ready sv rq a own (reject e r ps) = ready sv rq a own ps"
  by (simp_all add: ready_def accept_def reject_def)

lemma reads_write_nothing: "tabs (ap_db s') = tabs (ap_db s) \<Longrightarrow> writes_as_answered sv rq own s s'"
  by (simp add: writes_as_answered_def)

lemma sqlite_put_envelope_tabs:
  "tabs (snd (sqlite_put_envelope cd x e db)) = tabs db \<or>
   (\<exists>n j. tabs (snd (sqlite_put_envelope cd x e db)) = (tabs db)\<lparr>records :=
     fst (upsert record_key (record_on_conflict sqlite_newer) (record_row_of cd x n j e) (records (tabs db)))\<rparr>)"
proof (cases "sequence db")
  case None
  then show ?thesis by (simp add: sqlite_put_envelope_def)
next
  case (Some n)
  show ?thesis
  proof (cases "key_ref_to_json cd (e_key_ref e)")
    case (Inl m)
    with Some show ?thesis by (simp add: sqlite_put_envelope_def)
  next
    case (Inr j)
    let ?new = "record_row_of cd x (n + 1) j e"
    have "tabs (snd (sqlite_put_envelope cd x e db)) = tabs db \<or> tabs (snd (sqlite_put_envelope cd x e db)) =
        (tabs db)\<lparr>records := fst (upsert record_key (record_on_conflict sqlite_newer) ?new (records (tabs db)))\<rparr>"
      using Some Inr by (simp add: sqlite_put_envelope_def checked_upsert_def split: prod.split)
    then show ?thesis by blast
  qed
qed

text \<open>A row of another account is neither written nor replaced.\<close>

lemma put_envelope_writes:
  fixes s s' :: "sqlite_db app"
  assumes "s' = snd (on_db (s_put_envelope (sqlite_store cd) x e) s)"
  shows "tabs (ap_db s') = (tabs (ap_db s))\<lparr>records := records (tabs (ap_db s'))\<rparr>"
    and "r_account_id r \<noteq> x \<Longrightarrow> r \<in> set (records (tabs (ap_db s'))) \<longleftrightarrow> r \<in> set (records (tabs (ap_db s)))"
proof -
  have "tabs (ap_db s') = tabs (snd (sqlite_put_envelope cd x e (ap_db s)))" by (simp add: assms sqlite_store_def)
  with sqlite_put_envelope_tabs [of cd x e "ap_db s"] consider (same) "tabs (ap_db s') = tabs (ap_db s)"
    | (put) n j where "tabs (ap_db s') = (tabs (ap_db s))\<lparr>records := fst (upsert record_key (record_on_conflict sqlite_newer)
         (record_row_of cd x n j e) (records (tabs (ap_db s))))\<rparr>"
    by auto
  note cases = this
  show "tabs (ap_db s') = (tabs (ap_db s))\<lparr>records := records (tabs (ap_db s'))\<rparr>"
    by (cases rule: cases) simp_all
  show "r \<in> set (records (tabs (ap_db s'))) \<longleftrightarrow> r \<in> set (records (tabs (ap_db s)))" if "r_account_id r \<noteq> x"
  proof (cases rule: cases)
    case (put n j)
    moreover have "record_key r \<noteq> record_key (record_row_of cd x n j e)" using that by (simp add: record_key_def record_row_of_def)
    ultimately show ?thesis by (simp add: record_table.rows_elsewhere)
  qed simp
qed

lemma put_one_promises:
  assumes "ready sv rq a own ps" "answered_for a own x" "sv_store sv = sqlite_store cd"
    and "\<And>ps' own'. ready sv rq a own' ps' \<Longrightarrow> promises (writes_as_answered sv rq) (k ps') own'"
  shows "promises (writes_as_answered sv rq) (put_one_steps sv x e ps k) own"
proof -
  have "writes_as_answered sv rq own s s'" if "s' = snd (on_db (s_put_envelope (sqlite_store cd) x e) s)" for s s' :: "sqlite_db app"
    unfolding writes_as_answered_def
  proof (intro conjI ballI)
    show "tabs (ap_db s') = (tabs (ap_db s))\<lparr>records := records (tabs (ap_db s'))\<rparr>"
      by (rule put_envelope_writes(1) [OF that])
    fix r
    show "r \<in> set (records (tabs (ap_db s'))) \<inter> set (records (tabs (ap_db s))) \<or>
        own \<noteq> [] \<and> (\<exists>a. fst (caller sv rq (fst (own ! 0))) = Inr a \<and> answered_for a own (r_account_id r))"
      if "r \<in> set (records (tabs (ap_db s'))) \<union> set (records (tabs (ap_db s)))"
      using put_envelope_writes(2) [OF \<open>s' = _\<close>, of r] that assms(1,2)
      by (cases "r_account_id r = x") (auto simp: ready_def)
  qed
  note writes = this [OF refl]
  show ?thesis
    unfolding put_one_steps_def promises_await assms(3)
    using writes by (auto split: option.split intro!: assms(4) simp: ready_more [OF assms(1)] simp del: on_db_simps)
qed

lemma group_allowed_promises:
  assumes "ready sv rq a own ps" "sv_store sv = sqlite_store cd"
    and "\<And>v ps' own'. ready sv rq a own' ps' \<Longrightarrow> (v \<Longrightarrow> asked a own' g) \<Longrightarrow> promises (writes_as_answered sv rq) (k (v, ps')) own'"
  shows "promises (writes_as_answered sv rq) (group_allowed_steps sv a g ps k) own"
proof (cases "pu_writable ps g")
  case (Some v)
  with assms(1) have "v \<Longrightarrow> asked a own g" by (simp add: ready_def)
  with Some assms(1,3) show ?thesis by (simp add: group_allowed_steps_def)
next
  case None
  let ?p = "\<lambda>known. ps\<lparr>pu_writable := (pu_writable ps)(g \<mapsto> known)\<rparr>"
  have read: "on_db (s_can_write_group (sv_store sv) a g) s = (Inr (group_open (tabs (ap_db s)) a g), s)" for s :: "sqlite_db app"
    by (simp add: on_db_def assms(2) sqlite.can_write_group group_open_def)
  have "asked a (own @ [(s, s)]) g" if "group_open (tabs (ap_db s)) a g" for s
    using that by (intro answers_last(3)) simp
  moreover from this have "ready sv rq a (own @ [(s, s)]) (?p (group_open (tabs (ap_db s)) a g))" for s
    using ready_more [OF assms(1), of "(s, s)"] by (simp add: ready_def)
  ultimately show ?thesis
    using None unfolding group_allowed_steps_def
    by (simp add: promises_await read reads_write_nothing assms(3))
qed

lemma group_owner_promises:
  assumes "ready sv rq a own ps" "sv_store sv = sqlite_store cd" "asked a own g"
    and "\<And>v ps' own'. ready sv rq a own' ps' \<Longrightarrow> (\<And>x. v = Some x \<Longrightarrow> owned_then a own' g x) \<Longrightarrow>
      promises (writes_as_answered sv rq) (k (v, ps')) own'"
  shows "promises (writes_as_answered sv rq) (group_owner_steps sv g ps k) own"
proof (cases "pu_owners ps g")
  case (Some v)
  with assms(1) have "v = Some x \<Longrightarrow> owned_then a own g x" for x by (simp add: ready_def)
  with Some assms(1,4) show ?thesis by (simp add: group_owner_steps_def)
next
  case None
  let ?p = "\<lambda>known. ps\<lparr>pu_owners := (pu_owners ps)(g \<mapsto> known)\<rparr>"
  have read: "on_db (s_share_owner (sv_store sv) g) s = (Inr (group_owner (tabs (ap_db s)) g), s)" for s :: "sqlite_db app"
    by (simp add: on_db_def assms(2) sqlite.share_owner)
  have "owned_then a (own @ [(s, s)]) g x" if "group_owner (tabs (ap_db s)) g = Some x" for s x
    using that by (intro answers_last(4) assms(3)) simp
  moreover from this have "ready sv rq a (own @ [(s, s)]) (?p (group_owner (tabs (ap_db s)) g))" for s
    using ready_more [OF assms(1), of "(s, s)"] by (simp add: ready_def)
  ultimately show ?thesis
    using None unfolding group_owner_steps_def
    by (simp add: promises_await read reads_write_nothing assms(4))
qed

lemma push_one_promises:
  assumes "ready sv rq a own ps" "sv_store sv = sqlite_store cd"
    and k: "\<And>ps' own'. ready sv rq a own' ps' \<Longrightarrow> promises (writes_as_answered sv rq) (k ps') own'"
  shows "promises (writes_as_answered sv rq) (push_one_steps sv a now e ps k) own"
proof (cases "refuse e now (sv_config sv)")
  case (Some reason)
  with assms(1) k show ?thesis by (simp add: push_one_steps_def)
next
  case checked: None
  show ?thesis
  proof (cases "e_key_ref e")
    case Personal
    have "answered_for a own a" by (simp add: answered_for_def)
    with checked Personal put_one_promises [OF assms(1) _ assms(2) k, of a] show ?thesis by (simp add: push_one_steps_def)
  next
    case (GroupKey g)
    have "promises (writes_as_answered sv rq)
        (group_owner_steps sv g ps' (\<lambda>(owner, ps). put_one_steps sv (case owner of Some x \<Rightarrow> x | None \<Rightarrow> a) e ps k)) own'"
      if "ready sv rq a own' ps'" "asked a own' g" for ps' own'
      by (rule group_owner_promises [OF that(1) assms(2) that(2)])
        (auto intro!: put_one_promises [OF _ _ assms(2) k] simp: answered_for_def split: option.split)
    then show ?thesis
      using checked GroupKey k unfolding push_one_steps_def
      by (auto intro!: group_allowed_promises [OF assms(1,2)])
  qed
qed

lemma push_loop_promises:
  assumes "ready sv rq a own ps" "sv_store sv = sqlite_store cd"
    and "\<And>ps' own'. ready sv rq a own' ps' \<Longrightarrow> promises (writes_as_answered sv rq) (k ps') own'"
  shows "promises (writes_as_answered sv rq) (push_loop_steps sv a now es ps k) own"
  using assms(1)
proof (induction es arbitrary: ps own)
  case Nil
  then show ?case by (simp add: assms(3))
next
  case (Cons e es)
  from push_one_promises [OF Cons.prems assms(2) Cons.IH] show ?case by simp
qed

lemma push_promises:
  assumes "sv_store sv = sqlite_store cd"
  shows "promises (writes_as_answered sv rq) (push_steps sv rq body) []"
proof -
  have first: "snd (caller sv rq s) = s" for s :: "sqlite_db app"
    by (rule sqlite.caller_read [OF assms])
  have last: "snd (on_db (s_max_seq (sqlite_store cd) a) s) = s" for a and s :: "sqlite_db app"
    by (simp add: on_db_def sqlite_store_def sqlite_max_seq_def split: option.split)
  have "ready sv rq a [(s, s)] push_start" if "fst (caller sv rq s) = Inr a" for a s
    using that by (simp add: ready_def push_start_def)
  then show ?thesis
    unfolding push_steps_def promises_await first
    by (auto intro!: push_loop_promises [OF _ assms] simp: promises_await assms last reads_write_nothing)
qed

text \<open>C13: a push among other requests writes only what the store answered for. Whatever happens to the database between
  the steps of a push, each step of its own leaves every table but the records as it was, and a record it writes or
  replaces is filed under the account the bearer token named when the push began, or under an account that the store named
  as owner of a group, in a step of this push, after it had answered in an earlier one that the caller may write that group.\<close>

theorem overlapped_push_writes_as_answered:
  assumes "along others (push_steps (sqlite_server cf lib dummy) rq body, ap) own (p, ap')"
    and "i < length own" "own ! i = (s, s')"
  shows "tabs (ap_db s') = (tabs (ap_db s))\<lparr>records := records (tabs (ap_db s'))\<rparr> \<and>
    (\<forall>r \<in> set (records (tabs (ap_db s'))) \<union> set (records (tabs (ap_db s))).
       r \<in> set (records (tabs (ap_db s'))) \<inter> set (records (tabs (ap_db s))) \<or>
       (\<exists>a. fst (caller (sqlite_server cf lib dummy) rq (fst (own ! 0))) = Inr a \<and>
          (r_account_id r = a \<or> (\<exists>g j k. j < k \<and> k < i \<and> group_open (tables_at own j) a g \<and>
             group_owner (tables_at own k) g = Some (r_account_id r)))))"
proof -
  let ?sv = "sqlite_server cf lib dummy"
  have "promises (writes_as_answered ?sv rq) (push_steps ?sv rq body) []" by (rule push_promises) simp
  with along_promises [OF assms(1)] assms(2,3) have w: "writes_as_answered ?sv rq (take i own) s s'" by force
  have at: "tables_at (take i own) j = tables_at own j" if "j < i" for j using that by (simp add: tables_at_def)
  have then_iff: "owned_then a (take i own) g x \<longleftrightarrow> (\<exists>j k. j < k \<and> k < i \<and> group_open (tables_at own j) a g \<and>
      group_owner (tables_at own k) g = Some x)" for a g x
  proof -
    have "length (take i own) = i" using assms(2) by simp
    then have "owned_then a (take i own) g x \<longleftrightarrow> (\<exists>j k. j < k \<and> k < i \<and> group_open (tables_at (take i own) j) a g \<and>
      group_owner (tables_at (take i own) k) g = Some x)" by (simp only: owned_then_def)
    also have "\<dots> \<longleftrightarrow> (\<exists>j k. j < k \<and> k < i \<and> group_open (tables_at own j) a g \<and> group_owner (tables_at own k) g = Some x)"
    proof (intro iff_exI)
      show "(j < k \<and> k < i \<and> group_open (tables_at (take i own) j) a g \<and> group_owner (tables_at (take i own) k) g = Some x) \<longleftrightarrow>
        (j < k \<and> k < i \<and> group_open (tables_at own j) a g \<and> group_owner (tables_at own k) g = Some x)" for j k
        by (cases "j < k \<and> k < i") (auto simp: at)
    qed
    finally show ?thesis .
  qed
  show ?thesis
  proof (intro conjI ballI)
    show "tabs (ap_db s') = (tabs (ap_db s))\<lparr>records := records (tabs (ap_db s'))\<rparr>"
      using w unfolding writes_as_answered_def by (rule conjunct1)
    fix r
    assume "r \<in> set (records (tabs (ap_db s'))) \<union> set (records (tabs (ap_db s)))"
    with w consider "r \<in> set (records (tabs (ap_db s'))) \<inter> set (records (tabs (ap_db s)))"
      | a where "take i own \<noteq> []" "fst (caller ?sv rq (fst (take i own ! 0))) = Inr a" "answered_for a (take i own) (r_account_id r)"
      unfolding writes_as_answered_def by blast
    then show "r \<in> set (records (tabs (ap_db s'))) \<inter> set (records (tabs (ap_db s))) \<or>
       (\<exists>a. fst (caller ?sv rq (fst (own ! 0))) = Inr a \<and>
          (r_account_id r = a \<or> (\<exists>g j k. j < k \<and> k < i \<and> group_open (tables_at own j) a g \<and>
             group_owner (tables_at own k) g = Some (r_account_id r))))"
    proof cases
      case 1
      then show ?thesis ..
    next
      case (2 a)
      then have "fst (caller ?sv rq (fst (own ! 0))) = Inr a" by simp
      with 2(3) show ?thesis unfolding answered_for_def then_iff by blast
    qed
  qed
qed

section \<open>Answers that are out of date\<close>

text \<open>Any request to the server, run between two steps of the push.\<close>

definition serves :: "'s server \<Rightarrow> 's app \<Rightarrow> 's app \<Rightarrow> bool" where
  "serves sv ap ap' \<longleftrightarrow> ap' = ap \<or> (\<exists>rq call. ap' = snd (handle sv rq call ap))"

text \<open>A push of one record of a group, with others between its four store calls.\<close>

lemma along_one_group_record:
  assumes sv: "sv_store sv = sqlite_store cd" and e: "e_key_ref e = GroupKey g" "refuse e (now_ms (rn_store rq)) (sv_config sv) = None"
    and between: "others s0 s1" "others s1 s2" "others s2 s3"
    and answers: "fst (caller sv rq s0) = Inr a" "group_open (tabs (ap_db s1)) a g" "group_owner (tabs (ap_db s2)) g = Some x"
    and put: "on_db (s_put_envelope (sqlite_store cd) x e) s3 = (Inr (Some q), s4)"
  obtains p where "along others (push_steps sv rq \<lparr>pq_envelopes = [e]\<rparr>, s0) [(s0, s0), (s1, s1), (s2, s2), (s3, s4)] (p, s4)"
proof -
  let ?run = "along others (push_steps sv rq \<lparr>pq_envelopes = [e]\<rparr>, s0)"
  have reads: "caller sv rq s0 = (Inr a, s0)" "on_db (s_can_write_group (sqlite_store cd) a g) s1 = (Inr True, s1)"
    "on_db (s_share_owner (sqlite_store cd) g) s2 = (Inr (Some x), s2)"
    using answers sqlite.caller_read [OF sv]
    by (simp_all add: prod_eq_iff on_db_def sqlite.can_write_group sqlite.share_owner group_open_def)
  have step: "?run (own @ [(s, s')]) (k v, s')" if "?run own (await m k, s)" "m s = (Inr v, s')" for own m k s v s'
    using along.self [OF that(1) [unfolded await_def]] that(2) by simp
  have start: "pu_writable push_start g = None" "pu_owners (push_start\<lparr>pu_writable := w\<rparr>) g = None" for w
    by (simp_all add: push_start_def)
  obtain F where F: "push_steps sv rq \<lparr>pq_envelopes = [e]\<rparr> =
      await (caller sv rq) (\<lambda>i. push_loop_steps sv i (now_ms (rn_store rq)) [e] push_start (F i))"
    by (simp add: push_steps_def)
  define K where "K = (\<lambda>(owner, ps). put_one_steps sv (case owner of Some x \<Rightarrow> x | None \<Rightarrow> a) e ps (F a))"
  define J where "J = (\<lambda>(allowed, ps). if \<not> allowed then F a (reject e NotAMember ps) else group_owner_steps sv g ps K)"
  have "?run [] (await (caller sv rq) (\<lambda>i. push_loop_steps sv i (now_ms (rn_store rq)) [e] push_start (F i)), s0)"
    unfolding F by (rule along.begins)
  from step [OF this reads(1), THEN along.other, OF between(1)]
  have "?run [(s0, s0)] (group_allowed_steps sv a g push_start J, s1)"
    unfolding J_def K_def by (simp add: push_one_steps_def e)
  then have "?run [(s0, s0)] (await (on_db (s_can_write_group (sqlite_store cd) a g))
      (\<lambda>known. J (known, push_start\<lparr>pu_writable := (pu_writable push_start)(g \<mapsto> known)\<rparr>)), s1)"
    by (simp only: group_allowed_steps_def start sv option.case)
  from step [OF this reads(2), THEN along.other, OF between(2)]
  obtain w where "?run [(s0, s0), (s1, s1)] (group_owner_steps sv g (push_start\<lparr>pu_writable := w\<rparr>) K, s2)"
    by (simp add: J_def)
  then have "?run [(s0, s0), (s1, s1)] (await (on_db (s_share_owner (sqlite_store cd) g)) (\<lambda>known. K (known,
      (push_start\<lparr>pu_writable := w\<rparr>)\<lparr>pu_owners := (pu_owners (push_start\<lparr>pu_writable := w\<rparr>))(g \<mapsto> known)\<rparr>)), s2)"
    by (simp only: group_owner_steps_def start sv option.case)
  from step [OF this reads(3), THEN along.other, OF between(3)]
  obtain k where "?run [(s0, s0), (s1, s1), (s2, s2)] (await (on_db (s_put_envelope (sqlite_store cd) x e)) k, s3)"
    by (simp add: K_def put_one_steps_def sv)
  from step [OF this put] show ?thesis by (intro that) simp
qed

text \<open>The demo server with other shares than at the start.\<close>

definition with_shares :: "share_db_row list \<Rightarrow> sqlite_db app" where
  "with_shares ss = shared_app\<lparr>ap_db := \<lparr>tabs = shared_tables\<lparr>shares := ss\<rparr>, sequence = Some 7\<rparr>\<rparr>"

definition group_record :: "string \<Rightarrow> envelope" where
  "group_record g = sample_envelope\<lparr>e_key_ref := GroupKey g, e_group_id := Some g, e_updated_at := 500\<rparr>"

definition new_share_row :: share_db_row where
  "new_share_row = \<lparr>sh_group_id = ''g2'', sh_owner_id = ''u'', sh_user_id = ''v'', sh_wrapped_group_key = ''w2'', sh_created_at = 1000\<rparr>"

lemma ada_shares: "serves demo_server shared_app (with_shares (shares shared_tables @ [new_share_row]))"
proof -
  have call: "caller demo_server ada shared_app = (Inr ''u'', shared_app)"
    using shared_callers(1) sqlite.caller_read [of demo_server "lib_codec sample_lib" ada shared_app]
    by (simp add: prod_eq_iff demo_server_def)
  have "snd (create_share demo_server ada new_share shared_app) = with_shares (shares shared_tables @ [new_share_row])"
    unfolding create_share_def bind_op_eqs(2) [of "caller demo_server ada", OF call]
    by (simp add: bind_op_def ok_or_def ok_op_def on_db_def demo_server_def sqlite_store_def sqlite_account_by_id_def
        sqlite_put_share_def checked_upsert_def upsert_def new_share_def with_shares_def new_share_row_def shared_app_def shared_tables_def
        has_account_def sample_account_def share_key_def ada_def sample_request_def now_ms_def is_i64_def)
  then have "with_shares (shares shared_tables @ [new_share_row]) = snd (handle demo_server ada (CreateShare new_share) shared_app)"
    by (simp add: map_op_def)
  then show ?thesis unfolding serves_def by blast
qed

lemma ada_revokes: "serves demo_server shared_app (with_shares [])"
proof -
  have call: "caller demo_server ada shared_app = (Inr ''u'', shared_app)"
    using shared_callers(1) sqlite.caller_read [of demo_server "lib_codec sample_lib" ada shared_app]
    by (simp add: prod_eq_iff demo_server_def)
  have "snd (remove_share demo_server ada ''g1'' ''v'' shared_app) = with_shares []"
    unfolding remove_share_def bind_op_eqs(2) [of "caller demo_server ada", OF call]
    by (simp add: on_db_def demo_server_def sqlite_store_def sqlite_delete_share_def with_shares_def shared_app_def shared_tables_def)
  then have "with_shares [] = snd (handle demo_server ada (RemoveShare ''g1'' ''v'') shared_app)" by (simp add: map_op_def)
  then show ?thesis unfolding serves_def by blast
qed

lemma files_for_ada:
  assumes "row = pushed_row (lib_codec sample_lib) ''u'' 8 (group_record g)"
    and "s' = (with_shares ss)\<lparr>ap_db := \<lparr>tabs = shared_tables\<lparr>shares := ss, records := [row]\<rparr>, sequence = Some 8\<rparr>\<rparr>"
  shows "on_db (s_put_envelope (sqlite_store (lib_codec sample_lib)) ''u'' (group_record g)) (with_shares ss) = (Inr (Some 8), s')"
proof -
  obtain j where j: "key_ref_to_json (lib_codec sample_lib) (e_key_ref (group_record g)) = Inr j"
    using sample_lib_ok by (auto simp: codec_ok_def)
  then have "row = record_row_of (lib_codec sample_lib) ''u'' 8 j (group_record g)" by (simp add: assms(1) pushed_row_def)
  with j show ?thesis
    by (simp add: assms(2) on_db_def sqlite_store_def sqlite_put_envelope_def checked_upsert_def upsert_def with_shares_def
        shared_app_def shared_tables_def has_account_def sample_account_def i64_max_def record_row_of_def)
qed

lemma demo_push_fits:
  "refuse (group_record g) (now_ms (rn_store bob)) (sv_config demo_server) = None"
  "refuse (group_record g) (now_ms (rn_store carol)) (sv_config demo_server) = None"
  "e_key_ref (group_record g) = GroupKey g" "sv_store demo_server = sqlite_store (lib_codec sample_lib)"
  by (simp_all add: refuse_def clock_is_plausible_def max_clock_skew_ms_def group_record_def sample_envelope_def demo_server_def
      default_config_def bob_def carol_def sample_request_def now_ms_def is_i64_def)

lemma serves_nothing: "serves sv ap ap"
  by (simp add: serves_def)

text \<open>The owner revokes the share between the last answer and the write: the record is still filed under the owner.\<close>

theorem overlapped_push_writes_as_answered_witness:
  "\<exists>own p s s'. along (serves demo_server) (push_steps demo_server bob \<lparr>pq_envelopes = [group_record ''g1'']\<rparr>, shared_app) own (p, s') \<and>
     own ! 3 = (s, s') \<and> \<not> in_group (tabs (ap_db s)) ''v'' ''g1'' \<and>
     (\<exists>r \<in> set (records (tabs (ap_db s'))) - set (records (tabs (ap_db s))). r_account_id r = ''u'') \<and>
     (\<exists>g j k. j < k \<and> k < 3 \<and> group_open (tables_at own j) ''v'' g \<and> group_owner (tables_at own k) g = Some ''u'')"
proof -
  let ?row = "pushed_row (lib_codec sample_lib) ''u'' 8 (group_record ''g1'')"
  define s' where "s' = (with_shares [])\<lparr>ap_db := \<lparr>tabs = shared_tables\<lparr>shares := [], records := [?row]\<rparr>, sequence = Some 8\<rparr>\<rparr>"
  let ?own = "[(shared_app, shared_app), (shared_app, shared_app), (shared_app, shared_app), (with_shares [], s')]"
  have "group_open (tabs (ap_db shared_app)) ''v'' ''g1''" "group_owner (tabs (ap_db shared_app)) ''g1'' = Some ''u''"
    by (simp_all add: group_open_def in_group_def group_owner_def shared_app_def shared_tables_def)
  then obtain p where run: "along (serves demo_server) (push_steps demo_server bob \<lparr>pq_envelopes = [group_record ''g1'']\<rparr>, shared_app) ?own (p, s')"
    by (rule along_one_group_record [where others = "serves demo_server" and ?s0.0 = shared_app, OF demo_push_fits(4,3,1) serves_nothing serves_nothing ada_revokes shared_callers(2) _ _ files_for_ada [OF refl s'_def]])
  have row: "?row \<in> set (records (tabs (ap_db s')))" "?row \<notin> set (records (tabs (ap_db (with_shares []))))"
    by (simp_all add: s'_def with_shares_def shared_app_def shared_tables_def)
  have last: "?own ! 3 = (with_shares [], s')" "3 < length ?own" by simp_all
  note overlapped_push_writes_as_answered [OF run [unfolded demo_server_def] last(2,1)]
  with row have "\<exists>a. fst (caller demo_server bob shared_app) = Inr a \<and> (r_account_id ?row = a \<or>
      (\<exists>g j k. j < k \<and> k < 3 \<and> group_open (tables_at ?own j) a g \<and> group_owner (tables_at ?own k) g = Some (r_account_id ?row)))"
    unfolding demo_server_def [symmetric] by fastforce
  then have "\<exists>g j k. j < k \<and> k < 3 \<and> group_open (tables_at ?own j) ''v'' g \<and> group_owner (tables_at ?own k) g = Some ''u''"
    using shared_callers(2) by simp
  moreover have "\<not> in_group (tabs (ap_db (with_shares []))) ''v'' ''g1''"
    by (simp add: with_shares_def in_group_def shared_app_def shared_tables_def)
  moreover have "\<exists>r \<in> set (records (tabs (ap_db s'))) - set (records (tabs (ap_db (with_shares [])))). r_account_id r = ''u''"
    using row by (intro bexI [of _ ?row]) simp_all
  ultimately show ?thesis using run last(1) by blast
qed

text \<open>C14: a push that overlaps the first sharing of a group files an outsider's record under the owner. Carol is at no
  time in group g2. Pushed before Ada shares the group with Bob, her record is filed under herself; pushed after, it is refused;
  with Ada's request between the question whether Carol may write the group and the question who owns it, the record is filed
  under Ada, and Bob pulls it.\<close>

theorem outsider_writes_into_a_group_shared_meanwhile:
  "\<exists>own p s s' r. along (serves demo_server) (push_steps demo_server carol \<lparr>pq_envelopes = [group_record ''g2'']\<rparr>, shared_app) own (p, s') \<and>
     last own = (s, s') \<and> list_all (\<lambda>z. \<not> in_group (tabs (ap_db (fst z))) ''w'' ''g2'') own \<and>
     push_target (tabs (ap_db shared_app)) ''w'' (group_record ''g2'') = Some ''w'' \<and>
     push_target (tabs (ap_db s)) ''w'' (group_record ''g2'') = None \<and>
     r \<in> set (records (tabs (ap_db s'))) - set (records (tabs (ap_db s))) \<and> r_account_id r = ''u'' \<and>
     visible (tabs (ap_db s')) ''v'' r"
proof -
  let ?row = "pushed_row (lib_codec sample_lib) ''u'' 8 (group_record ''g2'')"
  let ?s = "with_shares (shares shared_tables @ [new_share_row])"
  define s' where "s' = ?s\<lparr>ap_db := \<lparr>tabs = shared_tables\<lparr>shares := shares shared_tables @ [new_share_row], records := [?row]\<rparr>, sequence = Some 8\<rparr>\<rparr>"
  let ?own = "[(shared_app, shared_app), (shared_app, shared_app), (?s, ?s), (?s, s')]"
  have "group_open (tabs (ap_db shared_app)) ''w'' ''g2''" "group_owner (tabs (ap_db ?s)) ''g2'' = Some ''u''"
    by (simp_all add: group_open_def group_shared_def group_owner_def with_shares_def new_share_row_def shared_app_def shared_tables_def)
  then obtain p where "along (serves demo_server) (push_steps demo_server carol \<lparr>pq_envelopes = [group_record ''g2'']\<rparr>, shared_app) ?own (p, s')"
    by (rule along_one_group_record [where others = "serves demo_server" and ?s0.0 = shared_app, OF demo_push_fits(4,3,2) serves_nothing ada_shares serves_nothing shared_callers(3) _ _ files_for_ada [OF refl s'_def]])
  moreover have "list_all (\<lambda>z. \<not> in_group (tabs (ap_db (fst z))) ''w'' ''g2'') ?own"
    by (simp add: in_group_def with_shares_def new_share_row_def shared_app_def shared_tables_def)
  moreover have "push_target (tabs (ap_db shared_app)) ''w'' (group_record ''g2'') = Some ''w''"
    "push_target (tabs (ap_db ?s)) ''w'' (group_record ''g2'') = None"
    by (simp_all add: push_target_def group_record_def group_shared_def in_group_def with_shares_def new_share_row_def shared_app_def shared_tables_def)
  moreover have "?row \<in> set (records (tabs (ap_db s'))) - set (records (tabs (ap_db ?s)))" "visible (tabs (ap_db s')) ''v'' ?row"
    by (simp_all add: s'_def with_shares_def new_share_row_def shared_app_def shared_tables_def visible_def shared_with_def group_record_def)
  ultimately show ?thesis
    by (intro exI [of _ ?own] exI [of _ p] exI [of _ ?s] exI [of _ s'] exI [of _ ?row] conjI) simp_all
qed

end
