(* ===== verification/Interleaving.thy ===== *)
theory Interleaving
  imports Push_Overlap Progress
begin

text \<open>
  The whole server, one store call at a time. Every handler is cut at its store calls; any number of requests are in
  progress and take steps in any order, new ones arrive, a client that goes away leaves its request unfinished, and the server
  may stop and start again at any point. What \<open>System\<close> and \<open>Progress\<close> show of runs in which a request is one step holds
  of these runs.
\<close>

section \<open>The remaining handlers, cut at their store calls\<close>

definition done_result :: "error + 'a \<Rightarrow> ('a \<Rightarrow> ('s, 'b) prog) \<Rightarrow> ('s, 'b) prog" where
  "done_result r k = (case r of Inl e \<Rightarrow> Finished (Inl e) | Inr x \<Rightarrow> k x)"

definition last_step :: "(error, 's, 'a) op \<Rightarrow> ('s, 'a) prog" where
  "last_step m = await m (\<lambda>x. Finished (Inr x))"

definition register_steps :: "'s server \<Rightarrow> request \<Rightarrow> register_request \<Rightarrow> ('s app, session) prog" where
  "register_steps sv rq body =
     await (guard rq) (\<lambda>_.
     if \<not> cf_registration_open (sv_config sv) then Finished (Inl RegistrationClosed)
     else done_result (validate_email (rr_email body)) (\<lambda>_.
     if sb_ciphertext (km_wrapped_personal_key (rr_recovery_material body)) = []
     then Finished (Inl (BadRequest
       ''recovery material is required - without it a forgotten password is unrecoverable''))
     else done_result (hash_auth_key (sv_lib sv) (rn_auth_salt rq) (rr_auth_key body)) (\<lambda>auth_hash.
     done_result (hash_auth_key (sv_lib sv) (rn_recovery_salt rq) (rr_recovery_auth_key body)) (\<lambda>recovery_hash.
     await (on_db (s_create_account (sv_store sv) (rn_store rq) (rn_id rq)
       \<lparr>n_email = rr_email body, n_auth_hash = auth_hash, n_recovery_auth_hash = recovery_hash,
        n_account_public = km_account_public (rr_key_material body),
        n_wrapped_account_secret = encode (km_wrapped_account_secret (rr_key_material body)),
        n_wrapped_personal_key = encode (km_wrapped_personal_key (rr_key_material body)),
        n_recovery_account_secret = encode (km_wrapped_account_secret (rr_recovery_material body)),
        n_recovery_personal_key = encode (km_wrapped_personal_key (rr_recovery_material body))\<rparr>)) (\<lambda>account.
     issue_session_steps sv rq account (rr_device_id body) (rr_device_name body))))))"

definition recover_steps :: "'s server \<Rightarrow> request \<Rightarrow> recover_request \<Rightarrow> ('s app, session) prog" where
  "recover_steps sv rq body =
     await (guard rq) (\<lambda>_.
     await (on_db (s_account_by_email (sv_store sv) (rc_email body))) (\<lambda>account.
     case account of
       None \<Rightarrow> (let _ = verify_auth_key (sv_lib sv) (rc_recovery_auth_key body) (sv_dummy_hash sv) in Finished (Inl BadCredentials))
     | Some account \<Rightarrow>
         if \<not> verify_auth_key (sv_lib sv) (rc_recovery_auth_key body) (a_recovery_auth_hash account) then Finished (Inl BadCredentials)
         else issue_session_steps sv rq
                (account\<lparr>a_wrapped_account_secret := a_recovery_account_secret account,
                         a_wrapped_personal_key := a_recovery_personal_key account\<rparr>)
                (rc_device_id body) (rc_device_name body)))"

definition rewrap_steps :: "'s server \<Rightarrow> request \<Rightarrow> rewrap_request \<Rightarrow> ('s app, unit) prog" where
  "rewrap_steps sv rq body =
     await (caller sv rq) (\<lambda>account_id.
     await (on_db (s_account_by_id (sv_store sv) account_id)) (\<lambda>account.
     done_or NotFound account (\<lambda>account.
     done_result (hash_auth_key (sv_lib sv) (rn_auth_salt rq) (rw_auth_key body)) (\<lambda>auth_hash.
     done_result (hash_auth_key (sv_lib sv) (rn_recovery_salt rq) (rw_recovery_auth_key body)) (\<lambda>recovery_hash.
     await (on_db (s_rewrap_account (sv_store sv) (a_id account)
       \<lparr>n_email = a_email account, n_auth_hash = auth_hash, n_recovery_auth_hash = recovery_hash,
        n_account_public = a_account_public account,
        n_wrapped_account_secret = encode (km_wrapped_account_secret (rw_key_material body)),
        n_wrapped_personal_key = encode (km_wrapped_personal_key (rw_key_material body)),
        n_recovery_account_secret = encode (km_wrapped_account_secret (rw_recovery_material body)),
        n_recovery_personal_key = encode (km_wrapped_personal_key (rw_recovery_material body))\<rparr>)) (\<lambda>_.
     last_step (on_db (s_revoke_account_tokens (sv_store sv) (a_id account)))))))))"

definition logout_steps :: "'s server \<Rightarrow> request \<Rightarrow> ('s app, unit) prog" where
  "logout_steps sv rq =
     await (caller sv rq) (\<lambda>account_id.
     last_step (on_db (s_revoke_account_tokens (sv_store sv) account_id)))"

definition keys_steps :: "'s server \<Rightarrow> request \<Rightarrow> ('s app, key_material) prog" where
  "keys_steps sv rq =
     await (caller sv rq) (\<lambda>account_id.
     await (on_db (s_account_by_id (sv_store sv) account_id)) (\<lambda>account.
     done_or NotFound account (\<lambda>account.
     Finished (Inr (key_material_of account)))))"

definition lookup_steps :: "'s server \<Rightarrow> request \<Rightarrow> string \<Rightarrow> ('s app, user_lookup) prog" where
  "lookup_steps sv rq email =
     await (caller sv rq) (\<lambda>_.
     await (on_db (s_account_by_email (sv_store sv) email)) (\<lambda>account.
     done_or NotFound account (\<lambda>account.
     Finished (Inr \<lparr>ul_user_id = a_id account, ul_email = a_email account,
            ul_account_public = a_account_public account\<rparr>))))"

definition pull_steps :: "'s server \<Rightarrow> request \<Rightarrow> i64 \<Rightarrow> ('s app, pull_response) prog" where
  "pull_steps sv rq cursor =
     await (caller sv rq) (\<lambda>account_id.
     let limit = cf_max_page (sv_config sv)
     in await (on_db (s_pull (sv_store sv) account_id cursor (i64_wrap (limit + 1)))) (\<lambda>envelopes.
        let more = int (length envelopes) > limit;
            page = (if more then take (as_usize limit) envelopes else envelopes);
            next_cursor = (if page = [] then cursor else e_seq (last page))
        in Finished (Inr \<lparr>pr_envelopes = page, pr_cursor = next_cursor, pr_more = more\<rparr>)))"

definition create_share_steps :: "'s server \<Rightarrow> request \<Rightarrow> share_request \<Rightarrow> ('s app, unit) prog" where
  "create_share_steps sv rq body =
     await (caller sv rq) (\<lambda>account_id.
     if sq_user_id body = account_id then Finished (Inl (BadRequest ''that group is already yours''))
     else await (on_db (s_account_by_id (sv_store sv) (sq_user_id body))) (\<lambda>account.
     done_or NotFound account (\<lambda>_.
     last_step (on_db (s_put_share (sv_store sv) (rn_store rq) account_id (sq_group_id body) (sq_user_id body)
       (sq_wrapped_group_key body))))))"

definition mine_steps :: "'s server \<Rightarrow> request \<Rightarrow> ('s app, share list) prog" where
  "mine_steps sv rq =
     await (caller sv rq) (\<lambda>account_id.
     await (on_db (s_shares_for_user (sv_store sv) account_id)) (\<lambda>rows.
     Finished (Inr (map share_of rows))))"

definition list_shares_steps :: "'s server \<Rightarrow> request \<Rightarrow> string \<Rightarrow> ('s app, share list) prog" where
  "list_shares_steps sv rq group_id =
     await (caller sv rq) (\<lambda>account_id.
     await (on_db (s_shares_for_group (sv_store sv) account_id group_id)) (\<lambda>rows.
     Finished (Inr (map share_of rows))))"

definition remove_share_steps :: "'s server \<Rightarrow> request \<Rightarrow> string \<Rightarrow> string \<Rightarrow> ('s app, unit) prog" where
  "remove_share_steps sv rq group_id user_id =
     await (caller sv rq) (\<lambda>account_id.
     last_step (on_db (s_delete_share (sv_store sv) account_id group_id user_id)))"

definition list_devices_steps :: "'s server \<Rightarrow> request \<Rightarrow> ('s app, device list) prog" where
  "list_devices_steps sv rq =
     await (caller sv rq) (\<lambda>account_id.
     await (on_db (s_devices (sv_store sv) account_id)) (\<lambda>devices.
     Finished (Inr (map device_of devices))))"

fun handle_steps :: "'s server \<Rightarrow> request \<Rightarrow> api_call \<Rightarrow> ('s app, reply) prog" where
  "handle_steps sv rq Info = Finished (Inr (R_info (info sv)))"
| "handle_steps sv rq (Register b) = map_prog R_session (register_steps sv rq b)"
| "handle_steps sv rq (Login b) = map_prog R_session (login_steps sv rq b)"
| "handle_steps sv rq (Refresh b) = map_prog R_session (refresh_steps sv rq b)"
| "handle_steps sv rq (Recover b) = map_prog R_session (recover_steps sv rq b)"
| "handle_steps sv rq (Rewrap b) = map_prog (\<lambda>_. R_unit) (rewrap_steps sv rq b)"
| "handle_steps sv rq Logout = map_prog (\<lambda>_. R_unit) (logout_steps sv rq)"
| "handle_steps sv rq Keys = map_prog R_keys (keys_steps sv rq)"
| "handle_steps sv rq (Lookup m) = map_prog R_lookup (lookup_steps sv rq m)"
| "handle_steps sv rq (Pull c) = map_prog R_pull (pull_steps sv rq c)"
| "handle_steps sv rq (Push b) = map_prog R_push (push_steps sv rq b)"
| "handle_steps sv rq MyShares = map_prog R_shares (mine_steps sv rq)"
| "handle_steps sv rq (CreateShare b) = map_prog (\<lambda>_. R_unit) (create_share_steps sv rq b)"
| "handle_steps sv rq (ListShares g) = map_prog R_shares (list_shares_steps sv rq g)"
| "handle_steps sv rq (RemoveShare g u) = map_prog (\<lambda>_. R_unit) (remove_share_steps sv rq g u)"
| "handle_steps sv rq ListDevices = map_prog R_devices (list_devices_steps sv rq)"

section \<open>The steps put together\<close>

lemma run_done_result: "run (done_result r k) = bind_op (lift_result r) (\<lambda>x. run (k x))"
  by (rule ext) (cases r; simp add: done_result_def bind_op_def lift_result_def)

lemma run_last_step: "run (last_step m) = m"
  by (rule ext) (simp add: last_step_def run_await bind_op_def split: prod.split sum.split)

lemma run_if: "run (if b then p else q) = (if b then run p else run q)"
  by simp

lemma run_map_prog: "run (map_prog f p) = map_op f (run p)"
proof (rule ext)
  show "run (map_prog f p) s = map_op f (run p) s" for s
  proof (induction p arbitrary: s)
    case (Finished r)
    then show ?case by (simp add: map_op_def)
  next
    case (Await g)
    obtain q s' where "g s = (q, s')" by (cases "g s")
    moreover from this have "(q, s') \<in> range g" by (metis rangeI)
    ultimately show ?case using Await.IH [of "(q, s')" q s'] by (simp add: map_op_def)
  qed
qed

lemmas run_steps = run_await run_done_or run_done_result run_last_step run_finished run_if run_issue_session

lemma run_handlers:
  "run (register_steps sv rq b1) = register sv rq b1"
  "run (rewrap_steps sv rq b5) = rewrap sv rq b5" "run (logout_steps sv rq) = logout sv rq"
  "run (keys_steps sv rq) = keys sv rq" "run (lookup_steps sv rq m) = lookup sv rq m"
  "run (pull_steps sv rq c) = pull sv rq c" "run (create_share_steps sv rq s) = create_share sv rq s"
  "run (mine_steps sv rq) = mine sv rq" "run (list_shares_steps sv rq g) = list_shares sv rq g"
  "run (remove_share_steps sv rq g u) = remove_share sv rq g u" "run (list_devices_steps sv rq) = list_devices sv rq"
  unfolding register_steps_def rewrap_steps_def logout_steps_def keys_steps_def lookup_steps_def pull_steps_def
    create_share_steps_def mine_steps_def list_shares_steps_def remove_share_steps_def list_devices_steps_def
    register_def rewrap_def logout_def keys_def lookup_def pull_def create_share_def mine_def list_shares_def
    remove_share_def list_devices_def Let_def
  by (simp_all only: run_steps)

lemma run_recover: "run (recover_steps sv rq body) = recover sv rq body"
proof -
  have "run (case v of None \<Rightarrow> Finished (Inl BadCredentials)
      | Some x \<Rightarrow> if \<not> P x then Finished (Inl BadCredentials) else issue_session_steps sv rq (g x) d n) =
    (case v of None \<Rightarrow> err_op BadCredentials
      | Some x \<Rightarrow> if \<not> P x then err_op BadCredentials else issue_session sv rq (g x) d n)" for v :: "account option" and P g d n
    by (cases v) (simp_all add: run_finished run_issue_session del: run.simps)
  then show ?thesis by (simp only: recover_steps_def recover_def run_await Let_def)
qed

lemma run_handle_steps: "run (handle_steps sv rq call) = handle sv rq call"
  by (cases call) (simp_all add: run_map_prog run_handlers run_recover run_login run_refresh run_push run_finished del: run.simps)

section \<open>Steps that respect a relation\<close>

primrec obeys :: "('s \<Rightarrow> 's \<Rightarrow> bool) \<Rightarrow> ('s, 'a) prog \<Rightarrow> bool" where
  "obeys R (Finished r) \<longleftrightarrow> True"
| "obeys R (Await f) \<longleftrightarrow> (\<forall>s. case (map_prod (obeys R) id \<circ> f) s of (ok, s') \<Rightarrow> ok \<and> R s s')"

lemma obeys_Await: "obeys R (Await f) \<longleftrightarrow> (\<forall>s. obeys R (fst (f s)) \<and> R s (snd (f s)))"
  by (simp add: split_beta comp_def)

named_theorems obeys_intros \<open>handlers whose steps all obey a relation, by their structure\<close>

lemma obeys_await [obeys_intros]:
  assumes "keeps P m" "\<And>x. obeys (\<lambda>s s'. P s \<longrightarrow> P s') (k x)"
  shows "obeys (\<lambda>s s'. P s \<longrightarrow> P s') (await m k)"
  using assms(2) keepsD [OF assms(1)] unfolding await_def obeys_Await
  by (auto split: prod.split sum.split) (metis snd_conv)+

lemma obeys_simple [obeys_intros]:
  "obeys R (Finished r)"
  "obeys R p \<Longrightarrow> obeys R q \<Longrightarrow> obeys R (if b then p else q)"
  "(\<And>x. obeys R (h x)) \<Longrightarrow> obeys R (done_or e v h)"
  "(\<And>x. obeys R (k x)) \<Longrightarrow> obeys R (done_result r k)"
  "obeys R p \<Longrightarrow> (\<And>x. obeys R (h x)) \<Longrightarrow> obeys R (case v of None \<Rightarrow> p | Some x \<Rightarrow> h x)"
  "(\<And>a b. obeys R (f a b)) \<Longrightarrow> obeys R (case z of (a, b) \<Rightarrow> f a b)"
  by (simp_all add: done_or_def done_result_def split: option.split sum.split prod.split)

lemma obeys_last_step [obeys_intros]: "keeps P m \<Longrightarrow> obeys (\<lambda>s s'. P s \<longrightarrow> P s') (last_step m)"
  unfolding last_step_def by (intro obeys_intros)

lemma obeys_map_prog: "obeys R p \<Longrightarrow> obeys R (map_prog f p)"
proof (induction p)
  case (Await g)
  have "obeys R (map_prog f (fst (g s)))" "R s (snd (g s))" for s
    using Await.IH [of "g s" "fst (g s)"] Await.prems unfolding obeys_Await by (simp_all add: prod_set_simps fsts.intros)
  then show ?case unfolding prog.map obeys_Await by simp
qed simp

lemma obeys_all: "(\<And>i. obeys (R i) p) \<Longrightarrow> obeys (\<lambda>s s'. \<forall>i. R i s s') p"
proof (induction p)
  case (Await g)
  have "obeys (\<lambda>s s'. \<forall>i. R i s s') (fst (g s))" "R i s (snd (g s))" for s i
    using Await.IH [of "g s" "fst (g s)"] Await.prems unfolding obeys_Await by (simp_all add: prod_set_simps fsts.intros)
  then show ?case unfolding obeys_Await by simp
qed simp

lemma obeys_step: "(\<And>s. R s (snd (m s))) \<Longrightarrow> (\<And>s x. fst (m s) = Inr x \<Longrightarrow> obeys R (k x)) \<Longrightarrow> obeys R (await m k)"
  unfolding await_def obeys_Await by (auto split: prod.split sum.split) (metis fst_conv snd_conv)+

text \<open>The walk of a push over its envelopes makes three store calls.\<close>

lemma push_loop_obeys:
  assumes "\<And>x e s. R s (snd (on_db (s_put_envelope (sv_store sv) x e) s))"
    and "\<And>g s. R s (snd (on_db (s_can_write_group (sv_store sv) a g) s))"
    and "\<And>g s. R s (snd (on_db (s_share_owner (sv_store sv) g) s))"
    and "\<And>ps. obeys R (k ps)"
  shows "obeys R (push_loop_steps sv a now es ps k)"
proof -
  have put: "obeys R (put_one_steps sv x e ps h)" if "\<And>y. obeys R (h y)" for x e ps h
    unfolding put_one_steps_def using assms(1) that by (intro obeys_step) (auto split: option.split)
  have allowed: "obeys R (group_allowed_steps sv a g ps h)" if "\<And>y. obeys R (h y)" for g ps h
    unfolding group_allowed_steps_def using assms(2) that by (auto intro!: obeys_step split: option.split)
  have owner: "obeys R (group_owner_steps sv g ps h)" if "\<And>y. obeys R (h y)" for g ps h
    unfolding group_owner_steps_def using assms(3) that by (auto intro!: obeys_step split: option.split)
  have one: "obeys R (push_one_steps sv a now e ps h)" if "\<And>y. obeys R (h y)" for e ps h
    unfolding push_one_steps_def by (auto intro!: allowed owner put that split: option.split key_ref.split)
  show ?thesis using assms(4) by (induction es arbitrary: ps) (simp_all add: one)
qed

section \<open>Every handler keeps, step by step, what its store calls keep\<close>

text \<open>A predicate on the database and one on the limiter.\<close>

definition both :: "('s \<Rightarrow> bool) \<Rightarrow> (rate_limit \<Rightarrow> bool) \<Rightarrow> 's app \<Rightarrow> bool" where
  "both P L ap \<longleftrightarrow> P (ap_db ap) \<and> L (ap_limit ap)"

definition limiter_keeps :: "(rate_limit \<Rightarrow> bool) \<Rightarrow> bool" where
  "limiter_keeps L \<longleftrightarrow> (\<forall>rl now ip. L rl \<longrightarrow> L (snd (check now ip rl)))"

definition kept :: "('s \<Rightarrow> bool) \<Rightarrow> (rate_limit \<Rightarrow> bool) \<Rightarrow> 's app \<Rightarrow> 's app \<Rightarrow> bool" where
  "kept P L ap ap' \<longleftrightarrow> (both P L ap \<longrightarrow> both P L ap')"

lemma kept_eq: "kept P L = (\<lambda>ap ap'. both P L ap \<longrightarrow> both P L ap')"
  by (intro ext) (simp add: kept_def)

lemma keeps_both_on_db [keeps_intros]: "keeps P f \<Longrightarrow> keeps (both P L) (on_db f)"
  by (simp add: keeps_def both_def)

lemma keeps_both_guard: "limiter_keeps L \<Longrightarrow> keeps (both P L) (guard rq)"
  by (simp add: keeps_def both_def guard_limit limiter_keeps_def)

lemma keeps_both_caller: "store_keeps P (sv_store sv) \<Longrightarrow> keeps (both P L) (caller sv rq)"
  unfolding caller_def by (intro keeps_intros) assumption

locale kept_by_store =
  fixes sv :: "'s server" and P :: "'s \<Rightarrow> bool" and L :: "rate_limit \<Rightarrow> bool"
  assumes st: "store_keeps P (sv_store sv)" and lim: "limiter_keeps L"
begin

lemmas step_rules = obeys_intros keeps_both_on_db keeps_both_guard [OF lim] keeps_both_caller [OF st] store_keepsD [OF st]

lemma obeys_issue_session: "obeys (kept P L) (issue_session_steps sv rq a d n)"
  unfolding kept_eq issue_session_steps_def Let_def split_beta by (intro step_rules)

lemma obeys_account_handlers:
  "obeys (kept P L) (register_steps sv rq b1)" "obeys (kept P L) (login_steps sv rq b2)"
  "obeys (kept P L) (refresh_steps sv rq b3)" "obeys (kept P L) (recover_steps sv rq b4)"
  "obeys (kept P L) (rewrap_steps sv rq b5)" "obeys (kept P L) (logout_steps sv rq)"
  "obeys (kept P L) (keys_steps sv rq)" "obeys (kept P L) (lookup_steps sv rq m)"
  unfolding kept_eq register_steps_def login_steps_def refresh_steps_def recover_steps_def rewrap_steps_def logout_steps_def
    keys_steps_def lookup_steps_def Let_def
  by (intro step_rules obeys_issue_session [unfolded kept_eq])+

lemma kept_on_db: "keeps P m \<Longrightarrow> kept P L s (snd (on_db m s))"
  using keeps_both_on_db [of P m L] by (simp add: kept_def keeps_def)

lemma obeys_push_loop:
  "(\<And>ps. obeys (kept P L) (k ps)) \<Longrightarrow> obeys (kept P L) (push_loop_steps sv a now es ps k)"
  by (rule push_loop_obeys) (intro kept_on_db store_keepsD [OF st])+

lemma obeys_push: "obeys (kept P L) (push_steps sv rq b)"
proof -
  have "obeys (kept P L) (await (on_db (s_max_seq (sv_store sv) a)) (\<lambda>cursor.
      Finished (Inr \<lparr>ps_accepted = pu_accepted ps, ps_rejected = pu_rejected ps, ps_cursor = cursor\<rparr>)))" for a ps
    unfolding kept_eq by (intro step_rules)
  then show ?thesis
    unfolding kept_eq push_steps_def by (intro step_rules obeys_push_loop [unfolded kept_eq])
qed

lemma obeys_share_handlers:
  "obeys (kept P L) (pull_steps sv rq c)" "obeys (kept P L) (mine_steps sv rq)"
  "obeys (kept P L) (create_share_steps sv rq b)" "obeys (kept P L) (list_shares_steps sv rq g)"
  "obeys (kept P L) (remove_share_steps sv rq g u)" "obeys (kept P L) (list_devices_steps sv rq)"
  unfolding kept_eq pull_steps_def mine_steps_def create_share_steps_def list_shares_steps_def remove_share_steps_def
    list_devices_steps_def Let_def
  by (intro step_rules)+

lemma obeys_handle: "obeys (kept P L) (handle_steps sv rq call)"
  by (cases call) (simp_all add: obeys_map_prog obeys_account_handlers obeys_push obeys_share_handlers)

end

section \<open>Requests in progress\<close>

inductive interleaved ::
  "'s server \<Rightarrow> ('s app, reply) prog list \<times> 's app \<Rightarrow> ('s app, reply) prog list \<times> 's app \<Rightarrow> bool" for sv c where
  now: "interleaved sv c c"
| arrives: "interleaved sv c (ps, ap) \<Longrightarrow> interleaved sv c (ps @ [handle_steps sv rq call], ap)"
| advances: "interleaved sv c (ps, ap) \<Longrightarrow> i < length ps \<Longrightarrow> ps ! i = Await f \<Longrightarrow> f ap = (p, ap') \<Longrightarrow>
    interleaved sv c (ps[i := p], ap')"
| dropped: "interleaved sv c (ps, ap) \<Longrightarrow> interleaved sv c (take i ps @ drop (Suc i) ps, ap)"
| restarts: "interleaved sv c (ps, ap) \<Longrightarrow> boot sv (ap_db ap) = Inr ap' \<Longrightarrow> interleaved sv c ([], ap')"

lemma interleaved_obeys:
  assumes "interleaved sv c c'" "reflp R" "transp R" "\<And>rq call. obeys R (handle_steps sv rq call)"
    and "\<And>ap ap'. boot sv (ap_db ap) = Inr ap' \<Longrightarrow> R ap ap'" "list_all (obeys R) (fst c)"
  shows "R (snd c) (snd c') \<and> list_all (obeys R) (fst c')"
  using assms(1,6)
proof (induction rule: interleaved.induct)
  case now
  then show ?case using assms(2) by (simp add: reflpD)
next
  case (arrives ps ap rq call)
  then show ?case using assms(4) by simp
next
  case (advances ps ap i f p ap')
  then have "obeys R (Await f)" by (metis fst_conv list_all_length)
  with advances(4) have "obeys R p" "R ap ap'" unfolding obeys_Await by (metis fst_conv snd_conv)+
  with advances assms(3) show ?case
    by (auto simp: list_all_length nth_list_update elim: transpE)
next
  case (dropped ps ap i)
  then show ?case by (auto simp: list_all_iff dest: in_set_takeD in_set_dropD)
next
  case (restarts ps ap ap')
  with assms(3,5) show ?case by (auto elim: transpE)
qed

text \<open>Requests served one after the other are one interleaving.\<close>

lemma interleaved_run:
  "interleaved sv c (ps @ [p], ap) \<Longrightarrow> interleaved sv c (ps @ [Finished (fst (run p ap))], snd (run p ap))"
proof (induction p arbitrary: ap)
  case (Finished r)
  then show ?case by simp
next
  case (Await f)
  obtain q ap' where q: "f ap = (q, ap')" by (cases "f ap")
  from interleaved.advances [of sv c "ps @ [Await f]" ap "length ps" f q ap'] Await.prems q have "interleaved sv c (ps @ [q], ap')" by simp
  moreover have "(q, ap') \<in> range f" using q by (metis rangeI)
  ultimately show ?case using Await.IH [of "(q, ap')" q ap'] q by simp
qed

lemma reach_interleaved: "reach sv ap ap' \<Longrightarrow> \<exists>ps. interleaved sv ([], ap) (ps, ap')"
proof (induction rule: reach.induct)
  case (start ap)
  show ?case by (rule exI) (rule interleaved.now)
next
  case (request ap ap1 rq call ap2)
  then obtain ps where "interleaved sv ([], ap) (ps, ap1)" by blast
  from interleaved_run [OF interleaved.arrives [OF this, of rq call]] request.hyps(2) show ?case
    unfolding run_handle_steps by blast
qed

section \<open>What holds of every interleaving\<close>

lemma limiter_keeps_ok: "limiter_keeps limit_ok" "limiter_keeps (\<lambda>_. True)"
  by (simp_all add: limiter_keeps_def limit_ok_check)

interpretation sqlite_steps: kept_by_store "sqlite_server cf lib dummy" "sqlite_inv (lib_codec lib)" limit_ok
  by unfold_locales (simp_all add: sqlite_store_keeps_inv limiter_keeps_ok)

interpretation sqlite_history: kept_by_store "sqlite_server cf lib dummy" "advanced_from (lib_codec lib) db0" "\<lambda>_. True"
  by unfold_locales (simp_all add: sqlite_store_advances limiter_keeps_ok)

sublocale collation \<subseteq> pg_steps: kept_by_store "pg_server coll_gt cf lib dummy" "pg_inv (lib_codec lib)" limit_ok for cf lib dummy
  by unfold_locales (simp_all add: pg_store_keeps_inv limiter_keeps_ok)

context collation
begin

lemma pg_obeys_handle: "obeys (kept (pg_inv (lib_codec lib)) limit_ok) (handle_steps (pg_server coll_gt cf lib dummy) rq call)"
  by (rule pg_steps.obeys_handle)

end

lemma kept_preorder: "reflp (kept P L)" "transp (kept P L)"
  by (auto simp: kept_def reflp_def transp_def)

lemma boot_kept:
  "boot (sqlite_server cf lib dummy) (ap_db ap) = Inr ap' \<Longrightarrow> kept (sqlite_inv (lib_codec lib)) limit_ok ap ap'"
  "boot (sqlite_server cf lib dummy) (ap_db ap) = Inr ap' \<Longrightarrow> kept (advanced_from (lib_codec lib) db0) (\<lambda>_. True) ap ap'"
  "boot (pg_server coll_gt cf lib dummy) (ap_db bp) = Inr bp' \<Longrightarrow> kept (pg_inv (lib_codec lib)) limit_ok bp bp'"
  by (auto simp: kept_def both_def advanced_from_def boot_def sqlite_store_def pg_store_def migrate_again auth_limit_ok)

lemma runs_alone:
  "interleaved sv ([handle_steps sv rq call], ap) ([Finished (fst (handle sv rq call ap))], snd (handle sv rq call ap))"
  by (rule interleaved_run [of sv "([handle_steps sv rq call], ap)" "[]" "handle_steps sv rq call" ap,
        unfolded append_Nil run_handle_steps, OF interleaved.now])

text \<open>A request that waits while another runs to its end.\<close>

lemma one_waits:
  "interleaved sv ([], ap) ([handle_steps sv rq call, Finished (fst (handle sv rq' call' ap))], snd (handle sv rq' call' ap))"
  using interleaved_run [of sv "([], ap)" "[handle_steps sv rq call]" "handle_steps sv rq' call'" ap]
    interleaved.arrives [OF interleaved.arrives [OF interleaved.now, of sv "[]" ap rq call], of rq' call']
  by (simp add: run_handle_steps)

text \<open>C29: every state of every interleaving is well formed. However many requests an SQLite instance has in progress, in
  whatever order their store calls are made, whichever of them are abandoned half way, and wherever the server is
  stopped and started, the tables keep their unique keys and foreign keys, sequence numbers stay positive, distinct and at most the
  counter, every stored record decodes, and the limiter holds at most ten instants per address. Runs in which a request is one
  step are a special case.\<close>

theorem interleaved_instance_stays_well_formed:
  assumes "codec_ok (lib_codec lib)" "lower_ok (lib_codec lib)"
    and "boot (sqlite_server cf lib dummy) fresh_sqlite = Inr ap0"
  shows "(interleaved (sqlite_server cf lib dummy) ([], ap0) (ps, ap) \<longrightarrow>
      tables_ok (tabs (ap_db ap)) (sqlite_counter (ap_db ap)) \<and>
      (\<forall>r \<in> set (records (tabs (ap_db ap))). \<exists>e. envelope_from_row (lib_codec lib) r = Inr e) \<and> limit_ok (ap_limit ap)) \<and>
    (reach (sqlite_server cf lib dummy) ap0 ap1 \<longrightarrow> (\<exists>qs. interleaved (sqlite_server cf lib dummy) ([], ap0) (qs, ap1)))"
proof (intro conjI impI)
  assume run: "interleaved (sqlite_server cf lib dummy) ([], ap0) (ps, ap)"
  have "both (sqlite_inv (lib_codec lib)) limit_ok ap0"
    using boot_sqlite [OF assms(1,2), of cf dummy] assms(3) by (auto simp: both_def auth_limit_ok)
  with interleaved_obeys [OF run kept_preorder sqlite_steps.obeys_handle boot_kept(1)]
  have "both (sqlite_inv (lib_codec lib)) limit_ok ap" by (simp add: kept_def)
  then show "tables_ok (tabs (ap_db ap)) (sqlite_counter (ap_db ap))"
    "\<forall>r \<in> set (records (tabs (ap_db ap))). \<exists>e. envelope_from_row (lib_codec lib) r = Inr e" "limit_ok (ap_limit ap)"
    unfolding both_def using sqlite.inv_tables sqlite.inv_decode by blast+
qed (rule reach_interleaved)

theorem interleaved_instance_stays_well_formed_witness:
  "\<exists>ap0 ap. boot sample_server fresh_sqlite = Inr ap0 \<and>
     interleaved sample_server ([], ap0) ([handle_steps sample_server sample_request2 (Login sample_login),
       Finished (fst (handle sample_server sample_request (Register sample_register) ap0))], ap) \<and>
     tables_ok (tabs (ap_db ap)) (sqlite_counter (ap_db ap))"
proof -
  obtain ap0 where b: "boot sample_server fresh_sqlite = Inr ap0"
    using boot_sqlite [OF sample_lib_ok(1,2)] unfolding sample_server_def by blast
  show ?thesis
    using interleaved_instance_stays_well_formed [OF sample_lib_ok(1,2) b [unfolded sample_server_def]] b one_waits
    unfolding sample_server_def by blast
qed

text \<open>C30: the same on Postgres, under any collation that is a strict linear order.\<close>

theorem interleaved_postgres_stays_well_formed:
  assumes "collation coll_gt" "codec_ok (lib_codec lib)" "boot (pg_server coll_gt cf lib dummy) fresh_pg = Inr ap0"
    and "interleaved (pg_server coll_gt cf lib dummy) ([], ap0) (ps, ap)"
  shows "tables_ok (pg_tabs (ap_db ap)) (pg_counter (ap_db ap)) \<and>
    (\<forall>r \<in> set (records (pg_tabs (ap_db ap))). \<exists>e. envelope_from_row (lib_codec lib) r = Inr e) \<and> limit_ok (ap_limit ap)"
proof -
  have "both (pg_inv (lib_codec lib)) limit_ok ap0"
    using boot_pg [OF assms(2), of coll_gt cf dummy] assms(3) by (auto simp: both_def auth_limit_ok)
  with interleaved_obeys [OF assms(4) kept_preorder collation.pg_obeys_handle [OF assms(1)] boot_kept(3)]
  have "both (pg_inv (lib_codec lib)) limit_ok ap" by (simp add: kept_def)
  then show ?thesis by (simp add: both_def pg_inv_def rows_decode_def)
qed

theorem interleaved_postgres_stays_well_formed_witness:
  "\<exists>sv ap0 ap. sv = pg_server c_collation open_config sample_lib ''$dummy'' \<and> boot sv fresh_pg = Inr ap0 \<and>
     interleaved sv ([], ap0) ([handle_steps sv sample_request2 (Login sample_login),
       Finished (fst (handle sv sample_request (Register sample_register) ap0))], ap) \<and>
     tables_ok (pg_tabs (ap_db ap)) (pg_counter (ap_db ap))"
proof -
  obtain ap0 where b: "boot (pg_server c_collation open_config sample_lib ''$dummy'') fresh_pg = Inr ap0"
    using boot_pg [OF sample_lib_ok(1)] by blast
  note run = one_waits [of "pg_server c_collation open_config sample_lib ''$dummy''" ap0 sample_request2 "Login sample_login"
      sample_request "Register sample_register"]
  show ?thesis
    using interleaved_postgres_stays_well_formed [OF c_collation.collation_axioms sample_lib_ok(1) b run]
    by (intro exI conjI) (rule refl, rule b, rule run, rule conjunct1)
qed

text \<open>C3: no update is lost and no record vanishes, however requests interleave. Between any two moments of one run of an SQLite
  instance, with any requests in progress at both, the sequence counter does not go back; each record of the earlier moment is
  in the later state, as it was or replaced by a version with a later clock, or the same clock and a greater
  device; and each row that is new or rewritten carries a number above the earlier counter, so a device that
  had read up to the counter is shown it.\<close>

theorem interleaved_history_only_grows:
  assumes "sqlite_inv (lib_codec lib) (ap_db ap0)" "interleaved (sqlite_server cf lib dummy) ([], ap0) (ps, ap)"
    and "interleaved (sqlite_server cf lib dummy) (ps, ap) (ps', ap')"
  shows "sqlite_counter (ap_db ap) \<le> sqlite_counter (ap_db ap') \<and>
    (\<forall>r \<in> set (records (tabs (ap_db ap))). \<exists>r' \<in> set (records (tabs (ap_db ap'))).
      record_key r' = record_key r \<and> (r' = r \<or> r_updated_at r < r_updated_at r' \<or>
        r_updated_at r = r_updated_at r' \<and> r_device_id r < r_device_id r')) \<and>
    (\<forall>r \<in> set (records (tabs (ap_db ap'))) - set (records (tabs (ap_db ap))). sqlite_counter (ap_db ap) < r_seq r)"
proof -
  let ?R = "\<lambda>ap ap'. \<forall>db0. kept (advanced_from (lib_codec lib) db0) (\<lambda>_. True) ap ap'"
  have pre: "reflp ?R" "transp ?R" by (auto simp: kept_def reflp_def transp_def)
  have steps: "obeys ?R (handle_steps (sqlite_server cf lib dummy) rq call)" for rq call
    by (rule obeys_all) (rule sqlite_history.obeys_handle)
  have boot: "?R ap ap'" if "boot (sqlite_server cf lib dummy) (ap_db ap) = Inr ap'" for ap ap'
    using boot_kept(2) [OF that] by blast
  from interleaved_obeys [OF assms(2) pre steps boot]
  have past: "?R ap0 ap" "list_all (obeys ?R) ps" by simp_all
  have inv: "sqlite_inv (lib_codec lib) (ap_db ap)"
    using past(1) [rule_format, of "ap_db ap0"] assms(1) by (simp add: kept_def both_def advanced_from_def advances_refl)
  have "?R ap ap'" using interleaved_obeys [OF assms(3) pre steps boot] past(2) by simp
  then have "Progress.advances (ap_db ap) (ap_db ap')"
    using inv by (auto simp: kept_def both_def advanced_from_def advances_refl dest: spec [of _ "ap_db ap"])
  then show ?thesis unfolding advances_def sqlite_newer_def by fastforce
qed

theorem interleaved_history_only_grows_witness:
  "\<exists>ps' ap' r'. interleaved demo_server ([handle_steps demo_server bob (Push bob_push)], logged_app) (ps', ap') \<and>
     ap' = snd (handle demo_server bob (Push bob_push) logged_app) \<and> sqlite_counter (ap_db logged_app) \<le> sqlite_counter (ap_db ap') \<and>
     r' \<in> set (records (tabs (ap_db ap'))) \<and> record_key r' = (''u'', ''host'', ''h2'')"
proof -
  let ?ap = "snd (handle demo_server bob (Push bob_push) logged_app)"
  let ?r = "pushed_row (lib_codec sample_lib) ''u'' 3 (sample_envelope\<lparr>e_id := ''h2''\<rparr>)"
  have past: "interleaved demo_server ([], logged_app) ([handle_steps demo_server bob (Push bob_push)], logged_app)"
    using interleaved.arrives [OF interleaved.now, of demo_server "[]" logged_app bob "Push bob_push"] by simp
  note future = runs_alone [of demo_server bob "Push bob_push" logged_app]
  from interleaved_history_only_grows [OF logged_app_inv past [unfolded demo_server_def] future [unfolded demo_server_def]]
  have "sqlite_counter (ap_db logged_app) \<le> sqlite_counter (ap_db ?ap)"
    "\<forall>r \<in> set (records (tabs (ap_db logged_app))). \<exists>r' \<in> set (records (tabs (ap_db ?ap))). record_key r' = record_key r"
    unfolding demo_server_def by blast+
  moreover have "?r \<in> set (records (tabs (ap_db logged_app)))" by (simp add: logged_app_def)
  moreover have "record_key ?r = (''u'', ''host'', ''h2'')" by (simp add: pushed_row_def sample_envelope_def)
  ultimately show ?thesis using future by metis
qed

end
