(* ===== verification/Session_Overlap.thy ===== *)
theory Session_Overlap
  imports Handler_Steps Routes_Sync
begin

text \<open>
  A sign-in among other requests (\<^verbatim>\<open>login\<close> and \<^verbatim>\<open>rewrap\<close> in \<^verbatim>\<open>server/src/routes/auth.rs\<close>). Between the row a login reads
  and the tokens it writes anything may happen: it still issues tokens only for an account it verified, but
  it may do so after that account's password was changed and its sessions were ended.
\<close>

section \<open>What a login writes\<close>

definition verified_for ::
  "platform \<Rightarrow> login_request \<Rightarrow> (sqlite_db app \<times> sqlite_db app) list \<Rightarrow> string \<Rightarrow> bool" where
  "verified_for lib body own a \<longleftrightarrow> (\<exists>j < length own. \<exists>r \<in> set (accounts (tabs (ap_db (fst (own ! j))))).
     nocase_eq (ar_email r) (email_norm (lib_codec lib) (lr_email body)) \<and>
     verify_auth_key lib (lr_auth_key body) (ar_auth_hash r) \<and> ar_id r = a)"

definition issues_as_verified ::
  "platform \<Rightarrow> request \<Rightarrow> login_request \<Rightarrow> (sqlite_db app \<times> sqlite_db app) list \<Rightarrow> sqlite_db app \<Rightarrow> sqlite_db app \<Rightarrow> bool" where
  "issues_as_verified lib rq body own s s' \<longleftrightarrow>
     tabs (ap_db s') = (tabs (ap_db s))\<lparr>tokens := tokens (tabs (ap_db s')), devices := devices (tabs (ap_db s'))\<rparr> \<and>
     rows_added t_hash (\<lambda>t. t_hash t \<in> {snd (mint_token lib (rn_access rq)), snd (mint_token lib (rn_refresh rq))} \<and>
         ((\<exists>k \<in> set (tokens (tabs (ap_db s))). t = k\<lparr>t_expires_at := t_expires_at t\<rparr>) \<or>
          verified_for lib body own (t_account_id t)))
       (tokens (tabs (ap_db s))) (tokens (tabs (ap_db s'))) \<and>
     rows_added device_key (\<lambda>d. d_device_id d = lr_device_id body \<and> d_device_id d \<noteq> [] \<and> d_name d = lr_device_name body \<and>
         verified_for lib body own (d_account_id d))
       (devices (tabs (ap_db s))) (devices (tabs (ap_db s')))"

lemma verified_for_more: "verified_for lib body own a \<Longrightarrow> verified_for lib body (own @ zs) a"
  unfolding verified_for_def by (elim exE conjE, rule_tac x = j in exI) (simp add: nth_append)

lemma same_tables_issue: "tabs (ap_db s') = tabs (ap_db s) \<Longrightarrow> issues_as_verified lib rq body own s s'"
  by (simp add: issues_as_verified_def)

lemma sqlite_put_token_tabs:
  "tabs (snd (sqlite_put_token h a k x db)) = tabs db \<or>
   tabs (snd (sqlite_put_token h a k x db)) = (tabs db)\<lparr>tokens := fst (upsert t_hash token_on_conflict
     \<lparr>t_hash = h, t_account_id = a, t_kind = k, t_expires_at = x\<rparr> (tokens (tabs db)))\<rparr>"
  by (simp add: sqlite_put_token_def checked_upsert_def split: prod.split)

lemma put_token_issues:
  assumes "verified_for lib body own a" "h \<in> {snd (mint_token lib (rn_access rq)), snd (mint_token lib (rn_refresh rq))}"
  shows "issues_as_verified lib rq body own s (snd (on_db (s_put_token (sqlite_store cd) h a k x) s))"
proof -
  from sqlite_put_token_tabs [of h a k x "ap_db s"] show ?thesis
  proof
    assume "tabs (snd (sqlite_put_token h a k x (ap_db s))) = tabs (ap_db s)"
    then show ?thesis by (intro same_tables_issue) (simp add: sqlite_store_def)
  next
    let ?new = "\<lparr>t_hash = h, t_account_id = a, t_kind = k, t_expires_at = x\<rparr>" and ?ts = "tokens (tabs (ap_db s))"
    assume t: "tabs (snd (sqlite_put_token h a k x (ap_db s))) =
      (tabs (ap_db s))\<lparr>tokens := fst (upsert t_hash token_on_conflict ?new ?ts)\<rparr>"
    have "t_hash r = h \<and> ((\<exists>k \<in> set ?ts. r = k\<lparr>t_expires_at := t_expires_at r\<rparr>) \<or> t_account_id r = a)" if "snd (upsert t_hash token_on_conflict ?new ?ts) = Some r" for r
      using that by (auto simp: upsert_returns token_on_conflict_def split: option.splits dest!: row_at_Some)
    with assms have "rows_added t_hash (\<lambda>t. t_hash t \<in> {snd (mint_token lib (rn_access rq)), snd (mint_token lib (rn_refresh rq))} \<and>
        ((\<exists>k \<in> set ?ts. t = k\<lparr>t_expires_at := t_expires_at t\<rparr>) \<or> verified_for lib body own (t_account_id t))) ?ts (fst (upsert t_hash token_on_conflict ?new ?ts))"
      by (intro token_table.upsert_adds) metis
    moreover have "ap_db (snd (on_db (s_put_token (sqlite_store cd) h a k x) s)) = snd (sqlite_put_token h a k x (ap_db s))"
      by (simp add: sqlite_store_def)
    ultimately show ?thesis unfolding issues_as_verified_def by (simp add: t)
  qed
qed

lemma touch_device_issues:
  assumes "verified_for lib body own a" "lr_device_id body \<noteq> []"
  shows "issues_as_verified lib rq body own s
    (snd (on_db (s_touch_device (sqlite_store cd) now a (lr_device_id body) (lr_device_name body)) s))"
proof -
  let ?new = "\<lparr>d_account_id = a, d_device_id = lr_device_id body, d_name = lr_device_name body, d_last_seen = now_ms now\<rparr>"
    and ?ds = "devices (tabs (ap_db s))"
  have "device_key r = device_key ?new \<and> d_name r = lr_device_name body"
    if "snd (upsert device_key device_on_conflict ?new ?ds) = Some r" for r
    using that device_table.returned_key [OF that]
    by (auto simp: upsert_returns device_on_conflict_def split: option.splits)
  with assms have "rows_added device_key (\<lambda>d. d_device_id d = lr_device_id body \<and> d_device_id d \<noteq> [] \<and> d_name d = lr_device_name body \<and>
      verified_for lib body own (d_account_id d)) ?ds (fst (upsert device_key device_on_conflict ?new ?ds))"
    by (intro device_table.upsert_adds) (simp add: device_key_def)
  then show ?thesis
    by (simp add: issues_as_verified_def sqlite_store_def sqlite_touch_device_def checked_upsert_def split_beta)
qed

lemma issue_session_promises:
  assumes "verified_for lib body own (a_id acc)"
  shows "promises (issues_as_verified lib rq body)
    (issue_session_steps (sqlite_server cf lib dummy) rq acc (lr_device_id body) (lr_device_name body)) own"
  unfolding issue_session_steps_def Let_def split_beta server_simps
  by (auto simp: promises_await intro!: put_token_issues touch_device_issues verified_for_more assms simp del: on_db_simps)

lemma login_promises:
  "promises (issues_as_verified lib rq body) (login_steps (sqlite_server cf lib dummy) rq body) []"
proof -
  let ?q = "s_account_by_email (sqlite_store (lib_codec lib)) (lr_email body)"
  have guard: "issues_as_verified lib rq body own s (snd (guard rq s))" for own s
    by (rule same_tables_issue) simp
  have read: "issues_as_verified lib rq body own s (snd (on_db ?q s))" for own s
    by (rule same_tables_issue) (simp add: sqlite_store_def sqlite_account_by_email_def)
  have found: "verified_for lib body (own @ [(s, s')]) (a_id acc)"
    if "fst (on_db ?q s) = Inr (Some acc)" "verify_auth_key lib (lr_auth_key body) (a_auth_hash acc)" for own s s' acc
  proof -
    from that(1) obtain r where "find (\<lambda>r. nocase_eq (ar_email r) (email_norm (lib_codec lib) (lr_email body))) (accounts (tabs (ap_db s))) = Some r"
      "acc = account_from_row r"
      by (auto simp: sqlite_store_def sqlite_account_by_email_def)
    then have "r \<in> set (accounts (tabs (ap_db s)))" "nocase_eq (ar_email r) (email_norm (lib_codec lib) (lr_email body))"
      "a_id acc = ar_id r" "a_auth_hash acc = ar_auth_hash r"
      by (auto simp: find_Some_iff account_from_row_def)
    with that(2) show ?thesis
      unfolding verified_for_def by (intro exI [of _ "length own"]) auto
  qed
  show ?thesis
    unfolding login_steps_def Let_def server_simps
    by (auto simp: promises_await guard read simp del: on_db_simps split: option.split
        intro!: issue_session_promises found [of _ _ "[_]", simplified])
qed

text \<open>C16: a sign-in among other requests issues only what it verified. Whatever happens to the database between
  the steps of a login, each step of its own leaves accounts, records and shares as they were. Of the tokens and the devices it
  removes none. A token row it adds has one of the two hashes the request minted; its account is one that an earlier step
  of the login found under the address it was given, with a stored hash that the presented key verifies (had the table held the
  hash before, the row would only get a new expiry). A device row it adds or renews has the id and the name the
  request gave, for an account verified in the same way.\<close>

theorem overlapped_login_issues_as_verified:
  assumes "along others (login_steps (sqlite_server cf lib dummy) rq body, ap) own (p, ap')"
    and "i < length own" "own ! i = (s, s')"
    and "verified = {a. \<exists>j < i. \<exists>r \<in> set (accounts (tabs (ap_db (fst (own ! j))))).
          nocase_eq (ar_email r) (email_norm (lib_codec lib) (lr_email body)) \<and>
          verify_auth_key lib (lr_auth_key body) (ar_auth_hash r) \<and> ar_id r = a}"
    and "minted = {snd (mint_token lib (rn_access rq)), snd (mint_token lib (rn_refresh rq))}"
  shows "tabs (ap_db s') = (tabs (ap_db s))\<lparr>tokens := tokens (tabs (ap_db s')), devices := devices (tabs (ap_db s'))\<rparr> \<and>
    rows_added t_hash (\<lambda>t. t_hash t \<in> minted \<and> ((\<exists>k \<in> set (tokens (tabs (ap_db s))). t = k\<lparr>t_expires_at := t_expires_at t\<rparr>) \<or>
         t_account_id t \<in> verified))
      (tokens (tabs (ap_db s))) (tokens (tabs (ap_db s'))) \<and>
    rows_added device_key (\<lambda>d. d_device_id d = lr_device_id body \<and> d_device_id d \<noteq> [] \<and> d_name d = lr_device_name body \<and>
        d_account_id d \<in> verified)
      (devices (tabs (ap_db s))) (devices (tabs (ap_db s')))"
proof -
  have "promises (issues_as_verified lib rq body) (fst (login_steps (sqlite_server cf lib dummy) rq body, ap)) []"
    by (simp add: login_promises)
  with along_promises [OF assms(1)] assms(2,3) have w: "issues_as_verified lib rq body (take i own) s s'" by force
  have "length (take i own) = i" using assms(2) by simp
  then have "verified_for lib body (take i own) a \<longleftrightarrow> a \<in> verified" for a
    unfolding verified_for_def assms(4) mem_Collect_eq by (intro iff_exI) auto
  with w show ?thesis unfolding issues_as_verified_def assms(5) by simp
qed

section \<open>A password change during a login\<close>

definition signed_out :: "tables \<Rightarrow> string \<Rightarrow> bool" where
  "signed_out t a \<longleftrightarrow> list_all (\<lambda>k. t_account_id k \<noteq> a) (tokens t)"

lemma login_in_flight:
  fixes sv :: "sqlite_db server"
  assumes "sv_store sv = sqlite_store (lib_codec (sv_lib sv))" "sqlite_inv (lib_codec (sv_lib sv)) (ap_db ap)" "admitted rq ap"
    and "row_at ar_email (email_norm (lib_codec (sv_lib sv)) (lr_email body)) (accounts (tabs (ap_db ap))) = Some r"
    and "verify_auth_key (sv_lib sv) (lr_auth_key body) (ar_auth_hash r)"
  shows "along others (login_steps sv rq body, ap) [(ap, snd (guard rq ap)), (snd (guard rq ap), snd (guard rq ap))]
    (issue_session_steps sv rq (account_from_row r) (lr_device_id body) (lr_device_name body), snd (guard rq ap))"
proof -
  let ?g = "snd (guard rq ap)"
  have "guard rq ap = (Inr (), ?g)" using assms(3) by (simp add: prod_eq_iff)
  note one = along_await [OF along.begins [of others "(login_steps sv rq body, ap)", unfolded login_steps_def Let_def] this]
  have "on_db (s_account_by_email (sv_store sv) (lr_email body)) ?g = (Inr (Some (account_from_row r)), ?g)"
    using sqlite.on_db_account_by_email [of "lib_codec (sv_lib sv)" ?g] assms(1,2,4) by simp
  from along_await [OF one this] show ?thesis
    using assms(5) unfolding login_steps_def Let_def by (simp add: account_from_row_def)
qed

text \<open>C17: a change of password misses a sign-in in flight. A login with the old key has looked its account
  up; then the owner changes the password, and the answer to the change is a success that leaves the account without a token and
  with a hash the old key does not verify. The login then runs to its end: it answers with a session, and the
  access token of that session is the account's in every request that presents it within its time. The sessions
  opened with the old password do not all end with it.\<close>

theorem password_change_misses_a_login_in_flight:
  assumes "sqlite_inv (lib_codec lib) (ap_db ap)" "admitted rq ap" "fresh_tokens (sqlite_server cf lib dummy) rq (tabs (ap_db ap))"
    and "row_at ar_email (email_norm (lib_codec lib) (lr_email body)) (accounts (tabs (ap_db ap))) = Some r"
    and "verify_auth_key lib (lr_auth_key body) (ar_auth_hash r)"
    and "fst (caller (sqlite_server cf lib dummy) owner ap) = Inr (ar_id r)"
    and "hash_auth_key lib (rn_auth_salt owner) (rw_auth_key change) = Inr ah"
    and "hash_auth_key lib (rn_recovery_salt owner) (rw_recovery_auth_key change) = Inr rh"
    and "\<not> verify_auth_key lib (lr_auth_key body) ah"
  shows "\<exists>own rest between changed s ap'.
    along (\<lambda>x y. y = snd (rewrap (sqlite_server cf lib dummy) owner change x))
      (login_steps (sqlite_server cf lib dummy) rq body, ap) own (rest, changed) \<and>
    rewrap (sqlite_server cf lib dummy) owner change between = (Inr (), changed) \<and>
    signed_out (tabs (ap_db changed)) (ar_id r) \<and>
    (\<forall>rq'. fst (login (sqlite_server cf lib dummy) rq' body changed) \<in> {Inl BadCredentials, Inl RateLimited}) \<and>
    run rest changed = (Inr s, ap') \<and> ss_account_id s = ar_id r \<and> ss_access_token s = fst (mint_token lib (rn_access rq)) \<and>
    (\<forall>rq' h. bearer lib rq' = Some h \<longrightarrow> trim h = ss_access_token s \<longrightarrow>
       now_ms (rn_caller rq') < i64_wrap (now_ms (rn_issue rq) + i64_wrap (cf_access_ttl_secs cf * 1000)) \<longrightarrow>
       fst (caller (sqlite_server cf lib dummy) rq' ap') = Inr (ar_id r))"
proof -
  let ?sv = "sqlite_server cf lib dummy" and ?g = "snd (guard rq ap)"
  let ?rest = "issue_session_steps ?sv rq (account_from_row r) (lr_device_id body) (lr_device_name body)"
  have sv: "sv_store ?sv = sqlite_store (lib_codec lib)" by simp
  have id: "a_id (account_from_row r) = ar_id r" by (simp add: account_from_row_def)
  have c: "fst (caller ?sv owner ?g) = Inr (ar_id r)" using assms(1,6) by (simp add: sqlite.caller_iff [OF sv])
  obtain q changed where q: "row_at ar_id (ar_id r) (accounts (tabs (ap_db ?g))) = Some q"
    "rewrap ?sv owner change ?g = (Inr (), changed)" "sqlite_inv (lib_codec lib) (ap_db changed)"
    "tabs (ap_db changed) = (tabs (ap_db ?g))\<lparr>
       accounts := map (\<lambda>x. if ar_id x = ar_id r then rewrap_row (rewrapped (account_from_row q) change ah rh) x else x) (accounts (tabs (ap_db ?g))),
       tokens := filter (\<lambda>t. t_account_id t \<noteq> ar_id r) (tokens (tabs (ap_db ?g)))\<rparr>"
    by (rule sqlite.rewrap_ok [OF sv _ c]) (use assms(1,7,8) in auto)
  have out: "signed_out (tabs (ap_db changed)) (ar_id r)" by (simp add: q(4) signed_out_def list_all_iff)
  have bad: "fst (login ?sv rq' body changed) \<in> {Inl BadCredentials, Inl RateLimited}" for rq'
    using assms(4,9) sqlite.row_at_map_rewrap
    by (cases "admitted rq' changed")
      (simp_all add: login_def bind_guard bind_op_eqs sqlite.on_db_account_by_email q(3,4) account_from_row_def rewrap_row_def rewrapped_def err_op_def)
  have acc: "has_account (tabs (ap_db changed)) (a_id (account_from_row r))"
    using row_at_Some [OF assms(4)] by (auto simp: q(4) has_account_def id list_ex_iff rewrap_row_def)
  obtain ap' where ap': "issue_session ?sv rq (account_from_row r) (lr_device_id body) (lr_device_name body) changed =
      (Inr (session_for ?sv rq (account_from_row r)), ap')" "sqlite_inv (lib_codec lib) (ap_db ap')"
    "tokens (tabs (ap_db ap')) = put_rows [access_row ?sv rq (ar_id r), refresh_row ?sv rq (ar_id r)] (tokens (tabs (ap_db changed)))"
    by (rule sqlite.issue_session_ok [OF sv q(3) acc, unfolded id])
  have fresh: "fresh_tokens ?sv rq (tabs (ap_db changed))" using assms(3) by (auto simp: fresh_tokens_def q(4))
  have session: "fst (caller ?sv rq' ap') = Inr (ar_id r)"
    if "bearer lib rq' = Some h" "trim h = ss_access_token (session_for ?sv rq (account_from_row r))"
      "now_ms (rn_caller rq') < i64_wrap (now_ms (rn_issue rq) + i64_wrap (cf_access_ttl_secs cf * 1000))" for rq' h
    using sqlite.session_caller(1) [OF sv ap'(2) fresh ap'(3)] that by (simp add: session_for_def access_row_def)
  have "along (\<lambda>x y. y = snd (rewrap ?sv owner change x)) (login_steps ?sv rq body, ap) [(ap, ?g), (?g, ?g)] (?rest, changed)"
    using along.other [OF login_in_flight [of ?sv ap rq body r]] assms(1-5) q(2) by simp
  moreover have "run ?rest changed = (Inr (session_for ?sv rq (account_from_row r)), ap')"
    by (simp add: run_issue_session ap'(1))
  moreover have "ss_account_id (session_for ?sv rq (account_from_row r)) = ar_id r"
    "ss_access_token (session_for ?sv rq (account_from_row r)) = fst (mint_token lib (rn_access rq))"
    by (simp_all add: session_for_def id)
  ultimately show ?thesis using q(2) out bad session by blast
qed

definition sample_change :: rewrap_request where
  "sample_change = sample_rewrap\<lparr>rw_auth_key := ''n''\<rparr>"

lemma sample_login_verifies:
  "verify_auth_key sample_lib (lr_auth_key sample_login) (ar_auth_hash sample_row)"
  "\<not> verify_auth_key sample_lib (lr_auth_key sample_login) ''$n''"
  by (simp_all add: verify_auth_key_def sample_login_def sample_row_def account_row_of_def registered_def
      sample_lib_def sample_platform_def del: as_bytes_simps)

theorem password_change_misses_a_login_in_flight_witness:
  "\<exists>ap own rest changed s ap'.
    along (\<lambda>x y. y = snd (rewrap sample_server sample_request3 sample_change x))
      (login_steps sample_server sample_request2 sample_login, ap) own (rest, changed) \<and>
    signed_out (tabs (ap_db changed)) ''u'' \<and> run rest changed = (Inr s, ap') \<and> ss_access_token s = ''b'' \<and>
    fst (caller sample_server sample_request2 ap') = Inr ''u''"
proof -
  obtain ap where reg: "register sample_server sample_request sample_register sample_app =
      (Inr (session_for sample_server sample_request (account_from_row sample_row)), ap)"
    and lim: "ap_limit ap = ap_limit (snd (guard sample_request sample_app))" and inv: "sqlite_inv (lib_codec sample_lib) (ap_db ap)"
    and accs: "accounts (tabs (ap_db ap)) = [sample_row]"
    and toks: "tokens (tabs (ap_db ap)) = put_rows [access_row sample_server sample_request ''u'', refresh_row sample_server sample_request ''u''] []"
    by (rule sample_registration)
  have at: "row_at ar_email (email_norm (lib_codec sample_lib) (lr_email sample_login)) (accounts (tabs (ap_db ap))) = Some sample_row"
    and id: "ar_id sample_row = ''u''"
    using sample_spelling by (simp_all add: accs sample_row_def account_row_of_def sample_register_def)
  have h: "hash_auth_key sample_lib (rn_auth_salt sample_request3) (rw_auth_key sample_change) = Inr ''$n''"
    "hash_auth_key sample_lib (rn_recovery_salt sample_request3) (rw_recovery_auth_key sample_change) = Inr ''$c2''"
    by (simp_all add: sample_hashes sample_change_def sample_rewrap_def)
  note c = sample_caller [OF inv toks]
  note fresh = sample_fresh2 [OF trans [OF toks sample_tokens]]
  obtain own rest between changed s ap' where run:
    "along (\<lambda>x y. y = snd (rewrap sample_server sample_request3 sample_change x))
       (login_steps sample_server sample_request2 sample_login, ap) own (rest, changed)"
    "signed_out (tabs (ap_db changed)) ''u''" "run rest changed = (Inr s, ap')" "ss_access_token s = fst (mint_token sample_lib (rn_access sample_request2))"
    and auth: "\<forall>rq' h. bearer sample_lib rq' = Some h \<longrightarrow> trim h = ss_access_token s \<longrightarrow>
       now_ms (rn_caller rq') < i64_wrap (now_ms (rn_issue sample_request2) + i64_wrap (cf_access_ttl_secs open_config * 1000)) \<longrightarrow>
       fst (caller sample_server rq' ap') = Inr ''u''"
    using password_change_misses_a_login_in_flight [OF inv sample_admitted_again [OF lim] fresh [unfolded sample_server_def] at
        sample_login_verifies(1) _ h sample_login_verifies(2)] c id
    unfolding sample_server_def by metis
  have b: "ss_access_token s = ''b''" by (simp add: run(4) sample_request2_def sample_mint del: as_bytes_simps)
  have "fst (caller sample_server sample_request2 ap') = Inr ''u''"
    using auth sample_bearer b
    by (simp add: sample_request2_def sample_request_def now_ms_def is_i64_def open_config_def default_config_def)
  with run b show ?thesis by blast
qed

theorem overlapped_login_issues_as_verified_witness:
  "\<exists>ap own rest ap' k. along (\<lambda>x y. False) (login_steps sample_server sample_request2 sample_login, ap) own (rest, ap') \<and>
     length own = 3 \<and> k \<in> set (tokens (tabs (ap_db ap'))) \<and> t_hash k = ''Zb'' \<and>
     (\<exists>j < 2. \<exists>r \<in> set (accounts (tabs (ap_db (fst (own ! j))))).
        verify_auth_key sample_lib ''k'' (ar_auth_hash r) \<and> ar_id r = t_account_id k)"
proof -
  obtain ap where reg: "register sample_server sample_request sample_register sample_app =
      (Inr (session_for sample_server sample_request (account_from_row sample_row)), ap)"
    and lim: "ap_limit ap = ap_limit (snd (guard sample_request sample_app))" and inv: "sqlite_inv (lib_codec sample_lib) (ap_db ap)"
    and accs: "accounts (tabs (ap_db ap)) = [sample_row]"
    and toks: "tokens (tabs (ap_db ap)) = put_rows [access_row sample_server sample_request ''u'', refresh_row sample_server sample_request ''u''] []"
    by (rule sample_registration)
  let ?sv = "sample_server" and ?g = "snd (guard sample_request2 ap)"
  have sv: "sv_store ?sv = sqlite_store (lib_codec (sv_lib ?sv))" "sv_lib ?sv = sample_lib" by (simp_all add: sample_server_def)
  have at: "row_at ar_email (email_norm (lib_codec sample_lib) (lr_email sample_login)) (accounts (tabs (ap_db ap))) = Some sample_row"
    and id: "a_id (account_from_row sample_row) = ''u''"
    using sample_spelling by (simp_all add: accs sample_row_def account_row_of_def sample_register_def account_from_row_def)
  have flight: "along (\<lambda>x y. False) (login_steps ?sv sample_request2 sample_login, ap) [(ap, ?g), (?g, ?g)]
      (issue_session_steps ?sv sample_request2 (account_from_row sample_row) [] [], ?g)"
    using login_in_flight [OF sv(1), of ap sample_request2 sample_login sample_row] inv sample_admitted_again [OF lim] at sample_login_verifies(1)
    by (simp add: sv(2) sample_login_def)
  let ?x = "t_expires_at (access_row ?sv sample_request2 ''u'')"
  have acc: "has_account (tabs (ap_db ?g)) ''u''"
    by (simp add: accs has_account_def sample_row_def account_row_of_def)
  obtain ap1 where put: "on_db (s_put_token (sqlite_store (lib_codec sample_lib)) ''Zb'' ''u'' ACCESS ?x) ?g = (Inr (), ap1)"
    "tabs (ap_db ap1) = (tabs (ap_db ?g))\<lparr>tokens := put_rows [\<lparr>t_hash = ''Zb'', t_account_id = ''u'', t_kind = ACCESS, t_expires_at = ?x\<rparr>]
       (tokens (tabs (ap_db ?g)))\<rparr>"
    using sqlite.put_token_step [OF _ acc, of "lib_codec sample_lib" ACCESS "''Zb''" ?x] inv by (metis guard_simps(2) insertCI)
  have "snd (mint_token sample_lib (rn_access sample_request2)) = ''Zb''"
    by (simp add: sample_request2_def sample_mint del: as_bytes_simps)
  then have "\<exists>f. issue_session_steps ?sv sample_request2 (account_from_row sample_row) [] [] =
      await (on_db (s_put_token (sqlite_store (lib_codec sample_lib)) ''Zb'' ''u'' ACCESS ?x)) f"
    using id sv by (simp add: issue_session_steps_def Let_def split_beta access_row_def) (rule exI, rule refl)
  then obtain f where "issue_session_steps ?sv sample_request2 (account_from_row sample_row) [] [] =
      await (on_db (s_put_token (sqlite_store (lib_codec sample_lib)) ''Zb'' ''u'' ACCESS ?x)) f" by blast
  from along_await [OF flight [unfolded this] put(1)]
  have run: "along (\<lambda>x y. False) (login_steps ?sv sample_request2 sample_login, ap) [(ap, ?g), (?g, ?g), (?g, ap1)] (f (), ap1)" by simp
  let ?k = "\<lparr>t_hash = ''Zb'', t_account_id = ''u'', t_kind = ACCESS, t_expires_at = ?x\<rparr>"
  have old: "''Zb'' \<notin> t_hash ` set (tokens (tabs (ap_db ap)))"
    unfolding toks sample_tokens
    by (simp add: access_row_def refresh_row_def sample_server_def sample_request_def sample_mint del: as_bytes_simps)
  then have "row_at t_hash ''Zb'' (tokens (tabs (ap_db ap))) = None" by (simp only: row_at_None not_False_eq_True)
  then have k: "?k \<in> set (tokens (tabs (ap_db ap1)))" by (simp add: put(2) put_rows_def upsert_def)
  define verified where "verified = {a. \<exists>j < 2. \<exists>r \<in> set (accounts (tabs (ap_db (fst ([(ap, ?g), (?g, ?g), (?g, ap1)] ! j))))).
      nocase_eq (ar_email r) (email_norm (lib_codec sample_lib) (lr_email sample_login)) \<and>
      verify_auth_key sample_lib (lr_auth_key sample_login) (ar_auth_hash r) \<and> ar_id r = a}"
  have "rows_added t_hash (\<lambda>t. t_hash t \<in> {snd (mint_token sample_lib (rn_access sample_request2)), snd (mint_token sample_lib (rn_refresh sample_request2))} \<and>
      ((\<exists>k \<in> set (tokens (tabs (ap_db ?g))). t = k\<lparr>t_expires_at := t_expires_at t\<rparr>) \<or> t_account_id t \<in> verified)) (tokens (tabs (ap_db ?g))) (tokens (tabs (ap_db ap1)))"
    using overlapped_login_issues_as_verified [OF run [unfolded sample_server_def] _ _ verified_def refl] by simp
  then have "?k \<in> set (tokens (tabs (ap_db ?g))) \<or> (\<exists>k \<in> set (tokens (tabs (ap_db ?g))). ?k = k\<lparr>t_expires_at := t_expires_at ?k\<rparr>) \<or>
      t_account_id ?k \<in> verified"
    using k unfolding rows_added_def by blast
  moreover have no: "''Zb'' \<noteq> t_hash k" if "k \<in> set (tokens (tabs (ap_db ?g)))" for k
    using old that by (metis guard_simps(2) imageI)
  then have "?k \<noteq> k\<lparr>t_expires_at := x\<rparr>" if "k \<in> set (tokens (tabs (ap_db ?g)))" for k x
    using no [OF that] by (cases k) auto
  moreover have "?k \<notin> set (tokens (tabs (ap_db ?g)))" using no [of ?k] by auto
  ultimately have "t_account_id ?k \<in> verified" by blast
  then have "\<exists>j < 2. \<exists>r \<in> set (accounts (tabs (ap_db (fst ([(ap, ?g), (?g, ?g), (?g, ap1)] ! j))))).
      nocase_eq (ar_email r) (email_norm (lib_codec sample_lib) (lr_email sample_login)) \<and>
      verify_auth_key sample_lib (lr_auth_key sample_login) (ar_auth_hash r) \<and> ar_id r = t_account_id ?k"
    by (simp add: verified_def)
  then show ?thesis using run k
    by (intro exI [of _ ap] exI [of _ "[(ap, ?g), (?g, ?g), (?g, ap1)]"] exI [of _ "f ()"] exI [of _ ap1] exI [of _ ?k])
      (auto simp: sample_login_def)
qed

end
