(* ===== verification/Answers.thy ===== *)
theory Answers
  imports System
begin

text \<open>
  Which error every request is answered with. \<open>first_error\<close> is the specification: the checks of each
  route in the order the source makes them, over the tables alone. The handlers answer with exactly that error, and
  with none other: on a well-formed instance no request fails inside the server.
\<close>

section \<open>The checks of each route\<close>

definition failure :: "'e + 'a \<Rightarrow> 'e option" where
  "failure r = (case r of Inl e \<Rightarrow> Some e | Inr _ \<Rightarrow> None)"

lemma failure_simps [simp]:
  "failure (Inl e) = Some e"
  "failure (Inr x) = None"
  "failure (map_sum id f r) = failure r"
  by (simp_all add: failure_def map_sum_def split: sum.split)

definition caller_id :: "platform \<Rightarrow> request \<Rightarrow> tables \<Rightarrow> string option" where
  "caller_id lib rq t =
     (case bearer lib rq of
        None \<Rightarrow> None
      | Some h \<Rightarrow> map_option t_account_id (find (live_token (rn_caller rq) (hash_token lib (trim h)) ACCESS) (tokens t)))"

definition session_error :: "platform \<Rightarrow> request \<Rightarrow> tables \<Rightarrow> (string \<Rightarrow> error option) \<Rightarrow> error option" where
  "session_error lib rq t checks = (case caller_id lib rq t of None \<Rightarrow> Some Unauthorised | Some a \<Rightarrow> checks a)"

definition register_error :: "platform \<Rightarrow> config \<Rightarrow> request \<Rightarrow> register_request \<Rightarrow> tables \<Rightarrow> error option" where
  "register_error lib cf rq b t =
     (if \<not> cf_registration_open cf then Some RegistrationClosed
      else case validate_email (rr_email b) of
        Inl e \<Rightarrow> Some e
      | Inr _ \<Rightarrow>
          if sb_ciphertext (km_wrapped_personal_key (rr_recovery_material b)) = []
          then Some (BadRequest ''recovery material is required - without it a forgotten password is unrecoverable'')
          else if list_ex (\<lambda>r. ar_id r = hex_encode (lib_codec lib) (rn_id rq) \<or>
                 ar_email r = email_norm (lib_codec lib) (rr_email b)) (accounts t)
          then Some EmailTaken
          else None)"

definition secret_error :: "platform \<Rightarrow> string \<Rightarrow> string \<Rightarrow> (account_row \<Rightarrow> string) \<Rightarrow> tables \<Rightarrow> error option" where
  "secret_error lib email secret hash_column t =
     (case row_at ar_email (email_norm (lib_codec lib) email) (accounts t) of
        None \<Rightarrow> Some BadCredentials
      | Some r \<Rightarrow> if verify_auth_key lib secret (hash_column r) then None else Some BadCredentials)"

fun first_error :: "platform \<Rightarrow> config \<Rightarrow> request \<Rightarrow> bool \<Rightarrow> api_call \<Rightarrow> tables \<Rightarrow> error option" where
  "first_error lib cf rq in_time Info t = None"
| "first_error lib cf rq in_time (Register b) t =
     (if \<not> in_time then Some RateLimited else register_error lib cf rq b t)"
| "first_error lib cf rq in_time (Login b) t =
     (if \<not> in_time then Some RateLimited else secret_error lib (lr_email b) (lr_auth_key b) ar_auth_hash t)"
| "first_error lib cf rq in_time (Recover b) t =
     (if \<not> in_time then Some RateLimited else secret_error lib (rc_email b) (rc_recovery_auth_key b) ar_recovery_auth_hash t)"
| "first_error lib cf rq in_time (Refresh b) t =
     (if find (live_token (rn_store rq) (hash_token lib (rf_refresh_token b)) REFRESH) (tokens t) = None
      then Some Unauthorised else None)"
| "first_error lib cf rq in_time (Lookup m) t =
     session_error lib rq t (\<lambda>a.
       if row_at ar_email (email_norm (lib_codec lib) m) (accounts t) = None then Some NotFound else None)"
| "first_error lib cf rq in_time (CreateShare b) t =
     session_error lib rq t (\<lambda>a.
       if sq_user_id b = a then Some (BadRequest ''that group is already yours'')
       else if \<not> has_account t (sq_user_id b) then Some NotFound else None)"
| "first_error lib cf rq in_time call t = session_error lib rq t (\<lambda>a. None)"

text \<open>Room for a push: no sequence number it draws is past the last \<open>i64\<close>.\<close>

fun batch_length :: "api_call \<Rightarrow> nat" where
  "batch_length (Push b) = length (pq_envelopes b)"
| "batch_length _ = 0"

section \<open>The handlers make these checks\<close>

lemma hash_auth_key_ok:
  assumes "hashing_ok lib" "length salt = 16"
  obtains h where "hash_auth_key lib salt k = Inr h"
proof -
  from assms obtain s h where "lib_salt_encode lib salt = Inr s" "lib_hash_password lib (as_bytes k) s = Inr h"
    unfolding hashing_ok_def by blast
  then show ?thesis by (intro that [of h]) (simp add: hash_auth_key_def)
qed

context store_contract
begin

lemma caller_id_eq:
  assumes "sv_store sv = st"
  shows "caller sv rq ap = (case caller_id (sv_lib sv) rq (tab (ap_db ap)) of None \<Rightarrow> Inl Unauthorised | Some a \<Rightarrow> Inr a, ap)"
  by (simp add: caller_eq [OF assms] caller_id_def split: option.split)

lemma session_failure:
  assumes "sv_store sv = st"
    and "\<And>a. caller_id (sv_lib sv) rq (tab (ap_db ap)) = Some a \<Longrightarrow> failure (fst (g a ap)) = checks a"
  shows "failure (fst (bind_op (caller sv rq) g ap)) = session_error (sv_lib sv) rq (tab (ap_db ap)) checks"
  using assms(2)
  by (cases "caller_id (sv_lib sv) rq (tab (ap_db ap))")
    (simp_all add: bind_op_def caller_id_eq [OF assms(1)] session_error_def)

lemma session_failure_ok:
  assumes "sv_store sv = st"
    and "\<And>a. fst (caller sv rq ap) = Inr a \<Longrightarrow> \<exists>x. fst (m ap) = Inr x"
    and "fst (caller sv rq ap) = Inl Unauthorised \<Longrightarrow> fst (m ap) = Inl Unauthorised"
  shows "failure (fst (m ap)) = session_error (sv_lib sv) rq (tab (ap_db ap)) (\<lambda>a. None)"
  using assms(2,3)
  by (cases "caller_id (sv_lib sv) rq (tab (ap_db ap))")
    (auto simp: caller_id_eq [OF assms(1)] session_error_def)

lemma issue_session_failure:
  assumes "sv_store sv = st" "inv (ap_db ap)" "has_account (tab (ap_db ap)) (a_id acc)"
  shows "failure (fst (issue_session sv rq acc d nm ap)) = None"
  by (rule issue_session_ok [OF assms, of rq d nm]) simp

lemma login_failure:
  assumes "sv_store sv = st" "inv (ap_db ap)"
  shows "failure (fst (login sv rq b ap)) = (if \<not> admitted rq ap then Some RateLimited
    else case row_at ar_email (email_norm cd (lr_email b)) (accounts (tab (ap_db ap))) of None \<Rightarrow> Some BadCredentials
      | Some r \<Rightarrow> if verify_auth_key (sv_lib sv) (lr_auth_key b) (ar_auth_hash r) then None else Some BadCredentials)"
proof (cases "admitted rq ap")
  case False
  then show ?thesis by (simp add: login_def bind_guard)
next
  case True
  show ?thesis
  proof (cases "row_at ar_email (email_norm cd (lr_email b)) (accounts (tab (ap_db ap)))")
    case None
    with login_unknown [OF assms True] True show ?thesis by simp
  next
    case (Some r)
    show ?thesis
    proof (cases "verify_auth_key (sv_lib sv) (lr_auth_key b) (ar_auth_hash r)")
      case v: True
      obtain ap' where "login sv rq b ap = (Inr (session_for sv rq (account_from_row r)), ap')"
        by (rule login_ok [OF assms True Some v])
      with True Some v show ?thesis by simp
    next
      case v: False
      with login_wrong [OF assms True Some v] True Some show ?thesis by simp
    qed
  qed
qed

lemma recover_failure:
  assumes "sv_store sv = st" "inv (ap_db ap)"
  shows "failure (fst (recover sv rq b ap)) = (if \<not> admitted rq ap then Some RateLimited
    else case row_at ar_email (email_norm cd (rc_email b)) (accounts (tab (ap_db ap))) of None \<Rightarrow> Some BadCredentials
      | Some r \<Rightarrow> if verify_auth_key (sv_lib sv) (rc_recovery_auth_key b) (ar_recovery_auth_hash r) then None else Some BadCredentials)"
proof (cases "admitted rq ap")
  case False
  then show ?thesis by (simp add: recover_def bind_guard)
next
  case True
  have "failure (fst (issue_session sv rq ((account_from_row r)\<lparr>a_wrapped_account_secret := x, a_wrapped_personal_key := y\<rparr>)
      d nm (snd (guard rq ap)))) = None"
    if "row_at ar_email m (accounts (tab (ap_db ap))) = Some r" for r m x y d nm
    using row_has_account [OF that] assms(2)
    by (intro issue_session_failure [OF assms(1)]) (simp_all add: account_from_row_def)
  with True show ?thesis by (simp add: recover_cases [OF assms True] split: option.split)
qed

lemma refresh_failure:
  assumes "sv_store sv = st" "inv (ap_db ap)"
  shows "failure (fst (refresh sv rq b ap)) =
    (if find (live_token (rn_store rq) (hash_token (sv_lib sv) (rf_refresh_token b)) REFRESH) (tokens (tab (ap_db ap))) = None
     then Some Unauthorised else None)"
proof (cases "\<exists>a. session_token (tab (ap_db ap)) (rn_store rq) (hash_token (sv_lib sv) (rf_refresh_token b)) REFRESH a")
  case True
  then obtain a where live: "session_token (tab (ap_db ap)) (rn_store rq) (hash_token (sv_lib sv) (rf_refresh_token b)) REFRESH a"
    by blast
  obtain r ap1 where "refresh sv rq b ap = (Inr (session_for sv rq (account_from_row r)), ap1)"
    by (rule refresh_ok [OF assms live])
  with live show ?thesis by (auto simp: find_live_None)
next
  case False
  then show ?thesis using refresh_unauthorised [OF assms(1), of ap rq b] by (simp add: find_live_None)
qed

lemma register_failure:
  assumes sv: "sv_store sv = st" and inv: "inv (ap_db ap)" and hash: "hashing_ok (sv_lib sv)"
    and salts: "length (rn_auth_salt rq) = 16" "length (rn_recovery_salt rq) = 16"
    and lib: "lib_codec (sv_lib sv) = cd"
  shows "failure (fst (register sv rq b ap)) =
    (if \<not> admitted rq ap then Some RateLimited else register_error (sv_lib sv) (sv_config sv) rq b (tab (ap_db ap)))"
proof -
  obtain ah where ah: "hash_auth_key (sv_lib sv) (rn_auth_salt rq) (rr_auth_key b) = Inr ah"
    by (rule hash_auth_key_ok [OF hash salts(1)])
  obtain rh where rh: "hash_auth_key (sv_lib sv) (rn_recovery_salt rq) (rr_recovery_auth_key b) = Inr rh"
    by (rule hash_auth_key_ok [OF hash salts(2)])
  let ?checks = "admitted rq ap \<and> cf_registration_open (sv_config sv) \<and> validate_email (rr_email b) = Inr () \<and>
    sb_ciphertext (km_wrapped_personal_key (rr_recovery_material b)) \<noteq> []"
  let ?taken = "list_ex (\<lambda>r. ar_id r = hex_encode cd (rn_id rq) \<or> ar_email r = email_norm cd (rr_email b)) (accounts (tab (ap_db ap)))"
  consider (refused) "\<not> ?checks" | (taken) ?checks ?taken | (free) ?checks "\<not> ?taken" by blast
  then show ?thesis
  proof cases
    case refused
    then show ?thesis
      by (cases "validate_email (rr_email b)") (auto simp: register_def bind_guard register_error_def err_op_def)
  next
    case taken
    let ?m = "on_db (s_create_account st (rn_store rq) (rn_id rq) (registered b ah rh))"
    have "?m (snd (guard rq ap)) = (Inl EmailTaken, snd (guard rq ap))"
      using create_account_taken [OF inv, of "rn_id rq" "registered b ah rh" "rn_store rq"] taken(2)
      by (simp add: on_db_def registered_def)
    then have "fst (register sv rq b ap) = Inl EmailTaken"
      using taken(1) ah rh by (simp add: register_def sv bind_guard registered_def bind_op_eqs(1))
    with taken show ?thesis by (simp add: register_error_def lib)
  next
    case free
    obtain ap' row where "register sv rq b ap = (Inr (session_for sv rq (account_from_row row)), ap')"
      using register_ok [OF sv inv _ _ _ _ ah rh free(2) refl] free(1) by metis
    with free show ?thesis by (simp add: register_error_def lib)
  qed
qed

lemma lookup_failure:
  assumes "sv_store sv = st" "inv (ap_db ap)"
  shows "failure (fst (lookup sv rq m ap)) = session_error (sv_lib sv) rq (tab (ap_db ap)) (\<lambda>a.
    if row_at ar_email (email_norm cd m) (accounts (tab (ap_db ap))) = None then Some NotFound else None)"
  unfolding lookup_def
  by (rule session_failure [OF assms(1)])
    (simp add: assms(1) bind_op_eqs on_db_account_by_email [OF assms(2)] ok_or_def ok_op_def err_op_def split: option.split)

lemma create_share_failure:
  assumes sv: "sv_store sv = st" and inv: "inv (ap_db ap)"
  shows "failure (fst (create_share sv rq b ap)) = session_error (sv_lib sv) rq (tab (ap_db ap)) (\<lambda>a.
    if sq_user_id b = a then Some (BadRequest ''that group is already yours'')
    else if \<not> has_account (tab (ap_db ap)) (sq_user_id b) then Some NotFound else None)"
  unfolding create_share_def
proof (rule session_failure [OF sv])
  fix a
  assume a: "caller_id (sv_lib sv) rq (tab (ap_db ap)) = Some a"
  have "has_account (tab (ap_db ap)) a"
    using caller_account [OF sv inv, of rq a] a by (simp add: caller_id_eq [OF sv])
  from put_share [OF inv this, of "sq_user_id b"]
  have "has_account (tab (ap_db ap)) (sq_user_id b) \<Longrightarrow> fst (s_put_share st now a g (sq_user_id b) w (ap_db ap)) = Inr ()" for now g w
    by simp
  moreover have "row_at ar_id (sq_user_id b) (accounts (tab (ap_db ap))) = None \<longleftrightarrow> \<not> has_account (tab (ap_db ap)) (sq_user_id b)"
    by (simp add: row_at_None has_account_def)
  ultimately show "failure (fst ((if sq_user_id b = a then err_op (BadRequest ''that group is already yours'')
      else bind_op (on_db (s_account_by_id (sv_store sv) (sq_user_id b))) (\<lambda>account.
      bind_op (ok_or NotFound account) (\<lambda>_.
      on_db (s_put_share (sv_store sv) (rn_store rq) a (sq_group_id b) (sq_user_id b) (sq_wrapped_group_key b))))) ap)) =
    (if sq_user_id b = a then Some (BadRequest ''that group is already yours'')
     else if \<not> has_account (tab (ap_db ap)) (sq_user_id b) then Some NotFound else None)"
    by (cases "row_at ar_id (sq_user_id b) (accounts (tab (ap_db ap)))")
      (auto simp: sv bind_op_eqs on_db_account_by_id err_op_def)
qed

lemma signed_in_failures:
  assumes sv: "sv_store sv = st" and inv: "inv (ap_db ap)"
  shows "failure (fst (logout sv rq ap)) = session_error (sv_lib sv) rq (tab (ap_db ap)) (\<lambda>a. None)"
    and "failure (fst (keys sv rq ap)) = session_error (sv_lib sv) rq (tab (ap_db ap)) (\<lambda>a. None)"
    and "failure (fst (mine sv rq ap)) = session_error (sv_lib sv) rq (tab (ap_db ap)) (\<lambda>a. None)"
    and "failure (fst (list_shares sv rq g ap)) = session_error (sv_lib sv) rq (tab (ap_db ap)) (\<lambda>a. None)"
    and "failure (fst (remove_share sv rq g u ap)) = session_error (sv_lib sv) rq (tab (ap_db ap)) (\<lambda>a. None)"
    and "failure (fst (list_devices sv rq ap)) = session_error (sv_lib sv) rq (tab (ap_db ap)) (\<lambda>a. None)"
proof -
  have row: "\<exists>r. row_at ar_id a (accounts (tab (ap_db ap))) = Some r" if "caller_id (sv_lib sv) rq (tab (ap_db ap)) = Some a" for a
    using caller_account [OF sv inv, of rq a] that
    by (cases "row_at ar_id a (accounts (tab (ap_db ap)))") (auto simp: caller_id_eq [OF sv] row_at_None has_account_def)
  show "failure (fst (keys sv rq ap)) = session_error (sv_lib sv) rq (tab (ap_db ap)) (\<lambda>a. None)"
    unfolding keys_def by (rule session_failure [OF sv]) (use row in \<open>fastforce simp: sv bind_op_eqs on_db_account_by_id ok_op_def\<close>)
  show "failure (fst (logout sv rq ap)) = session_error (sv_lib sv) rq (tab (ap_db ap)) (\<lambda>a. None)"
    unfolding logout_def by (rule session_failure [OF sv]) (simp add: sv revoke)
  show "failure (fst (remove_share sv rq g u ap)) = session_error (sv_lib sv) rq (tab (ap_db ap)) (\<lambda>a. None)"
    unfolding remove_share_def by (rule session_failure [OF sv]) (simp add: sv delete_share)
  show "failure (fst (mine sv rq ap)) = session_error (sv_lib sv) rq (tab (ap_db ap)) (\<lambda>a. None)"
    unfolding mine_def by (rule session_failure [OF sv]) (simp add: sv bind_op_fst(1) shares_for_user ok_op_def)
  show "failure (fst (list_shares sv rq g ap)) = session_error (sv_lib sv) rq (tab (ap_db ap)) (\<lambda>a. None)"
    unfolding list_shares_def by (rule session_failure [OF sv]) (simp add: sv bind_op_fst(1) shares_for_group ok_op_def)
  show "failure (fst (list_devices sv rq ap)) = session_error (sv_lib sv) rq (tab (ap_db ap)) (\<lambda>a. None)"
    unfolding list_devices_def by (rule session_failure [OF sv]) (simp add: sv bind_op_fst(1) devices ok_op_def)
qed

lemma pull_failure:
  assumes sv: "sv_store sv = st" and inv: "inv (ap_db ap)"
    and "0 < cf_max_page (sv_config sv)" "cf_max_page (sv_config sv) < i64_max"
  shows "failure (fst (pull sv rq c ap)) = session_error (sv_lib sv) rq (tab (ap_db ap)) (\<lambda>a. None)"
proof (rule session_failure_ok [OF sv])
  show "\<exists>x. fst (pull sv rq c ap) = Inr x" if "fst (caller sv rq ap) = Inr a" for a
    using pull_ok [OF sv inv that assms(3,4)] by simp
  show "fst (pull sv rq c ap) = Inl Unauthorised" if "fst (caller sv rq ap) = Inl Unauthorised"
    using that by (simp add: pull_def bind_op_fst)
qed

lemma push_failure:
  assumes sv: "sv_store sv = st" and inv: "inv (ap_db ap)"
    and len: "counter (ap_db ap) + int (length (pq_envelopes b)) \<le> i64_max"
  shows "failure (fst (push sv rq b ap)) = session_error (sv_lib sv) rq (tab (ap_db ap)) (\<lambda>a. None)"
proof (rule session_failure_ok [OF sv])
  show "\<exists>x. fst (push sv rq b ap) = Inr x" if c: "fst (caller sv rq ap) = Inr a" for a
  proof -
    obtain vs t' q' where run: "push_run newer cd (sv_config sv) a (now_ms (rn_store rq)) (pq_envelopes b)
        (tab (ap_db ap), counter (ap_db ap)) = (vs, t', q')"
      by (metis prod_cases3)
    obtain resp ap1 where "push sv rq b ap = (Inr resp, ap1)" by (rule push_ok [OF sv inv c len run])
    then show ?thesis by simp
  qed
  show "fst (push sv rq b ap) = Inl Unauthorised" if "fst (caller sv rq ap) = Inl Unauthorised"
    using that by (simp add: push_def bind_op_fst)
qed

lemma rewrap_failure:
  assumes sv: "sv_store sv = st" and inv: "inv (ap_db ap)" and hash: "hashing_ok (sv_lib sv)"
    and salts: "length (rn_auth_salt rq) = 16" "length (rn_recovery_salt rq) = 16"
  shows "failure (fst (rewrap sv rq b ap)) = session_error (sv_lib sv) rq (tab (ap_db ap)) (\<lambda>a. None)"
proof (rule session_failure_ok [OF sv])
  show "\<exists>x. fst (rewrap sv rq b ap) = Inr x" if c: "fst (caller sv rq ap) = Inr a" for a
  proof -
    obtain ah where ah: "hash_auth_key (sv_lib sv) (rn_auth_salt rq) (rw_auth_key b) = Inr ah"
      by (rule hash_auth_key_ok [OF hash salts(1)])
    obtain rh where rh: "hash_auth_key (sv_lib sv) (rn_recovery_salt rq) (rw_recovery_auth_key b) = Inr rh"
      by (rule hash_auth_key_ok [OF hash salts(2)])
    obtain ap1 where "rewrap sv rq b ap = (Inr (), ap1)" by (rule rewrap_ok [OF sv inv c ah rh])
    then show ?thesis by simp
  qed
  show "fst (rewrap sv rq b ap) = Inl Unauthorised" if "fst (caller sv rq ap) = Inl Unauthorised"
    using that by (simp add: rewrap_def bind_op_fst)
qed

lemma handle_failure:
  assumes sv: "sv_store sv = st" and inv: "inv (ap_db ap)" and lib: "lib_codec (sv_lib sv) = cd"
    and hash: "hashing_ok (sv_lib sv)" "length (rn_auth_salt rq) = 16" "length (rn_recovery_salt rq) = 16"
    and page: "0 < cf_max_page (sv_config sv)" "cf_max_page (sv_config sv) < i64_max"
    and room: "counter (ap_db ap) + int (batch_length call) \<le> i64_max"
  shows "failure (fst (handle sv rq call ap)) =
    first_error (sv_lib sv) (sv_config sv) rq (admitted rq ap) call (tab (ap_db ap))"
  using room
  by (cases call)
    (simp_all add: map_op_def ok_op_def register_failure [OF sv inv hash lib] login_failure [OF sv inv] refresh_failure [OF sv inv]
      recover_failure [OF sv inv] rewrap_failure [OF sv inv hash] lookup_failure [OF sv inv] pull_failure [OF sv inv page]
      push_failure [OF sv inv] create_share_failure [OF sv inv] signed_in_failures [OF sv inv] secret_error_def lib)

end

lemma first_error_not_internal: "first_error lib cf rq in_time call t = Some e \<Longrightarrow> \<not> is_internal e"
  by (cases call)
    (auto simp: session_error_def register_error_def secret_error_def validate_email_def is_internal_def Let_def
      split: option.splits if_splits sum.splits)

text \<open>C10: every request is answered with the first check it fails, and with nothing else. On a well-formed SQLite instance whose
  counter has room for the batch, a request fails exactly when \<open>first_error\<close> names an error, and then with that
  error; so no request is answered 500, whatever it contains.\<close>

theorem every_answer_is_the_first_failing_check:
  assumes "sqlite_inv (lib_codec lib) (ap_db ap)" "hashing_ok lib"
    and "length (rn_auth_salt rq) = 16" "length (rn_recovery_salt rq) = 16"
    and "0 < cf_max_page cf" "cf_max_page cf < i64_max"
    and "sqlite_counter (ap_db ap) + int (batch_length call) \<le> i64_max"
  shows "failure (fst (handle (sqlite_server cf lib dummy) rq call ap)) =
      first_error lib cf rq (admitted rq ap) call (tabs (ap_db ap)) \<and>
    (case fst (respond (sqlite_server cf lib dummy) rq call ap) of Inl (status, _) \<Rightarrow> status \<noteq> 500 | Inr _ \<Rightarrow> True)"
proof -
  let ?sv = "sqlite_server cf lib dummy"
  have f: "failure (fst (handle ?sv rq call ap)) = first_error lib cf rq (admitted rq ap) call (tabs (ap_db ap))"
    using sqlite.handle_failure [of ?sv "lib_codec lib" ap rq call] assms by simp
  moreover have "case fst (respond ?sv rq call ap) of Inl (status, _) \<Rightarrow> status \<noteq> 500 | Inr _ \<Rightarrow> True"
  proof (cases "fst (handle ?sv rq call ap)")
    case (Inl e)
    with f have "\<not> is_internal e" by (intro first_error_not_internal) simp
    with Inl status_500_iff_internal [of e] show ?thesis by (simp add: respond_def split_beta)
  next
    case (Inr x)
    then show ?thesis by (simp add: respond_def)
  qed
  ultimately show ?thesis ..
qed

theorem every_answer_is_the_first_failing_check_witness:
  "failure (fst (handle demo_server carol (CreateShare \<lparr>sq_group_id = ''g'', sq_user_id = ''w'', sq_wrapped_group_key = ''k''\<rparr>) shared_app)) =
     Some (BadRequest ''that group is already yours'') \<and>
   failure (fst (handle demo_server carol (CreateShare \<lparr>sq_group_id = ''g'', sq_user_id = ''z'', sq_wrapped_group_key = ''k''\<rparr>) shared_app)) =
     Some NotFound"
proof -
  have sv: "sv_store demo_server = sqlite_store (lib_codec sample_lib)" "sv_lib demo_server = sample_lib"
    by (simp_all add: demo_server_def)
  have "caller_id sample_lib carol (tabs (ap_db shared_app)) = Some ''w''"
    using shared_callers(3) sqlite.caller_id_eq [OF sv(1), of carol shared_app] unfolding sv(2)
    by (cases "caller_id sample_lib carol (tabs (ap_db shared_app))") simp_all
  then have spec: "first_error sample_lib default_config carol i (CreateShare b) (tabs (ap_db shared_app)) =
      (if sq_user_id b = ''w'' then Some (BadRequest ''that group is already yours'')
       else if \<not> has_account shared_tables (sq_user_id b) then Some NotFound else None)" for i b
    by (simp add: session_error_def) (simp add: shared_app_def)
  have side: "length (rn_auth_salt carol) = 16" "length (rn_recovery_salt carol) = 16"
    "0 < cf_max_page default_config" "cf_max_page default_config < i64_max"
    "sqlite_counter (ap_db shared_app) + int (batch_length (CreateShare b)) \<le> i64_max" for b
    by (simp_all add: carol_def sample_request_def default_config_def i64_max_def shared_app_def sqlite_counter_def)
  show ?thesis
    using every_answer_is_the_first_failing_check [OF shared_app_inv sample_lib_ok(3) side(1-4) side(5), of "''$dummy''"]
    unfolding demo_server_def [symmetric] spec
    by (simp add: has_account_def shared_tables_def sample_account_def)
qed

end
