(* ===== verification/Startup.thy ===== *)
theory Startup
  imports System
begin

text \<open>
  \<^verbatim>\<open>main\<close> of \<^verbatim>\<open>server/src/main.rs\<close> with both \<^verbatim>\<open>connect\<close> functions: what a start does up to the point
  where the instance serves, what a restart keeps, and the health probe the container image runs. The operating
  system and the drivers are an argument (\<open>os\<close>): address parsing, opening a database, listening, and a TCP
  stream.
\<close>

section \<open>Connecting to a database\<close>

text \<open>The connection options of sqlx that the source sets, and the target the URL names.\<close>

record sqlite_options =
  so_target :: string
  so_create_if_missing :: bool
  so_wal :: bool
  so_foreign_keys :: bool

record 'c os =
  os_parse_addr :: "string \<Rightarrow> string + socket_addr"
  os_parse_sqlite :: "string \<Rightarrow> string + sqlite_options"
  os_open_sqlite :: "nat \<Rightarrow> sqlite_options \<Rightarrow> db_error + sqlite_db"
  os_open_pg :: "nat \<Rightarrow> string \<Rightarrow> db_error + pg_db"
  os_coll_gt :: "string \<Rightarrow> string \<Rightarrow> bool"
  os_listen :: "socket_addr \<Rightarrow> string + unit"
  os_connect :: "string \<Rightarrow> string + 'c"
  os_set_read_timeout :: "'c \<Rightarrow> nat \<Rightarrow> string + unit"
  os_set_write_timeout :: "'c \<Rightarrow> nat \<Rightarrow> string + unit"
  os_write :: "'c \<Rightarrow> string \<Rightarrow> string + 'c"
  os_read_to_string :: "'c \<Rightarrow> nat \<Rightarrow> string + string"

definition sqlite_connect :: "'c os \<Rightarrow> string \<Rightarrow> error + sqlite_db" where
  "sqlite_connect os url =
     (case os_parse_sqlite os url of
        Inl e \<Rightarrow> Inl (Internal (''bad sqlite url: '' @ e))
      | Inr options \<Rightarrow>
          (let options = options\<lparr>so_create_if_missing := True, so_wal := True, so_foreign_keys := True\<rparr>
           in map_sum Db id (os_open_sqlite os 4 options)))"

definition pg_connect :: "'c os \<Rightarrow> string \<Rightarrow> error + pg_db" where
  "pg_connect os url = map_sum Db id (os_open_pg os 16 url)"

section \<open>The health probe\<close>

definition health_check :: "'c os \<Rightarrow> environment \<Rightarrow> string + unit" where
  "health_check os env =
     (let address = probe_address (env ''REMOTIER_BIND'')
      in case os_connect os address of Inl e \<Rightarrow> Inl e | Inr stream \<Rightarrow>
         (case os_set_read_timeout os stream 3 of Inl e \<Rightarrow> Inl e | Inr _ \<Rightarrow>
         (case os_set_write_timeout os stream 3 of Inl e \<Rightarrow> Inl e | Inr _ \<Rightarrow>
         (case os_write os stream (probe_request address) of Inl e \<Rightarrow> Inl e | Inr stream \<Rightarrow>
         (case os_read_to_string os stream 4096 of Inl e \<Rightarrow> Inl e | Inr response \<Rightarrow> probe_verdict response)))))"

section \<open>Main\<close>

datatype start_error = Bad_config string | Bad_store error | Bad_listener string

text \<open>An \<^verbatim>\<open>Arc<dyn Store>\<close> is one of the two backends.\<close>

datatype running = On_sqlite "sqlite_db server" "sqlite_db app" | On_postgres "pg_db server" "pg_db app"

datatype outcome = Healthy | Unhealthy string | Not_started start_error | Serving running

definition start_store :: "'c os \<Rightarrow> platform \<Rightarrow> string \<Rightarrow> config \<Rightarrow> error + running" where
  "start_store os lib dummy cf =
     (if uses_postgres (cf_database_url cf)
      then (let sv = pg_server (os_coll_gt os) cf lib dummy in
            case pg_connect os (cf_database_url cf) of
              Inl e \<Rightarrow> Inl e
            | Inr db \<Rightarrow> map_sum id (On_postgres sv) (boot sv db))
      else (let sv = sqlite_server cf lib dummy in
            case sqlite_connect os (cf_database_url cf) of
              Inl e \<Rightarrow> Inl e
            | Inr db \<Rightarrow> map_sum id (On_sqlite sv) (boot sv db)))"

definition main :: "'c os \<Rightarrow> platform \<Rightarrow> string \<Rightarrow> string list \<Rightarrow> environment \<Rightarrow> outcome" where
  "main os lib dummy args env =
     (if list_ex (\<lambda>arg. arg = ''--health-check'') args
      then (case health_check os env of Inr _ \<Rightarrow> Healthy | Inl e \<Rightarrow> Unhealthy (''unhealthy: '' @ e))
      else (case from_env (os_parse_addr os) env of
              Inl e \<Rightarrow> Not_started (Bad_config e)
            | Inr cf \<Rightarrow>
                (case start_store os lib dummy cf of
                   Inl e \<Rightarrow> Not_started (Bad_store e)
                 | Inr r \<Rightarrow>
                     (case os_listen os (cf_bind cf) of
                        Inl e \<Rightarrow> Not_started (Bad_listener e)
                      | Inr _ \<Rightarrow> Serving r))))"

section \<open>A restart\<close>

text \<open>One instance, later: the same backend and configuration after some requests.\<close>

fun later :: "running \<Rightarrow> running \<Rightarrow> bool" where
  "later (On_sqlite sv ap) (On_sqlite sv' ap') \<longleftrightarrow> sv' = sv \<and> reach sv ap ap'"
| "later (On_postgres sv ap) (On_postgres sv' ap') \<longleftrightarrow> sv' = sv \<and> reach sv ap ap'"
| "later _ _ \<longleftrightarrow> False"

text \<open>The machine after an instance stopped: opening its database yields what the instance left in it.\<close>

definition left_by :: "running \<Rightarrow> 'c os \<Rightarrow> 'c os" where
  "left_by r os = (case r of
     On_sqlite sv ap \<Rightarrow> os\<lparr>os_open_sqlite := \<lambda>_ _. Inr (ap_db ap)\<rparr>
   | On_postgres sv ap \<Rightarrow> os\<lparr>os_open_pg := \<lambda>_ _. Inr (ap_db ap)\<rparr>)"

fun forget_attempts :: "running \<Rightarrow> running" where
  "forget_attempts (On_sqlite sv ap) = On_sqlite sv (ap\<lparr>ap_limit := auth_limit\<rparr>)"
| "forget_attempts (On_postgres sv ap) = On_postgres sv (ap\<lparr>ap_limit := auth_limit\<rparr>)"

definition first_start :: "'c os \<Rightarrow> config \<Rightarrow> bool" where
  "first_start os cf \<longleftrightarrow>
     (if uses_postgres (cf_database_url cf) then pg_connect os (cf_database_url cf) = Inr fresh_pg
      else sqlite_connect os (cf_database_url cf) = Inr fresh_sqlite)"

lemma map_sum_Inr: "map_sum id f x = Inr y \<longleftrightarrow> (\<exists>z. x = Inr z \<and> y = f z)"
  by (cases x) auto

lemma boot_again:
  "sqlite_inv (lib_codec lib) (ap_db ap) \<Longrightarrow> boot (sqlite_server cf lib dummy) (ap_db ap) = Inr (ap\<lparr>ap_limit := auth_limit\<rparr>)"
  "pg_inv (lib_codec lib) (ap_db ap') \<Longrightarrow> boot (pg_server coll_gt cf lib dummy) (ap_db ap') = Inr (ap'\<lparr>ap_limit := auth_limit\<rparr>)"
  by (simp_all add: boot_def sqlite_store_def pg_store_def migrate_again)

lemma reach_inv:
  assumes "codec_ok (lib_codec lib)" "lower_ok (lib_codec lib)"
  shows "boot (sqlite_server cf lib dummy) fresh_sqlite = Inr ap0 \<Longrightarrow> reach (sqlite_server cf lib dummy) ap0 ap \<Longrightarrow>
      sqlite_inv (lib_codec lib) (ap_db ap)"
    and "collation coll_gt \<Longrightarrow> boot (pg_server coll_gt cf lib dummy) fresh_pg = Inr ap1 \<Longrightarrow>
      reach (pg_server coll_gt cf lib dummy) ap1 ap' \<Longrightarrow> pg_inv (lib_codec lib) (ap_db ap')"
proof -
  show "sqlite_inv (lib_codec lib) (ap_db ap)"
    if "boot (sqlite_server cf lib dummy) fresh_sqlite = Inr ap0" "reach (sqlite_server cf lib dummy) ap0 ap"
  proof -
    have "sqlite_inv (lib_codec lib) (ap_db ap0)" using boot_sqlite [OF assms, of cf dummy] that(1) by auto
    moreover have "store_keeps (sqlite_inv (lib_codec lib)) (sv_store (sqlite_server cf lib dummy))"
      by (simp add: sqlite_store_keeps_inv)
    ultimately show ?thesis using reach_keeps [OF _ that(2)] by simp
  qed
  show "pg_inv (lib_codec lib) (ap_db ap')"
    if "collation coll_gt" "boot (pg_server coll_gt cf lib dummy) fresh_pg = Inr ap1" "reach (pg_server coll_gt cf lib dummy) ap1 ap'"
  proof -
    have "pg_inv (lib_codec lib) (ap_db ap1)" using boot_pg [OF assms(1), of coll_gt cf dummy] that(2) by auto
    moreover have "store_keeps (pg_inv (lib_codec lib)) (sv_store (pg_server coll_gt cf lib dummy))"
      using collation.pg_store_keeps_inv [OF that(1)] by simp
    ultimately show ?thesis using reach_keeps [OF _ that(3)] by simp
  qed
qed

lemma main_serving:
  assumes "main os lib dummy args env = Serving r"
  obtains cf where "\<not> list_ex (\<lambda>arg. arg = ''--health-check'') args" "from_env (os_parse_addr os) env = Inr cf"
    "start_store os lib dummy cf = Inr r" "os_listen os (cf_bind cf) = Inr ()"
  using assms by (auto simp: main_def split: if_splits sum.splits)

text \<open>C31: a restart keeps everything but the limiter. An instance starts on an empty database, serves any requests
  and stops; started again with the same environment, on the database it left, it serves the same tables and the
  same counter, so every record, session and share is where it was, and its limiter has forgotten every attempt.\<close>

theorem restart_keeps_all_but_the_limiter:
  assumes "codec_ok (lib_codec lib)" "lower_ok (lib_codec lib)" "collation (os_coll_gt os)"
    and "from_env (os_parse_addr os) env = Inr cf" "first_start os cf"
    and "main os lib dummy args env = Serving r0" "later r0 r"
  shows "main (left_by r os) lib dummy args env = Serving (forget_attempts r)"
proof -
  from main_serving [OF assms(6)] assms(4) have m: "\<not> list_ex (\<lambda>arg. arg = ''--health-check'') args"
    "start_store os lib dummy cf = Inr r0" "os_listen os (cf_bind cf) = Inr ()" by auto
  have same: "os_parse_addr (left_by r os) = os_parse_addr os" "os_listen (left_by r os) = os_listen os"
    by (simp_all add: left_by_def split: running.split)
  have "start_store (left_by r os) lib dummy cf = Inr (forget_attempts r)"
  proof (cases "uses_postgres (cf_database_url cf)")
    case True
    with m(2) assms(5) obtain ap0 where ap0: "boot (pg_server (os_coll_gt os) cf lib dummy) fresh_pg = Inr ap0"
      "r0 = On_postgres (pg_server (os_coll_gt os) cf lib dummy) ap0"
      by (auto simp: start_store_def first_start_def map_sum_Inr Let_def)
    with assms(7) obtain ap where ap: "r = On_postgres (pg_server (os_coll_gt os) cf lib dummy) ap"
      "reach (pg_server (os_coll_gt os) cf lib dummy) ap0 ap" by (cases r) auto
    from reach_inv(2) [OF assms(1,2,3) ap0(1) ap(2)] True show ?thesis
      by (simp add: start_store_def pg_connect_def left_by_def ap(1) boot_again)
  next
    case False
    with m(2) assms(5) obtain ap0 where ap0: "boot (sqlite_server cf lib dummy) fresh_sqlite = Inr ap0"
      "r0 = On_sqlite (sqlite_server cf lib dummy) ap0"
      by (auto simp: start_store_def first_start_def map_sum_Inr Let_def)
    with assms(7) obtain ap where ap: "r = On_sqlite (sqlite_server cf lib dummy) ap"
      "reach (sqlite_server cf lib dummy) ap0 ap" by (cases r) auto
    obtain options where "os_parse_sqlite os (cf_database_url cf) = Inr options"
      using False assms(5) by (auto simp: first_start_def sqlite_connect_def split: sum.splits)
    with reach_inv(1) [OF assms(1,2) ap0(1) ap(2)] False show ?thesis
      by (simp add: start_store_def sqlite_connect_def left_by_def ap(1) boot_again)
  qed
  with m(1,3) assms(4) same show ?thesis by (simp add: main_def)
qed

definition sample_env :: environment where
  "sample_env = [''REMOTIER_REGISTRATION_OPEN'' \<mapsto> ''true'']"

text \<open>A machine with an empty database where nothing answers on loopback.\<close>

definition sample_os :: "unit os" where
  "sample_os =
     \<lparr>os_parse_addr = (\<lambda>_. Inr sample_addr),
      os_parse_sqlite = (\<lambda>url. Inr \<lparr>so_target = url, so_create_if_missing = False, so_wal = False, so_foreign_keys = False\<rparr>),
      os_open_sqlite = (\<lambda>_ _. Inr fresh_sqlite), os_open_pg = (\<lambda>_ _. Inl ConnectFailed), os_coll_gt = c_collation,
      os_listen = (\<lambda>_. Inr ()), os_connect = (\<lambda>_. Inl ''connection refused''),
      os_set_read_timeout = (\<lambda>_ _. Inr ()), os_set_write_timeout = (\<lambda>_ _. Inr ()), os_write = (\<lambda>_ _. Inr ()),
      os_read_to_string = (\<lambda>_ _. Inr [])\<rparr>"

lemma sample_start:
  "from_env (os_parse_addr sample_os) sample_env = Inr open_config" "first_start sample_os open_config"
  "main sample_os sample_lib ''$dummy'' [''server''] sample_env = Serving (On_sqlite sample_server sample_app)"
proof -
  show env: "from_env (os_parse_addr sample_os) sample_env = Inr open_config"
    by (simp add: from_env_def var_def sample_os_def sample_env_def open_config_def default_config_def)
  have url: "\<not> uses_postgres (cf_database_url open_config)"
    by (simp add: uses_postgres_def open_config_def default_config_def strip_prefix_def)
  then show "first_start sample_os open_config"
    by (simp add: first_start_def sqlite_connect_def sample_os_def)
  have "boot sample_server fresh_sqlite = Inr sample_app"
    by (simp add: boot_def sample_server_def sqlite_store_def sqlite_migrate_def fresh_sqlite_def sample_app_def)
  then have "start_store sample_os sample_lib ''$dummy'' open_config = Inr (On_sqlite sample_server sample_app)"
    using url by (simp add: start_store_def sqlite_connect_def sample_os_def sample_server_def Let_def)
  with env show "main sample_os sample_lib ''$dummy'' [''server''] sample_env = Serving (On_sqlite sample_server sample_app)"
    by (simp add: main_def) (simp add: sample_os_def)
qed

theorem restart_keeps_all_but_the_limiter_witness:
  "\<exists>ap. accounts (tabs (ap_db ap)) = [sample_row] \<and>
     main (left_by (On_sqlite sample_server ap) sample_os) sample_lib ''$dummy'' [''server''] sample_env =
       Serving (On_sqlite sample_server (ap\<lparr>ap_limit := auth_limit\<rparr>))"
proof -
  obtain ap where reg: "register sample_server sample_request sample_register sample_app =
      (Inr (session_for sample_server sample_request (account_from_row sample_row)), ap)"
    and accs: "accounts (tabs (ap_db ap)) = [sample_row]"
    by (rule sample_registration)
  have "reach sample_server sample_app ap"
    using reach.request [OF reach.start, of sample_server sample_request "Register sample_register" sample_app ap] reg
    by (simp add: map_op_def)
  then have later: "later (On_sqlite sample_server sample_app) (On_sqlite sample_server ap)" by simp
  have coll: "collation (os_coll_gt sample_os)" by (simp add: sample_os_def c_collation.collation_axioms)
  show ?thesis
    using restart_keeps_all_but_the_limiter [OF sample_lib_ok(1,2) coll sample_start later] accs by auto
qed

section \<open>What the probe reports\<close>

text \<open>A connection to an address reaches a process that answers a request text with a response text.\<close>

definition answers_at :: "'c os \<Rightarrow> string \<Rightarrow> (string \<Rightarrow> string) \<Rightarrow> bool" where
  "answers_at os address serve \<longleftrightarrow> (\<exists>c. os_connect os address = Inr c \<and>
     os_set_read_timeout os c 3 = Inr () \<and> os_set_write_timeout os c 3 = Inr () \<and>
     (\<exists>c'. os_write os c (probe_request address) = Inr c' \<and>
        os_read_to_string os c' 4096 = Inr (take 4096 (serve (probe_request address)))))"

lemma after_last_colon: "d \<notin> set port \<Longrightarrow> after_last d (host @ d # port) = port"
proof -
  assume "d \<notin> set port"
  then have "takeWhile (\<lambda>c. c \<noteq> d) (rev port @ d # rev host) = rev port"
    by (subst takeWhile_append2) auto
  then show ?thesis by (simp add: after_last_def)
qed

text \<open>C32: the probe asks loopback, whatever interface the server is bound to. A server starts on
  \<open>host:port\<close>. Where a process on \<open>127.0.0.1:port\<close> answers the probe with status 200, the probe is healthy, whatever
  \<open>host\<close> is; and where nothing listens there, as when the server is bound to another interface, the
  instance serves and its probe reports it unhealthy.\<close>

theorem probe_asks_loopback_only:
  assumes "env ''REMOTIER_BIND'' = Some (host @ CHR '':'' # port)" "CHR '':'' \<notin> set port"
    and "main os lib dummy args env = Serving r"
  shows "(answers_at os (''127.0.0.1:'' @ port) serve \<and>
       strip_prefix ''HTTP/1.1 200'' (serve (probe_request (''127.0.0.1:'' @ port))) \<noteq> None \<longrightarrow>
       main os lib dummy (''--health-check'' # args) env = Healthy) \<and>
    (os_connect os (''127.0.0.1:'' @ port) = Inl e \<longrightarrow>
       main os lib dummy (''--health-check'' # args) env = Unhealthy (''unhealthy: '' @ e))"
proof -
  have address: "probe_address (env ''REMOTIER_BIND'') = ''127.0.0.1:'' @ port"
    by (simp add: probe_address_def assms(1) after_last_colon [OF assms(2)])
  have "probe_verdict (take 4096 t) = Inr ()" if "strip_prefix ''HTTP/1.1 200'' t \<noteq> None" for t
    using that by (auto simp: probe_verdict_def strip_prefix_def min_def split: if_splits)
  then show ?thesis
    by (auto simp: main_def health_check_def Let_def address answers_at_def)
qed

text \<open>An instance bound to one address of a local network.\<close>

definition lan_os :: "unit os" where
  "lan_os = sample_os\<lparr>os_parse_addr := \<lambda>_. Inr \<lparr>sa_ip = V4 192 168 1 5, sa_port = 8787\<rparr>\<rparr>"

definition lan_env :: environment where
  "lan_env = [''REMOTIER_BIND'' \<mapsto> ''192.168.1.5:8787'']"

theorem probe_asks_loopback_only_witness:
  "(\<exists>r. main lan_os sample_lib ''$dummy'' [''server''] lan_env = Serving r) \<and>
   main lan_os sample_lib ''$dummy'' [''--health-check'', ''server''] lan_env = Unhealthy (''unhealthy: '' @ ''connection refused'')"
proof -
  let ?cf = "default_config\<lparr>cf_bind := \<lparr>sa_ip = V4 192 168 1 5, sa_port = 8787\<rparr>\<rparr>"
  let ?sv = "sqlite_server ?cf sample_lib ''$dummy''"
  have "from_env (os_parse_addr lan_os) lan_env = Inr ?cf"
    by (simp add: from_env_def var_def lan_os_def lan_env_def default_config_def)
  moreover have "\<not> uses_postgres (cf_database_url ?cf)"
    by (simp add: uses_postgres_def default_config_def strip_prefix_def)
  moreover have "sqlite_connect lan_os (cf_database_url ?cf) = Inr fresh_sqlite" "os_listen lan_os a = Inr ()" for a
    by (simp_all add: sqlite_connect_def lan_os_def sample_os_def)
  moreover obtain ap where "boot ?sv fresh_sqlite = Inr ap"
    using boot_sqlite [OF sample_lib_ok(1,2), of ?cf "''$dummy''"] by blast
  ultimately have run: "main lan_os sample_lib ''$dummy'' [''server''] lan_env = Serving (On_sqlite ?sv ap)"
    by (simp add: main_def start_store_def Let_def)
  have "lan_env ''REMOTIER_BIND'' = Some (''192.168.1.5'' @ CHR '':'' # ''8787'')" by (simp add: lan_env_def)
  from probe_asks_loopback_only [OF this _ run, where e = "''connection refused''"]
  have "main lan_os sample_lib ''$dummy'' [''--health-check'', ''server''] lan_env = Unhealthy (''unhealthy: '' @ ''connection refused'')"
    by (simp add: lan_os_def sample_os_def)
  with run show ?thesis by blast
qed

end
