(* ===== verification/Typing.thy ===== *)
theory Typing
  imports System
begin

text \<open>
  The integers of the model. An \<^verbatim>\<open>i64\<close> of the source is an unbounded integer here, wrapped where the source
  computes with it unguarded. This theory shows that nothing else leaves the range: every request whose integers
  are \<^verbatim>\<open>i64\<close> leaves tables, counters and replies whose integers are, on both stores.
\<close>

section \<open>Well-typed values\<close>

definition record_typed :: "record_row \<Rightarrow> bool" where
  "record_typed r \<longleftrightarrow> is_i64 (r_sort r) \<and> is_i64 (r_updated_at r) \<and> is_i64 (r_seq r) \<and> pred_option is_i64 (r_deleted_at r)"

definition tables_typed :: "tables \<Rightarrow> bool" where
  "tables_typed t \<longleftrightarrow> list_all (\<lambda>r. is_i64 (ar_created_at r)) (accounts t) \<and> list_all (\<lambda>k. is_i64 (t_expires_at k)) (tokens t) \<and>
     list_all record_typed (records t) \<and> list_all (\<lambda>s. is_i64 (sh_created_at s)) (shares t) \<and>
     list_all (\<lambda>d. is_i64 (d_last_seen d)) (devices t)"

definition sqlite_typed :: "sqlite_db \<Rightarrow> bool" where
  "sqlite_typed db \<longleftrightarrow> tables_typed (tabs db) \<and> pred_option is_i64 (sequence db)"

definition pg_typed :: "pg_db \<Rightarrow> bool" where
  "pg_typed db \<longleftrightarrow> tables_typed (pg_tabs db) \<and> pred_option (\<lambda>q. is_i64 (fst q)) (record_seq db)"

fun call_typed :: "api_call \<Rightarrow> bool" where
  "call_typed (Pull cursor) = is_i64 cursor"
| "call_typed (Push b) = list_all envelope_typed (pq_envelopes b)"
| "call_typed _ = True"

fun reply_typed :: "reply \<Rightarrow> bool" where
  "reply_typed (R_session s) = is_i64 (ss_expires_in s)"
| "reply_typed (R_pull p) = (list_all envelope_typed (pr_envelopes p) \<and> is_i64 (pr_cursor p))"
| "reply_typed (R_push p) = (list_all (\<lambda>a. is_i64 (ac_seq a)) (ps_accepted p) \<and> is_i64 (ps_cursor p))"
| "reply_typed (R_shares ss) = list_all (\<lambda>s. is_i64 (sr_created_at s)) ss"
| "reply_typed (R_devices ds) = list_all (\<lambda>d. is_i64 (dv_last_seen d)) ds"
| "reply_typed _ = True"

section \<open>Operations that keep a state predicate and answer in a type\<close>

named_theorems yields_intros \<open>operations that keep a predicate and answer within another\<close>

definition yields :: "('s \<Rightarrow> bool) \<Rightarrow> ('a \<Rightarrow> bool) \<Rightarrow> ('e, 's, 'a) op \<Rightarrow> bool" where
  "yields P Q m \<longleftrightarrow> (\<forall>s. P s \<longrightarrow> P (snd (m s)) \<and> pred_sum (\<lambda>_. True) Q (fst (m s)))"

lemma yields_ok: "Q x \<Longrightarrow> yields P Q (ok_op x)"
  by (simp add: yields_def ok_op_def)

lemma yields_err [yields_intros]: "yields P Q (err_op e)"
  by (simp add: yields_def err_op_def)

lemma yields_bind:
  assumes "yields P Q m" "\<And>x. Q x \<Longrightarrow> yields P R (g x)"
  shows "yields P R (bind_op m g)"
  unfolding yields_def
proof (intro allI impI)
  fix s
  assume "P s"
  obtain r s' where m: "m s = (r, s')" by (cases "m s")
  with assms(1) \<open>P s\<close> have "P s'" "pred_sum (\<lambda>_. True) Q r" unfolding yields_def by force+
  with assms(2) show "P (snd (bind_op m g s)) \<and> pred_sum (\<lambda>_. True) R (fst (bind_op m g s))"
    by (cases r) (auto simp: bind_op_def m yields_def)
qed

lemma yields_then [yields_intros]:
  "yields P (\<lambda>_. True) m \<Longrightarrow> (\<And>x. yields P R (g x)) \<Longrightarrow> yields P R (bind_op m g)"
  by (rule yields_bind)

lemma yields_any: "yields P Q m \<Longrightarrow> yields P (\<lambda>_. True) m"
  unfolding yields_def by (auto simp: pred_sum.simps split: sum.splits)

lemma yields_ok_or [yields_intros]: "yields P (\<lambda>_. True) (ok_or e v)"
  by (simp add: yields_def ok_or_def ok_op_def err_op_def split: option.split)

lemma yields_lift [yields_intros]: "yields P (\<lambda>_. True) (lift_result r)"
  by (cases r) (simp_all add: yields_def lift_result_def)

lemma yields_if [yields_intros]: "yields P Q f \<Longrightarrow> yields P Q g \<Longrightarrow> yields P Q (if b then f else g)"
  by simp

lemma yields_case_option [yields_intros]:
  "yields P Q f \<Longrightarrow> (\<And>x. yields P Q (g x)) \<Longrightarrow> yields P Q (case v of None \<Rightarrow> f | Some x \<Rightarrow> g x)"
  by (cases v) simp_all

lemma yields_on_db [yields_intros]: "yields P Q f \<Longrightarrow> yields (\<lambda>ap. P (ap_db ap)) Q (on_db f)"
  by (simp add: yields_def)

lemma yields_guard [yields_intros]: "yields (\<lambda>ap. P (ap_db ap)) (\<lambda>_. True) (guard rq)"
  by (simp add: yields_def)

lemma yields_map_op: "yields P (\<lambda>x. Q (f x)) m \<Longrightarrow> yields P Q (map_op f m)"
  by (auto simp: yields_def map_op_def sum.pred_map comp_def)

section \<open>The contract of a store\<close>

definition row_typed :: "share_row \<Rightarrow> bool" where
  "row_typed r \<longleftrightarrow> is_i64 (sw_created_at r)"

locale typed_store =
  fixes st :: "'s store" and P :: "'s \<Rightarrow> bool"
  assumes queries:
    "yields P (\<lambda>_. True) (s_account_by_id st i)" "yields P (\<lambda>_. True) (s_account_by_email st m)"
    "yields P (\<lambda>_. True) (s_take_token st now h k)" "yields P (\<lambda>_. True) (s_share_owner st g)"
    "yields P (\<lambda>_. True) (s_can_write_group st a g)" "yields P (list_all envelope_typed) (s_pull st a c l)"
    "yields P is_i64 (s_max_seq st a)" "yields P (list_all row_typed) (s_shares_for_group st a g)"
    "yields P (list_all row_typed) (s_shares_for_user st a)" "yields P (list_all (\<lambda>d. is_i64 (dr_last_seen d))) (s_devices st a)"
    and updates:
    "yields P (\<lambda>_. True) (s_create_account st now b n)" "yields P (\<lambda>_. True) (s_rewrap_account st i n)"
    "is_i64 x \<Longrightarrow> yields P (\<lambda>_. True) (s_put_token st h a k x)" "yields P (\<lambda>_. True) (s_consume_token st now h k)"
    "yields P (\<lambda>_. True) (s_revoke_account_tokens st a)"
    "envelope_typed e \<Longrightarrow> yields P (pred_option is_i64) (s_put_envelope st a e)"
    "yields P (\<lambda>_. True) (s_put_share st now a g u w)" "yields P (\<lambda>_. True) (s_delete_share st a g u)"
    "yields P (\<lambda>_. True) (s_touch_device st now a d m)"
begin

lemmas steps = queries updates

lemma issue_session_typed:
  assumes "sv_store sv = st" "is_i64 (cf_access_ttl_secs (sv_config sv))"
  shows "yields (\<lambda>ap. P (ap_db ap)) (\<lambda>s. is_i64 (ss_expires_in s)) (issue_session sv rq a d n)"
  unfolding issue_session_def Let_def split_beta assms(1)
  by (intro yields_intros steps yields_ok) (simp_all add: assms(2) yields_ok)

lemma caller_typed: "sv_store sv = st \<Longrightarrow> yields (\<lambda>ap. P (ap_db ap)) (\<lambda>_. True) (caller sv rq)"
  unfolding caller_def by (simp, intro yields_intros steps yields_ok TrueI)

lemma auth_typed:
  assumes "sv_store sv = st" "is_i64 (cf_access_ttl_secs (sv_config sv))"
  shows "yields (\<lambda>ap. P (ap_db ap)) (\<lambda>s. is_i64 (ss_expires_in s)) (register sv rq b1)"
    "yields (\<lambda>ap. P (ap_db ap)) (\<lambda>s. is_i64 (ss_expires_in s)) (login sv rq b2)"
    "yields (\<lambda>ap. P (ap_db ap)) (\<lambda>s. is_i64 (ss_expires_in s)) (refresh sv rq b3)"
    "yields (\<lambda>ap. P (ap_db ap)) (\<lambda>s. is_i64 (ss_expires_in s)) (recover sv rq b4)"
    "yields (\<lambda>ap. P (ap_db ap)) (\<lambda>_. True) (rewrap sv rq b5)" "yields (\<lambda>ap. P (ap_db ap)) (\<lambda>_. True) (logout sv rq)"
    "yields (\<lambda>ap. P (ap_db ap)) (\<lambda>_. True) (keys sv rq)" "yields (\<lambda>ap. P (ap_db ap)) (\<lambda>_. True) (lookup sv rq m)"
  unfolding register_def login_def refresh_def recover_def rewrap_def logout_def keys_def lookup_def Let_def assms(1)
  by (intro yields_intros steps yields_ok issue_session_typed caller_typed assms TrueI)+

end

definition push_typed :: "push_state \<Rightarrow> bool" where
  "push_typed ps \<longleftrightarrow> list_all (\<lambda>a. is_i64 (ac_seq a)) (pu_accepted ps)"

lemma push_typed_simps [simp]:
  "push_typed (accept e q ps) \<longleftrightarrow> push_typed ps \<and> is_i64 q" "push_typed (reject e r ps) = push_typed ps" "push_typed push_start"
  "push_typed (ps\<lparr>pu_writable := w\<rparr>) = push_typed ps" "push_typed (ps\<lparr>pu_owners := ow\<rparr>) = push_typed ps"
  by (auto simp: push_typed_def accept_def reject_def push_start_def)

context typed_store
begin

lemma put_one_typed:
  assumes "sv_store sv = st" "envelope_typed e" "push_typed ps"
  shows "yields (\<lambda>ap. P (ap_db ap)) push_typed (put_one sv a e ps)"
  unfolding put_one_def assms(1)
  by (rule yields_bind [OF yields_on_db [OF steps(16) [OF assms(2)]]]) (auto intro!: yields_ok simp: assms(3) split: option.split)

lemma push_one_typed:
  assumes "sv_store sv = st" "envelope_typed e" "push_typed ps"
  shows "yields (\<lambda>ap. P (ap_db ap)) push_typed (push_one sv a now e ps)"
proof -
  have allowed: "yields (\<lambda>ap. P (ap_db ap)) (\<lambda>x. push_typed (snd x)) (group_allowed sv a g ps)" for g
    unfolding group_allowed_def assms(1)
    by (intro yields_intros steps yields_ok) (simp_all add: assms(3))
  have owner: "yields (\<lambda>ap. P (ap_db ap)) (\<lambda>x. push_typed (snd x)) (group_owner_of sv g ps')" if "push_typed ps'" for g ps'
    unfolding group_owner_of_def assms(1)
    by (intro yields_intros steps yields_ok) (simp_all add: that)
  show ?thesis
    unfolding push_one_def
    by (auto intro!: yields_ok yields_bind [OF allowed] yields_bind [OF owner] put_one_typed assms
        split: option.split key_ref.split simp: assms(3))
qed

lemma push_loop_typed:
  assumes "sv_store sv = st"
  shows "list_all envelope_typed es \<Longrightarrow> push_typed ps \<Longrightarrow> yields (\<lambda>ap. P (ap_db ap)) push_typed (push_loop sv a now es ps)"
proof (induction es arbitrary: ps)
  case Nil
  then show ?case by (simp add: yields_ok)
next
  case (Cons e es)
  then show ?case by (auto intro!: yields_bind [OF push_one_typed [OF assms]])
qed

lemma sync_typed:
  assumes "sv_store sv = st"
  shows "is_i64 c \<Longrightarrow> yields (\<lambda>ap. P (ap_db ap)) (\<lambda>p. list_all envelope_typed (pr_envelopes p) \<and> is_i64 (pr_cursor p)) (pull sv rq c)"
    "list_all envelope_typed (pq_envelopes b) \<Longrightarrow>
      yields (\<lambda>ap. P (ap_db ap)) (\<lambda>p. list_all (\<lambda>a. is_i64 (ac_seq a)) (ps_accepted p) \<and> is_i64 (ps_cursor p)) (push sv rq b)"
proof -
  have page: "is_i64 (if es = [] then c else e_seq (last es))" if "list_all envelope_typed es" "is_i64 c" for es
    using that last_in_set [of es] by (auto simp: list_all_iff envelope_typed_def)
  have taken: "list_all envelope_typed (take n es)" if "list_all envelope_typed es" for n es
    using that by (auto simp: list_all_iff dest: in_set_takeD)
  have reply: "list_all envelope_typed (if m then take n es else es) \<and>
      is_i64 (if (if m then take n es else es) = [] then c else e_seq (last (if m then take n es else es)))"
    if "list_all envelope_typed es" "is_i64 c" for es n m
  proof -
    have p: "list_all envelope_typed (if m then take n es else es)" using taken [OF that(1)] that(1) by simp
    from page [OF p that(2)] p show ?thesis by (rule conjI [rotated])
  qed
  show "yields (\<lambda>ap. P (ap_db ap)) (\<lambda>p. list_all envelope_typed (pr_envelopes p) \<and> is_i64 (pr_cursor p)) (pull sv rq c)" if "is_i64 c"
    unfolding pull_def Let_def assms
    by (intro yields_then caller_typed assms yields_bind [OF yields_on_db [OF steps(6)]] yields_ok,
        unfold pull_response.simps) (rule reply [OF _ that])
  show "yields (\<lambda>ap. P (ap_db ap)) (\<lambda>p. list_all (\<lambda>a. is_i64 (ac_seq a)) (ps_accepted p) \<and> is_i64 (ps_cursor p)) (push sv rq b)"
    if "list_all envelope_typed (pq_envelopes b)"
    unfolding push_def assms
    by (rule yields_then [OF caller_typed [OF assms]], rule yields_bind [OF push_loop_typed [OF assms that]], simp,
        rule yields_bind [OF yields_on_db [OF steps(7)]], rule yields_ok) (simp add: push_typed_def)
qed

lemma share_typed:
  assumes "sv_store sv = st"
  shows "yields (\<lambda>ap. P (ap_db ap)) (list_all (\<lambda>s. is_i64 (sr_created_at s))) (mine sv rq)"
    "yields (\<lambda>ap. P (ap_db ap)) (list_all (\<lambda>s. is_i64 (sr_created_at s))) (list_shares sv rq g)"
    "yields (\<lambda>ap. P (ap_db ap)) (list_all (\<lambda>d. is_i64 (dv_last_seen d))) (list_devices sv rq)"
    "yields (\<lambda>ap. P (ap_db ap)) (\<lambda>_. True) (create_share sv rq s)" "yields (\<lambda>ap. P (ap_db ap)) (\<lambda>_. True) (remove_share sv rq g u)"
  unfolding mine_def list_shares_def list_devices_def create_share_def remove_share_def assms
  by (intro yields_then caller_typed assms yields_bind [OF yields_on_db [OF steps(8)]] yields_bind [OF yields_on_db [OF steps(9)]]
      yields_bind [OF yields_on_db [OF steps(10)]] yields_intros steps yields_ok TrueI;
    simp add: list_all_iff row_typed_def share_of_def device_of_def)+

lemma handle_typed:
  assumes "sv_store sv = st" "is_i64 (cf_access_ttl_secs (sv_config sv))" "call_typed call"
  shows "yields (\<lambda>ap. P (ap_db ap)) reply_typed (handle sv rq call)"
  using assms(3) by (cases call)
    (simp_all add: yields_map_op yields_ok auth_typed [OF assms(1,2)] sync_typed [OF assms(1)] share_typed [OF assms(1)])

end

section \<open>Both stores meet it\<close>

lemma list_all_upsert:
  assumes "list_all P rows" "P new" "\<And>old r. P old \<Longrightarrow> upd old new = Some r \<Longrightarrow> P r"
  shows "list_all P (fst (upsert key upd new rows))"
proof (cases rule: upsert_cases [of key new rows upd])
  case (updated old r)
  moreover from this have "P old" using assms(1) row_at_Some by (fastforce simp: list_all_iff)
  ultimately have "P r" using assms(3) by blast
  with updated assms(1) show ?thesis by (auto simp: list_all_iff)
qed (use assms in simp_all)

lemma upsert_typed:
  "tables_typed t \<Longrightarrow> is_i64 (t_expires_at k) \<Longrightarrow> tables_typed (t\<lparr>tokens := fst (upsert t_hash token_on_conflict k (tokens t))\<rparr>)"
  "tables_typed t \<Longrightarrow> record_typed r \<Longrightarrow> tables_typed (t\<lparr>records := fst (upsert record_key (record_on_conflict newer) r (records t))\<rparr>)"
  "tables_typed t \<Longrightarrow> is_i64 (sh_created_at s) \<Longrightarrow> tables_typed (t\<lparr>shares := fst (upsert share_key share_on_conflict s (shares t))\<rparr>)"
  "tables_typed t \<Longrightarrow> is_i64 (d_last_seen d) \<Longrightarrow> tables_typed (t\<lparr>devices := fst (upsert device_key device_on_conflict d (devices t))\<rparr>)"
  unfolding tables_typed_def
  by (auto intro!: list_all_upsert simp: token_on_conflict_def record_on_conflict_def set_excluded_def record_typed_def
      share_on_conflict_def device_on_conflict_def split: if_splits)

lemma rows_typed:
  "tables_typed t \<Longrightarrow> tables_typed (t\<lparr>accounts := map (\<lambda>r. if ar_id r = i then rewrap_row n r else r) (accounts t)\<rparr>)"
  "tables_typed t \<Longrightarrow> tables_typed (t\<lparr>accounts := accounts t @ [account_row_of i m (now_ms reading) n]\<rparr>)"
  "tables_typed t \<Longrightarrow> tables_typed (t\<lparr>tokens := filter p (tokens t)\<rparr>)"
  "tables_typed t \<Longrightarrow> tables_typed (t\<lparr>shares := filter q (shares t)\<rparr>)"
proof -
  have "is_i64 (now_ms reading)" by (simp add: now_ms_def is_i64_def i64_wrap_range [unfolded is_i64_def])
  then show "tables_typed t \<Longrightarrow> tables_typed (t\<lparr>accounts := accounts t @ [account_row_of i m (now_ms reading) n]\<rparr>)"
    by (simp add: tables_typed_def account_row_of_def)
qed (auto simp: tables_typed_def list_all_iff rewrap_row_def)

lemma record_row_typed:
  "envelope_typed e \<Longrightarrow> is_i64 q \<Longrightarrow> record_typed (record_row_of cd a q j e)"
  by (auto simp: envelope_typed_def record_typed_def record_row_of_def split: option.splits)

lemma rows_envelopes_typed:
  assumes "tables_typed t" "set rows \<subseteq> set (records t)"
  shows "pred_sum (\<lambda>_. True) (list_all envelope_typed) (collect_results (map (envelope_from_row cd) rows))"
proof (cases "collect_results (map (envelope_from_row cd) rows)")
  case (Inr es)
  then have eq: "map (envelope_from_row cd) rows = map Inr es" by (simp add: collect_results_Inr)
  have "envelope_typed e" if "e \<in> set es" for e
  proof -
    from that have "Inr e \<in> set (map (envelope_from_row cd) rows)" by (simp add: eq)
    then obtain r where r: "r \<in> set rows" "envelope_from_row cd r = Inr e" by auto
    with assms have "record_typed r" by (auto simp: tables_typed_def list_all_iff)
    with r(2) show ?thesis
      by (auto simp: envelope_from_row_def record_typed_def envelope_typed_def split: option.splits sum.splits)
  qed
  with Inr show ?thesis by (simp add: list_all_iff)
qed simp

lemma queries_typed:
  assumes "tables_typed t"
  shows "pred_sum (\<lambda>_. True) (list_all envelope_typed) (collect_results (map (envelope_from_row cd) (log_after t a c)))"
    "pred_sum (\<lambda>_. True) (list_all envelope_typed) (collect_results (map (envelope_from_row cd) (take n (log_after t a c))))"
    "list_all row_typed [share_from_row s x. s \<leftarrow> shares t, x \<leftarrow> accounts t, p s x]"
    "list_all (\<lambda>d. is_i64 (dr_last_seen d)) (map device_from_row (sort_key f (filter q (devices t))))"
proof -
  have log: "set (log_after t a c) \<subseteq> set (records t)" "set (take n (log_after t a c)) \<subseteq> set (records t)"
    by (auto simp: set_log_after dest: in_set_takeD)
  show "pred_sum (\<lambda>_. True) (list_all envelope_typed) (collect_results (map (envelope_from_row cd) (log_after t a c)))"
    "pred_sum (\<lambda>_. True) (list_all envelope_typed) (collect_results (map (envelope_from_row cd) (take n (log_after t a c))))"
    using rows_envelopes_typed [OF assms log(1)] rows_envelopes_typed [OF assms log(2)] .
  show "list_all row_typed [share_from_row s x. s \<leftarrow> shares t, x \<leftarrow> accounts t, p s x]"
    "list_all (\<lambda>d. is_i64 (dr_last_seen d)) (map device_from_row (sort_key f (filter q (devices t))))"
    using assms by (auto simp: tables_typed_def list_all_iff row_typed_def share_from_row_def device_from_row_def)
qed

text \<open>The row an upsert returns is one of its rows.\<close>

lemma returned_typed:
  assumes "list_all record_typed rows" "record_typed new"
  shows "pred_option (\<lambda>r. is_i64 (r_seq r)) (snd (upsert record_key (record_on_conflict newer) new rows))"
proof -
  have "record_typed r" if "snd (upsert record_key (record_on_conflict newer) new rows) = Some r" for r
    using that assms row_at_Some
    by (fastforce simp: upsert_returns record_on_conflict_def set_excluded_def record_typed_def list_all_iff split: option.splits if_splits)
  then show ?thesis by (auto simp: option.pred_set record_typed_def)
qed

lemma now_typed [simp]: "is_i64 (now_ms reading)"
  by (simp add: now_ms_def is_i64_def i64_wrap_range [unfolded is_i64_def])

lemma sqlite_put_envelope_typed:
  assumes "envelope_typed e"
  shows "yields sqlite_typed (pred_option is_i64) (sqlite_put_envelope cd a e)"
  unfolding yields_def
proof (intro allI impI)
  fix db
  assume db: "sqlite_typed db"
  show "sqlite_typed (snd (sqlite_put_envelope cd a e db)) \<and> pred_sum (\<lambda>_. True) (pred_option is_i64) (fst (sqlite_put_envelope cd a e db))"
  proof (cases "sequence db")
    case None
    with db show ?thesis by (simp add: sqlite_put_envelope_def)
  next
    case (Some n)
    show ?thesis
    proof (cases "key_ref_to_json cd (e_key_ref e)")
      case (Inl m)
      with Some db show ?thesis by (simp add: sqlite_put_envelope_def)
    next
      case (Inr j)
      let ?new = "record_row_of cd a (n + 1) j e"
      have "is_i64 (n + 1)" if "n < i64_max" using that db Some by (simp add: sqlite_typed_def is_i64_def i64_max_def)
      then have "record_typed ?new" if "n < i64_max" using that record_row_typed [OF assms] by blast
      with Some Inr db returned_typed [of "records (tabs db)" ?new sqlite_newer] upsert_typed(2) [of "tabs db" ?new sqlite_newer]
        \<open>n < i64_max \<Longrightarrow> is_i64 (n + 1)\<close>
      show ?thesis
        by (auto simp: sqlite_put_envelope_def checked_upsert_def sqlite_typed_def tables_typed_def option.pred_map comp_def split: prod.split)
    qed
  qed
qed

lemma pg_put_envelope_typed:
  assumes "envelope_typed e"
  shows "yields pg_typed (pred_option is_i64) (pg_put_envelope coll_gt cd a e)"
  unfolding yields_def
proof (intro allI impI)
  fix db
  assume db: "pg_typed db"
  show "pg_typed (snd (pg_put_envelope coll_gt cd a e db)) \<and> pred_sum (\<lambda>_. True) (pred_option is_i64) (fst (pg_put_envelope coll_gt cd a e db))"
  proof (cases "key_ref_to_json cd (e_key_ref e)")
    case (Inl m)
    with db show ?thesis by (simp add: pg_put_envelope_def)
  next
    case (Inr j)
    show ?thesis
    proof (cases "pg_nextval (record_seq db)")
      case (Inl m)
      with \<open>_ = Inr j\<close> db show ?thesis by (simp add: pg_put_envelope_def)
    next
      case q: (Inr q)
      let ?new = "record_row_of cd a q j e"
      have i: "is_i64 q"
        using q db by (auto simp: pg_nextval_def pg_typed_def is_i64_def i64_max_def split: option.splits if_splits)
      then have "record_typed ?new" using record_row_typed [OF assms] by blast
      with q Inr i db returned_typed [of "records (pg_tabs db)" ?new "pg_newer coll_gt"]
        upsert_typed(2) [of "pg_tabs db" ?new "pg_newer coll_gt"]
      show ?thesis
        by (auto simp: pg_put_envelope_def checked_upsert_def pg_typed_def tables_typed_def option.pred_map comp_def split: prod.split)
    qed
  qed
qed

interpretation sqlite_types: typed_store "sqlite_store cd" sqlite_typed
proof
  fix e a
  show "yields sqlite_typed (pred_option is_i64) (s_put_envelope (sqlite_store cd) a e)" if "envelope_typed e"
    using sqlite_put_envelope_typed [OF that] by (simp add: sqlite_store_def)
qed (auto simp: yields_def sqlite_store_def sqlite_defs sqlite_read_defs sqlite_typed_def queries_typed rows_typed upsert_typed
    Let_def delete_returning_def checked_upsert_def bind_op_def ok_or_def ok_op_def err_op_def split_beta split: option.split sum.split)

interpretation pg_types: typed_store "pg_store coll_gt cd" pg_typed
proof
  fix e a
  show "yields pg_typed (pred_option is_i64) (s_put_envelope (pg_store coll_gt cd) a e)" if "envelope_typed e"
    using pg_put_envelope_typed [OF that] by (simp add: pg_store_def)
qed (auto simp: yields_def pg_store_def pg_create_account_def pg_rewrap_account_def pg_put_token_def pg_consume_token_def
    pg_revoke_account_tokens_def pg_put_share_def pg_delete_share_def pg_touch_device_def pg_account_by_id_def pg_account_by_email_def
    pg_take_token_def pg_pull_def pg_max_seq_def pg_shares_eq pg_share_owner_def
    pg_can_write_group_def pg_devices_def pg_typed_def queries_typed rows_typed upsert_typed
    Let_def delete_returning_def checked_upsert_def bind_op_def ok_or_def ok_op_def err_op_def split_beta split: option.split sum.split)

text \<open>C18: requests preserve the types of the integers. From tables and a counter whose integers are \<^verbatim>\<open>i64\<close>, a
  request whose cursor and envelopes are leaves tables and a counter whose integers are, and every integer of its
  reply (sequence numbers, cursors, clocks, sort keys, time stamps, seconds) is one too. It holds on both stores, with any clock readings,
  and on Postgres under any collation. So the integers the model does not wrap need no wrapping.\<close>

theorem requests_preserve_integer_types:
  assumes "call_typed call" "is_i64 (cf_access_ttl_secs cf)"
  shows "(sqlite_typed (ap_db ap) \<longrightarrow>
      sqlite_typed (ap_db (snd (handle (sqlite_server cf lib dummy) rq call ap))) \<and>
      pred_sum (\<lambda>_. True) reply_typed (fst (handle (sqlite_server cf lib dummy) rq call ap))) \<and>
    (pg_typed (ap_db ap') \<longrightarrow>
      pg_typed (ap_db (snd (handle (pg_server coll_gt cf lib dummy) rq call ap'))) \<and>
      pred_sum (\<lambda>_. True) reply_typed (fst (handle (pg_server coll_gt cf lib dummy) rq call ap')))"
  using sqlite_types.handle_typed [of "sqlite_server cf lib dummy" "lib_codec lib" call rq]
    pg_types.handle_typed [of "pg_server coll_gt cf lib dummy" coll_gt "lib_codec lib" call rq] assms
  by (simp add: yields_def)

theorem requests_preserve_integer_types_witness:
  "sqlite_typed (ap_db (snd (handle sample_server sample_request (Push \<lparr>pq_envelopes = [sample_envelope\<lparr>e_sort := i64_max\<rparr>]\<rparr>) sample_app))) \<and>
   pg_typed (ap_db (snd (handle (pg_server c_collation open_config sample_lib []) sample_request (Pull i64_max)
     \<lparr>ap_db = fresh_pg, ap_limit = auth_limit\<rparr>)))"
proof -
  have cf: "is_i64 (cf_access_ttl_secs open_config)" by (simp add: open_config_def default_config_def is_i64_def)
  have "sqlite_typed (ap_db sample_app)" "pg_typed fresh_pg"
    by (simp_all add: sqlite_typed_def pg_typed_def tables_typed_def sample_app_def fresh_pg_def no_tables_def is_i64_def)
  moreover have "call_typed (Push \<lparr>pq_envelopes = [sample_envelope\<lparr>e_sort := i64_max\<rparr>]\<rparr>)" "call_typed (Pull i64_max)"
    by (simp_all add: envelope_typed_def sample_envelope_def is_i64_def i64_max_def)
  ultimately show ?thesis
    using requests_preserve_integer_types [OF _ cf] unfolding sample_server_def by (metis app.select_convs(1))
qed

end
