(* ===== verification/End_To_End.thy ===== *)
theory End_To_End
  imports Credentials Sessions Routes_Shares
begin

text \<open>
  From one device to another: what a client seals, sends through the handlers and opens on the other side. Each property joins
  the client's part (\<^verbatim>\<open>crypto.rs\<close>) with the server's (\<^verbatim>\<open>server/src/routes\<close>). Byte strings travel in base64, as the comments of
  \<^verbatim>\<open>api.rs\<close> have it; with which associated data a client seals its key material is the client's choice, and here any.
\<close>

section \<open>The key material of an account\<close>

text \<open>A blob is a seal of some bytes, or opens to them.\<close>

definition seals :: "codec \<Rightarrow> primitives \<Rightarrow> bytes \<Rightarrow> bytes \<Rightarrow> bytes \<Rightarrow> sealed_blob \<Rightarrow> bool" where
  "seals cd pr key ad m blob \<longleftrightarrow>
     (case (b64_decode cd (sb_nonce blob), b64_decode cd (sb_ciphertext blob)) of
        (Inr n, Inr c) \<Rightarrow> length n = NONCE_LEN \<and> seal pr n key ad m = Inr (n, c)
      | _ \<Rightarrow> False)"

definition opens :: "codec \<Rightarrow> primitives \<Rightarrow> bytes \<Rightarrow> bytes \<Rightarrow> sealed_blob \<Rightarrow> bytes \<Rightarrow> bool" where
  "opens cd pr key ad blob m \<longleftrightarrow>
     (case (b64_decode cd (sb_nonce blob), b64_decode cd (sb_ciphertext blob)) of
        (Inr n, Inr c) \<Rightarrow> unseal pr key ad n c = Inr m
      | _ \<Rightarrow> False)"

lemma seals_opens: "aead_ok pr \<Longrightarrow> seals cd pr key ad m blob \<Longrightarrow> opens cd pr key ad blob m"
  by (auto simp: seals_def opens_def unseal_Inr NONCE_LEN_def dest: seal_Inr split: prod.splits sum.splits)

text \<open>The key material of an account holds its secret and its personal key, each sealed under the wrapping key; base64 has no dot.\<close>

definition vault_sealed ::
  "codec \<Rightarrow> primitives \<Rightarrow> account_keys \<Rightarrow> bytes \<times> bytes \<Rightarrow> bytes \<times> bytes \<Rightarrow> string \<Rightarrow> key_material \<Rightarrow> bool" where
  "vault_sealed cd pr ks ads held auth km \<longleftrightarrow> auth = b64_encode cd (ak_auth ks) \<and>
     seals cd pr (ak_wrap ks) (fst ads) (fst held) (km_wrapped_account_secret km) \<and>
     seals cd pr (ak_wrap ks) (snd ads) (snd held) (km_wrapped_personal_key km) \<and>
     CHR ''.'' \<notin> set (sb_nonce (km_wrapped_account_secret km)) \<and> CHR ''.'' \<notin> set (sb_nonce (km_wrapped_personal_key km))"

definition vault_opens ::
  "codec \<Rightarrow> primitives \<Rightarrow> account_keys \<Rightarrow> bytes \<times> bytes \<Rightarrow> key_material \<Rightarrow> bytes \<times> bytes \<Rightarrow> bool" where
  "vault_opens cd pr ks ads km held \<longleftrightarrow>
     opens cd pr (ak_wrap ks) (fst ads) (km_wrapped_account_secret km) (fst held) \<and>
     opens cd pr (ak_wrap ks) (snd ads) (km_wrapped_personal_key km) (snd held)"

lemma vault_sealedD:
  assumes "vault_sealed cd pr ks ads held auth km"
  shows "auth = b64_encode cd (ak_auth ks)"
    and "CHR ''.'' \<notin> set (sb_nonce (km_wrapped_account_secret km))" "CHR ''.'' \<notin> set (sb_nonce (km_wrapped_personal_key km))"
    and "aead_ok pr \<Longrightarrow> vault_opens cd pr ks ads km held"
  using assms by (simp_all add: vault_sealed_def vault_opens_def seals_opens)

lemma vault_opens_public [simp]: "vault_opens cd pr ks ads (km\<lparr>km_account_public := p\<rparr>) held = vault_opens cd pr ks ads km held"
  by (simp add: vault_opens_def)

lemma same_spelling:
  assumes "is_ascii (trim email)" "to_ascii_lowercase (trim typed) = to_ascii_lowercase (trim email)"
  shows "email_norm cd typed = email_norm cd email"
    and "derive_account_keys pr password typed = derive_account_keys pr password email"
proof -
  have "is_ascii (trim typed)" using assms by (metis is_ascii_lower)
  then show "email_norm cd typed = email_norm cd email" using assms by (simp add: email_norm_def to_lowercase_def)
  have "account_salt typed = account_salt email" using assms(2) by (simp add: account_salt_eq)
  then show "derive_account_keys pr password typed = derive_account_keys pr password email"
    by (simp add: derive_account_keys_def derive_master_def)
qed

text \<open>C8: the password opens the vault on a new device. An account registers with the keys derived from its password and address,
  its secret and its personal key sealed under the wrapping key. The address is ASCII. On another device the same password and the address,
  typed with any white space around it and any ASCII letter case, derive keys with which a sign-in the limiter admits is answered, and the session
  carries key material that opens, under those keys, to the secret and the personal key of the account. (Outside ASCII two spellings
  can be one account for the server and two keys for the client.)\<close>

theorem password_opens_the_vault:
  assumes "sqlite_inv (lib_codec lib) (ap_db ap)" "hashing_ok lib" "aead_ok pr"
    and "length (rn_auth_salt rq) = 16" "length (rn_recovery_salt rq) = 16"
    and "derive_account_keys pr password (rr_email body) = Inr ks"
    and "vault_sealed (lib_codec lib) pr ks ads held (rr_auth_key body) (rr_key_material body)"
    and "register (sqlite_server cf lib dummy) rq body ap = (Inr s, ap1)" "admitted rq' ap1"
    and "is_ascii (trim (rr_email body))"
    and "to_ascii_lowercase (trim (lr_email lg)) = to_ascii_lowercase (trim (rr_email body))"
    and "derive_account_keys pr password (lr_email lg) = Inr ks'"
    and "lr_auth_key lg = b64_encode (lib_codec lib) (ak_auth ks')"
  shows "\<exists>s' ap2. login (sqlite_server cf lib dummy) rq' lg ap1 = (Inr s', ap2) \<and> ss_account_id s' = ss_account_id s \<and>
    km_account_public (ss_key_material s') = km_account_public (rr_key_material body) \<and>
    vault_opens (lib_codec lib) pr ks' ads (ss_key_material s') held"
proof -
  note v = vault_sealedD [OF assms(7)] and spelt = same_spelling [OF assms(10,11)]
  have ks: "ks' = ks" using assms(6,12) by (simp add: spelt(2))
  have key: "lr_auth_key lg = rr_auth_key body" using assms(13) v(1) ks by simp
  have "sv_store (sqlite_server cf lib dummy) = sqlite_store (lib_codec lib)" "hashing_ok (sv_lib (sqlite_server cf lib dummy))"
    using assms(2) by simp_all
  from sqlite.register_then_login_ok [OF this(1) assms(1,8) this(2) assms(4,5,9) spelt(1) key v(2,3)]
  show ?thesis using v(4) [OF assms(3)] ks by auto
qed

text \<open>C9: a forgotten password is recoverable. An account that registered with a recovery code can be signed in to with the code alone,
  typed in any letter case and with hyphens and spaces anywhere: the session's key material opens, under the keys the code
  derives, to the secret and the personal key. Sealed anew under the keys of another password and sent with a rewrap,
  they are what a sign-in with that password opens afterwards, under the account's unchanged public key.\<close>

theorem forgotten_password_is_recoverable:
  assumes "sqlite_inv (lib_codec lib) (ap_db ap)" "hashing_ok lib" "aead_ok pr"
    and "length (rn_auth_salt rq) = 16" "length (rn_recovery_salt rq) = 16" "length generated = 32"
    and "derive_recovery_keys pr (generate_recovery_code generated) = Inr rk"
    and "vault_sealed (lib_codec lib) pr rk ads held (rr_recovery_auth_key body) (rr_recovery_material body)"
    and "register (sqlite_server cf lib dummy) rq body ap = (Inr s, ap1)"
    and "to_ascii_lowercase (remove_chars ''- '' typed) = to_ascii_lowercase (remove_chars ''- '' (generate_recovery_code generated))"
    and "derive_recovery_keys pr typed = Inr rk'" "rc_recovery_auth_key rc = b64_encode (lib_codec lib) (ak_auth rk')"
    and "admitted rq2 ap1" "email_norm (lib_codec lib) (rc_email rc) = email_norm (lib_codec lib) (rr_email body)"
    and "recover (sqlite_server cf lib dummy) rq2 rc ap1 = (got, ap2)"
    and "length (rn_auth_salt rq3) = 16" "length (rn_recovery_salt rq3) = 16"
    and "fst (caller (sqlite_server cf lib dummy) rq3 ap2) = Inr (ss_account_id s)"
    and "derive_account_keys pr password (rr_email body) = Inr ks"
    and "vault_sealed (lib_codec lib) pr ks ads held (rw_auth_key rw) (rw_key_material rw)"
    and "rewrap (sqlite_server cf lib dummy) rq3 rw ap2 = (res, ap3)"
    and "admitted rq4 ap3" "email_norm (lib_codec lib) (lr_email lg) = email_norm (lib_codec lib) (rr_email body)"
    and "lr_auth_key lg = b64_encode (lib_codec lib) (ak_auth ks)"
  shows "(\<exists>s2. got = Inr s2 \<and> ss_account_id s2 = ss_account_id s \<and> vault_opens (lib_codec lib) pr rk' ads (ss_key_material s2) held) \<and>
    (\<exists>s4 ap4. login (sqlite_server cf lib dummy) rq4 lg ap3 = (Inr s4, ap4) \<and> ss_account_id s4 = ss_account_id s \<and>
       km_account_public (ss_key_material s4) = km_account_public (rr_key_material body) \<and>
       vault_opens (lib_codec lib) pr ks ads (ss_key_material s4) held)"
proof -
  let ?sv = "sqlite_server cf lib dummy"
  have sv: "sv_store ?sv = sqlite_store (lib_codec lib)" and ok: "hashing_ok (sv_lib ?sv)" using assms(2) by simp_all
  note old = vault_sealedD [OF assms(8)] and new = vault_sealedD [OF assms(20)]
  have rk: "rk' = rk" using retyped_code [OF assms(10), of pr] assms(7,11) by simp
  have "rc_recovery_auth_key rc = rr_recovery_auth_key body" using assms(12) old(1) rk by simp
  note regain = sqlite.register_then_recover_ok [OF sv assms(1,9) ok assms(4,5,13,14) this old(2,3)]
  obtain s2 row where s2: "got = Inr s2" "ss_account_id s2 = ss_account_id s"
    "ss_key_material s2 = (rr_recovery_material body)\<lparr>km_account_public := km_account_public (rr_key_material body)\<rparr>"
    and inv2: "sqlite_inv (lib_codec lib) (ap_db ap2)"
    and row: "row \<in> set (accounts (tabs (ap_db ap2)))" "ar_id row = ss_account_id s"
    "ar_email row = email_norm (lib_codec lib) (rr_email body)" "ar_account_public row = km_account_public (rr_key_material body)"
    by (rule regain) (use assms(15) in simp)
  have key: "lr_auth_key lg = rw_auth_key rw" "email_norm (lib_codec lib) (lr_email lg) = ar_email row"
    using assms(23,24) new(1) row(3) by simp_all
  obtain s4 ap4 where "login ?sv rq4 lg ap3 = (Inr s4, ap4)" "ss_account_id s4 = ss_account_id s"
    "ss_key_material s4 = (rw_key_material rw)\<lparr>km_account_public := ar_account_public row\<rparr>"
    by (rule sqlite.rewrap_then_login_ok [OF sv inv2 ok assms(16-18,21) row(1,2) new(2,3) assms(22) key(2,1)])
  with s2 rk old(4) new(4) assms(3) row(4) show ?thesis by auto
qed

text \<open>Concrete runs: the sample cipher seals the key material of one account.\<close>

definition sample_box :: "bytes \<Rightarrow> bytes \<Rightarrow> bytes \<Rightarrow> sealed_blob" where
  "sample_box key ad m = \<lparr>sb_nonce = b64_encode (lib_codec sample_lib) (replicate 24 1),
     sb_ciphertext = b64_encode (lib_codec sample_lib) (sample_tag key (replicate 24 1) ad @ m)\<rparr>"

definition sample_vault :: "bytes \<Rightarrow> key_material" where
  "sample_vault key = \<lparr>km_account_public = ''pk'', km_wrapped_account_secret = sample_box key [1] [7],
     km_wrapped_personal_key = sample_box key [2] [8]\<rparr>"

lemma sample_box_seals:
  "length key = 32 \<Longrightarrow> seals (lib_codec sample_lib) sample_primitives key ad m (sample_box key ad m)"
  by (simp add: seals_def sample_box_def codec_okD [OF sample_lib_ok(1)] NONCE_LEN_def seal_def)
    (simp add: sample_primitives_def)

lemma sample_box_undotted: "CHR ''.'' \<notin> set (sb_nonce (sample_box key ad m))"
proof -
  have "CHR ''.'' \<notin> set (map (\<lambda>w. char_of (unat w)) (replicate 24 (1 :: u8)))" by code_simp
  moreover have "b64_encode (lib_codec sample_lib) b = map (\<lambda>w. char_of (unat w)) b" for b
    by (simp add: sample_lib_def sample_codec_def)
  ultimately show ?thesis by (simp only: sample_box_def sealed_blob.simps simp_thms)
qed

lemma sample_vault_sealed:
  assumes "length key = 32"
  shows "vault_sealed (lib_codec sample_lib) sample_primitives \<lparr>ak_auth = auth, ak_wrap = key\<rparr> ([1], [2]) ([7], [8])
    (b64_encode (lib_codec sample_lib) auth) (sample_vault key)"
  using sample_box_seals [OF assms] sample_box_undotted by (simp add: vault_sealed_def sample_vault_def)

lemma sample_vault_filled: "sb_ciphertext (km_wrapped_personal_key (sample_vault key)) \<noteq> []"
  by (simp add: sample_vault_def sample_box_def sample_lib_def sample_codec_def sample_tag_def)

lemma sample_salts: "length (rn_auth_salt sample_request) = 16" "length (rn_recovery_salt sample_request) = 16"
  "length (rn_auth_salt sample_request3) = 16" "length (rn_recovery_salt sample_request3) = 16"
  by (simp_all add: sample_request_def sample_request3_def)

lemma sample_address: "is_ascii (trim ''ada@x.io'')" "to_ascii_lowercase (trim '' ADA@x.io'') = to_ascii_lowercase (trim ''ada@x.io'')"
  by code_simp+

theorem password_opens_the_vault_witness:
  "\<exists>ks body s ap1 s' ap2. derive_account_keys sample_primitives ''hunter2'' ''ada@x.io'' = Inr ks \<and>
     register sample_server sample_request body sample_app = (Inr s, ap1) \<and>
     login sample_server sample_request \<lparr>lr_email = '' ADA@x.io'', lr_auth_key = b64_encode (lib_codec sample_lib) (ak_auth ks),
       lr_device_id = [], lr_device_name = []\<rparr> ap1 = (Inr s', ap2) \<and>
     vault_opens (lib_codec sample_lib) sample_primitives ks ([1], [2]) (ss_key_material s') ([7], [8])"
proof -
  have short: "length ''hunter2'' < 4294967296" by simp
  obtain auth wrap where ks: "derive_account_keys sample_primitives ''hunter2'' ''ada@x.io'' = Inr \<lparr>ak_auth = auth, ak_wrap = wrap\<rparr>"
    "length auth = 32" "length wrap = 32"
    by (rule derive_account_keys_total [OF sample_primitives_ok(3) short])
  let ?body = "sample_register\<lparr>rr_auth_key := b64_encode (lib_codec sample_lib) auth, rr_key_material := sample_vault wrap\<rparr>"
  let ?lg = "\<lparr>lr_email = '' ADA@x.io'', lr_auth_key = b64_encode (lib_codec sample_lib) auth, lr_device_id = [], lr_device_name = []\<rparr>"
  have body: "validate_email (rr_email ?body) = Inr ()" "sb_ciphertext (km_wrapped_personal_key (rr_recovery_material ?body)) \<noteq> []"
    using validate_sample by (simp_all add: sample_register_def sample_material_def)
  obtain ap1 where reg: "register sample_server sample_request ?body sample_app =
      (Inr (session_for sample_server sample_request (account_from_row (row_on_fresh ?body))), ap1)"
    and lim: "ap_limit ap1 = ap_limit (snd (guard sample_request sample_app))"
    by (rule fresh_registration [OF body])
  have vault: "vault_sealed (lib_codec sample_lib) sample_primitives \<lparr>ak_auth = auth, ak_wrap = wrap\<rparr> ([1], [2]) ([7], [8])
      (rr_auth_key ?body) (rr_key_material ?body)"
    using sample_vault_sealed [OF ks(3)] by simp
  have ks': "derive_account_keys sample_primitives ''hunter2'' '' ADA@x.io'' = Inr \<lparr>ak_auth = auth, ak_wrap = wrap\<rparr>"
    using same_spelling(2) [OF sample_address] ks(1) by simp
  have mail: "rr_email ?body = ''ada@x.io''" by (simp add: sample_register_def)
  obtain s' ap2 where "login sample_server sample_request ?lg ap1 = (Inr s', ap2)"
    "vault_opens (lib_codec sample_lib) sample_primitives \<lparr>ak_auth = auth, ak_wrap = wrap\<rparr> ([1], [2]) (ss_key_material s') ([7], [8])"
    using password_opens_the_vault [OF sample_app_inv sample_lib_ok(3) sample_primitives_ok(1) sample_salts(1,2) _ vault
        reg [unfolded sample_server_def] sample_admitted_again [OF lim, of sample_request], unfolded mail, OF ks(1) sample_address(1),
        of ?lg "\<lparr>ak_auth = auth, ak_wrap = wrap\<rparr>", folded sample_server_def] sample_address(2) ks'
    by auto
  with ks(1) reg show ?thesis
    by (intro exI [of _ "\<lparr>ak_auth = auth, ak_wrap = wrap\<rparr>"] exI [of _ ?body]) auto
qed

lemma sample_tokens_again:
  "put_rows [access_row sample_server sample_request ''u'', refresh_row sample_server sample_request ''u'']
     (put_rows [access_row sample_server sample_request ''u'', refresh_row sample_server sample_request ''u''] []) =
   put_rows [access_row sample_server sample_request ''u'', refresh_row sample_server sample_request ''u''] []"
  by (simp add: put_rows_def upsert_def token_on_conflict_def access_row_def refresh_row_def)

definition sample_regained :: "string \<Rightarrow> bytes \<Rightarrow> register_request" where
  "sample_regained key wrap = sample_register\<lparr>rr_recovery_auth_key := key, rr_recovery_material := sample_vault wrap\<rparr>"

lemma sample_recovery:
  assumes "length wrap = 32"
  obtains s ap1 s2 ap2 where "register sample_server sample_request (sample_regained (b64_encode (lib_codec sample_lib) auth) wrap) sample_app = (Inr s, ap1)"
    "ss_account_id s = ''u''" "admitted sample_request ap1"
    "recover sample_server sample_request \<lparr>rc_email = ''ada@x.io'', rc_recovery_auth_key = b64_encode (lib_codec sample_lib) auth,
       rc_device_id = [], rc_device_name = []\<rparr> ap1 = (Inr s2, ap2)"
    "sqlite_inv (lib_codec sample_lib) (ap_db ap2)" "calm 2 ap2" "fst (caller sample_server sample_request3 ap2) = Inr ''u''"
proof -
  let ?cd = "lib_codec sample_lib" and ?body = "sample_regained (b64_encode (lib_codec sample_lib) auth) wrap"
  let ?s = "session_for sample_server sample_request (account_from_row (row_on_fresh ?body))"
  let ?rc = "\<lparr>rc_email = ''ada@x.io'', rc_recovery_auth_key = b64_encode ?cd auth, rc_device_id = [], rc_device_name = []\<rparr>"
  have body: "validate_email (rr_email ?body) = Inr ()" "sb_ciphertext (km_wrapped_personal_key (rr_recovery_material ?body)) \<noteq> []"
    using validate_sample sample_vault_filled by (simp_all add: sample_regained_def)
  obtain ap1 where reg: "register sample_server sample_request ?body sample_app = (Inr ?s, ap1)"
    and lim: "ap_limit ap1 = ap_limit (snd (guard sample_request sample_app))"
    and toks: "tokens (tabs (ap_db ap1)) = put_rows [access_row sample_server sample_request ''u'', refresh_row sample_server sample_request ''u''] []"
    by (rule fresh_registration [OF body])
  note calm1 = calm_guard [OF calm_start lim]
  have adm1: "admitted sample_request ap1" by (rule calm_admitted [OF calm1]) simp
  have sv: "sv_store sample_server = sqlite_store ?cd" and ok: "hashing_ok (sv_lib sample_server)"
    by (simp_all add: sample_server_def sample_lib_ok)
  have id: "ss_account_id ?s = ''u''" by (simp add: session_for_def account_from_row_def row_on_fresh_def account_row_of_def)
  have rc: "email_norm ?cd (rc_email ?rc) = email_norm ?cd (rr_email ?body)" "rc_recovery_auth_key ?rc = rr_recovery_auth_key ?body"
    by (simp_all add: sample_regained_def sample_register_def)
  have dots: "CHR ''.'' \<notin> set (sb_nonce (km_wrapped_account_secret (rr_recovery_material ?body)))"
    "CHR ''.'' \<notin> set (sb_nonce (km_wrapped_personal_key (rr_recovery_material ?body)))"
    by (simp_all add: sample_regained_def sample_vault_def sample_box_undotted)
  obtain s2 ap2 row where rec: "recover sample_server sample_request ?rc ap1 = (Inr s2, ap2)" "ss_account_id s2 = ss_account_id ?s"
    "ss_key_material s2 = (rr_recovery_material ?body)\<lparr>km_account_public := km_account_public (rr_key_material ?body)\<rparr>"
    and inv2: "sqlite_inv ?cd (ap_db ap2)" and lim2: "ap_limit ap2 = ap_limit (snd (guard sample_request ap1))"
    and row: "row \<in> set (accounts (tabs (ap_db ap2)))" "ar_id row = ss_account_id ?s" "ar_email row = email_norm ?cd (rr_email ?body)"
      "ar_account_public row = km_account_public (rr_key_material ?body)"
    and toks2: "tokens (tabs (ap_db ap2)) = put_rows [access_row sample_server sample_request (ar_id row),
      refresh_row sample_server sample_request (ar_id row)] (tokens (tabs (ap_db ap1)))"
    by (rule sqlite.register_then_recover_ok [OF sv sample_app_inv reg ok sample_salts(1,2) adm1 rc dots])
  have "tokens (tabs (ap_db ap2)) = put_rows [access_row sample_server sample_request ''u'', refresh_row sample_server sample_request ''u''] []"
    by (simp only: toks2 toks row(2) id sample_tokens_again)
  from sample_caller [OF inv2 this] show ?thesis
    using that [OF reg id adm1 rec(1) inv2] calm_guard [OF calm1 lim2] by (simp add: numeral_2_eq_2)
qed

text \<open>The code in lower case, with spaces for hyphens.\<close>

abbreviation sample_bytes :: bytes where
  "sample_bytes \<equiv> replicate 5 0 @ replicate 5 33 @ replicate 22 0"

theorem forgotten_password_is_recoverable_witness:
  "\<exists>rk ks body s ap1 s2 ap2 rw ap3 s4 ap4.
     derive_recovery_keys sample_primitives ''aaaaa bbbbb aaaaa aaaaa'' = Inr rk \<and>
     derive_account_keys sample_primitives ''hunter3'' ''ada@x.io'' = Inr ks \<and>
     register sample_server sample_request body sample_app = (Inr s, ap1) \<and>
     recover sample_server sample_request \<lparr>rc_email = ''ada@x.io'', rc_recovery_auth_key = b64_encode (lib_codec sample_lib) (ak_auth rk),
       rc_device_id = [], rc_device_name = []\<rparr> ap1 = (Inr s2, ap2) \<and>
     rewrap sample_server sample_request3 rw ap2 = (Inr (), ap3) \<and>
     login sample_server sample_request \<lparr>lr_email = ''ada@x.io'', lr_auth_key = b64_encode (lib_codec sample_lib) (ak_auth ks),
       lr_device_id = [], lr_device_name = []\<rparr> ap3 = (Inr s4, ap4) \<and>
     vault_opens (lib_codec sample_lib) sample_primitives rk ([1], [2]) (ss_key_material s2) ([7], [8]) \<and>
     vault_opens (lib_codec sample_lib) sample_primitives ks ([1], [2]) (ss_key_material s4) ([7], [8])"
proof -
  let ?code = "generate_recovery_code sample_bytes" and ?typed = "''aaaaa bbbbb aaaaa aaaaa''" and ?cd = "lib_codec sample_lib"
  have g: "length sample_bytes = 32" by simp
  have typed: "to_ascii_lowercase (remove_chars ''- '' ?typed) = to_ascii_lowercase (remove_chars ''- '' ?code)" by code_simp
  have short: "length ?code < 4294967296" "length ''hunter3'' < 4294967296" by (simp_all add: code_length [OF g])
  obtain ra rw where rk: "derive_recovery_keys sample_primitives ?code = Inr \<lparr>ak_auth = ra, ak_wrap = rw\<rparr>" "length ra = 32" "length rw = 32"
    by (rule derive_recovery_keys_total [OF sample_primitives_ok(3) short(1)])
  obtain na nw where ks: "derive_account_keys sample_primitives ''hunter3'' ''ada@x.io'' = Inr \<lparr>ak_auth = na, ak_wrap = nw\<rparr>"
    "length na = 32" "length nw = 32"
    by (rule derive_account_keys_total [OF sample_primitives_ok(3) short(2)])
  have rk': "derive_recovery_keys sample_primitives ?typed = Inr \<lparr>ak_auth = ra, ak_wrap = rw\<rparr>"
    using retyped_code [OF typed] rk(1) by simp
  let ?body = "sample_regained (b64_encode ?cd ra) rw"
  let ?rc = "\<lparr>rc_email = ''ada@x.io'', rc_recovery_auth_key = b64_encode ?cd ra, rc_device_id = [], rc_device_name = []\<rparr>"
  let ?rw = "\<lparr>rw_auth_key = b64_encode ?cd na, rw_key_material = sample_vault nw, rw_recovery_auth_key = ''c2'',
      rw_recovery_material = sample_material ''new''\<rparr>"
  let ?lg = "\<lparr>lr_email = ''ada@x.io'', lr_auth_key = b64_encode ?cd na, lr_device_id = [], lr_device_name = []\<rparr>"
  obtain s ap1 s2 ap2 where reg: "register sample_server sample_request ?body sample_app = (Inr s, ap1)" "ss_account_id s = ''u''"
    and adm1: "admitted sample_request ap1" and rec: "recover sample_server sample_request ?rc ap1 = (Inr s2, ap2)"
    and inv2: "sqlite_inv ?cd (ap_db ap2)" and calm2: "calm 2 ap2" and c: "fst (caller sample_server sample_request3 ap2) = Inr ''u''"
    by (rule sample_recovery [OF rk(3)])
  have sv: "sv_store sample_server = sqlite_store ?cd" by (simp add: sample_server_def)
  have h: "hash_auth_key (sv_lib sample_server) (rn_auth_salt sample_request3) (rw_auth_key ?rw) = Inr (CHR ''$'' # b64_encode ?cd na)"
    "hash_auth_key (sv_lib sample_server) (rn_recovery_salt sample_request3) (rw_recovery_auth_key ?rw) = Inr ''$c2''"
    by (simp_all add: sample_server_def sample_hashes)
  obtain ap3 where rew: "rewrap sample_server sample_request3 ?rw ap2 = (Inr (), ap3)" and lim3: "ap_limit ap3 = ap_limit ap2"
    by (rule sqlite.rewrap_ok [OF sv inv2 c h])
  have "calm 2 ap3" using calm2 by (simp add: calm_def lim3)
  then have adm: "admitted sample_request ap3" by (rule calm_admitted) simp
  have vaults: "vault_sealed ?cd sample_primitives \<lparr>ak_auth = ra, ak_wrap = rw\<rparr> ([1], [2]) ([7], [8])
      (rr_recovery_auth_key ?body) (rr_recovery_material ?body)"
    "vault_sealed ?cd sample_primitives \<lparr>ak_auth = na, ak_wrap = nw\<rparr> ([1], [2]) ([7], [8]) (rw_auth_key ?rw) (rw_key_material ?rw)"
    using sample_vault_sealed [OF rk(3)] sample_vault_sealed [OF ks(3)] by (simp_all add: sample_regained_def)
  have mail: "rr_email ?body = ''ada@x.io''" by (simp add: sample_regained_def sample_register_def)
  have rc: "email_norm ?cd (rc_email ?rc) = email_norm ?cd (rr_email ?body)" by (simp add: mail)
  have "vault_opens ?cd sample_primitives \<lparr>ak_auth = ra, ak_wrap = rw\<rparr> ([1], [2]) (ss_key_material s2) ([7], [8]) \<and>
    (\<exists>s4 ap4. login sample_server sample_request ?lg ap3 = (Inr s4, ap4) \<and>
       vault_opens ?cd sample_primitives \<lparr>ak_auth = na, ak_wrap = nw\<rparr> ([1], [2]) (ss_key_material s4) ([7], [8]))"
    using forgotten_password_is_recoverable [OF sample_app_inv sample_lib_ok(3) sample_primitives_ok(1) sample_salts(1,2) g rk(1) vaults(1)
        reg(1) [unfolded sample_server_def] typed rk' _ adm1 rc rec [unfolded sample_server_def] sample_salts(3,4) _ _ vaults(2)
        rew [unfolded sample_server_def] adm, of "''hunter3''" ?lg, unfolded mail, folded sample_server_def] c ks(1) reg(2)
    by auto
  with rk' ks(1) reg(1) rec rew show ?thesis
    by (intro exI [of _ "\<lparr>ak_auth = ra, ak_wrap = rw\<rparr>"] exI [of _ "\<lparr>ak_auth = na, ak_wrap = nw\<rparr>"] exI [of _ ?body]) auto
qed

section \<open>Records\<close>

text \<open>Who finds an envelope on pull: the account it is filed under, and the members of the group it names.\<close>

definition finds :: "tables \<Rightarrow> string \<Rightarrow> envelope \<Rightarrow> string \<Rightarrow> bool" where
  "finds t a e b \<longleftrightarrow> push_target t a e = Some b \<or> (case e_group_id e of None \<Rightarrow> False | Some g \<Rightarrow> shared_with t g b)"

lemma finds_records [simp]: "finds (t\<lparr>records := rs\<rparr>) a e b = finds t a e b"
  by (simp add: finds_def shared_with_def split: option.split)

lemma finds_visible: "finds t a e b \<Longrightarrow> push_target t a e = Some x \<Longrightarrow> visible t b (pushed_row cd x q e)"
  by (auto simp: finds_def visible_def split: option.splits)

lemma accepted_in:
  assumes "x \<in> set (concat (map accepted_of (zip es vs)))"
  obtains d where "(d, AcceptedAt (ac_seq x)) \<in> set (zip es vs)" "ac_id x = e_id d" "ac_kind x = as_str (e_kind d)"
  using assms that by (force simp: accepted_of_def split: verdict.splits)

text \<open>An accepted envelope is on the pages of whoever finds it, from any cursor handed out before.\<close>

context store_contract
begin

lemma accepted_then_pull:
  assumes sv: "sv_store sv = st" and inv: "inv (ap_db ap)"
    and callers: "fst (caller sv rqa ap) = Inr a" "fst (caller sv rqb ap) = Inr b"
    and sane: "0 < cf_max_page (sv_config sv)" "cf_max_page (sv_config sv) < i64_max"
    and len: "counter (ap_db ap) + int (length (pq_envelopes body)) \<le> i64_max"
    and push: "push sv rqa body ap = (Inr resp, ap1)"
    and batch: "distinct (map (\<lambda>e. (e_kind e, e_id e)) (pq_envelopes body))" "e \<in> set (pq_envelopes body)"
    and acc: "x \<in> set (ps_accepted resp)" "ac_id x = e_id e" "ac_kind x = as_str (e_kind e)"
    and sees: "finds (tab (ap_db ap)) a e b" and cursor: "c \<le> counter (ap_db ap)"
    and m: "0 < m" "length (records (tab (ap_db ap1))) \<le> m * nat (cf_max_page (sv_config sv))"
  obtains es c2 where "pull_loop m sv rqb c ap1 = Some (Inr (es, c2))" "e\<lparr>e_seq := ac_seq x\<rparr> \<in> set es"
proof -
  let ?t = "tab (ap_db ap)" and ?q = "counter (ap_db ap)"
  obtain vs t' q' where run: "push_run newer cd (sv_config sv) a (now_ms (rn_store rqa)) (pq_envelopes body) (?t, ?q) = (vs, t', q')"
    by (metis prod_cases3)
  obtain resp' ap' where p: "push sv rqa body ap = (Inr resp', ap')" "inv (ap_db ap')" "tab (ap_db ap') = t'"
    "ps_accepted resp' = concat (map accepted_of (zip (pq_envelopes body) vs))"
    by (rule push_ok [OF sv inv callers(1) len run])
  have eq: "resp' = resp" "ap' = ap1" using p(1) push by simp_all
  have t': "t' = ?t\<lparr>records := records t'\<rparr>" using push_run_records [OF run] by blast
  from acc(1) have "x \<in> set (concat (map accepted_of (zip (pq_envelopes body) vs)))" using p(4) eq(1) by simp
  then obtain d where d: "(d, AcceptedAt (ac_seq x)) \<in> set (zip (pq_envelopes body) vs)" "ac_id x = e_id d" "ac_kind x = as_str (e_kind d)"
    by (rule accepted_in)
  have "d \<in> set (pq_envelopes body)" using d(1) by (rule set_zip_leftD)
  moreover have "(e_kind d, e_id d) = (e_kind e, e_id e)" using d acc by simp
  ultimately have de: "d = e" using batch by (auto simp: distinct_map inj_on_def)
  obtain y where y: "?q < ac_seq x" "push_target ?t a e = Some y" "pushed_row cd y (ac_seq x) e \<in> set (records t')"
    using push_run_accepted [OF run batch(1) d(1)] de by blast
  let ?row = "pushed_row cd y (ac_seq x) e"
  have "visible ?t b ?row" by (rule finds_visible [OF sees y(2)])
  then have "visible t' b ?row" by (subst t') simp
  then have row: "?row \<in> set (log_after t' b c)" using y cursor by (simp add: set_log_after)
  have caller: "fst (caller sv rqb ap1) = Inr b"
  proof -
    have "tokens (tab (ap_db ap1)) = tokens ?t" using p(3) t' eq(2) by (metis tables.ext_inject tables.surjective tables.update_convs(3))
    from caller_tokens [OF sv this] callers(2) show ?thesis by simp
  qed
  have tab1: "inv (ap_db ap1)" "tab (ap_db ap1) = t'" using p(2,3) eq(2) by simp_all
  have "length (log_after t' b c) \<le> m * nat (cf_max_page (sv_config sv))"
    using m(2) unfolding tab1(2) using length_log_after by (rule order_trans [rotated])
  note pages = pull_loop_ok [OF sv tab1(1) caller sane m(1), unfolded tab1(2), OF this]
  have "row_envelope cd ?row = e\<lparr>e_seq := ac_seq x\<rparr>"
    by (simp add: row_envelope_def pushed_row_decodes [OF inv_codec [OF inv]])
  with row have "e\<lparr>e_seq := ac_seq x\<rparr> \<in> set (map (row_envelope cd) (log_after t' b c))" by (metis image_eqI list.set_map)
  with pages show ?thesis by (rule that)
qed

end

lemma aad_seq [simp]: "aad (e\<lparr>e_seq := q\<rparr>) = aad e"
  by (simp add: aad_def)

lemma sealed_json_opens:
  assumes "aead_ok pr" "to_vec v = Inr j" "from_slice j = Inr v" "length (e_nonce e) = 24"
    and "seal_json to_vec pr (e_nonce e) key (aad e) v = Inr (e_nonce e, e_ciphertext e)"
  shows "open_json from_slice pr key (aad e) (e_nonce e) (e_ciphertext e) = Inr v"
proof -
  have "seal pr (e_nonce e) key (aad e) j = Inr (e_nonce e, e_ciphertext e)" using assms(2,5) by (simp add: seal_json_def)
  with assms(1,4) have "unseal pr key (aad e) (e_nonce e) (e_ciphertext e) = Inr j" by (auto simp: unseal_Inr dest: seal_Inr)
  then show ?thesis using assms(3) by (simp add: open_json_def)
qed

text \<open>C6: a record reaches every device that may read it. A payload sealed as JSON for an envelope, which a push of a batch of
  different records accepts, comes back on the pages of every account that finds it, the one it is filed under and each member of the
  group it names, from any cursor handed out before the push: under the number the push answered with, and opening
  with the same key to the payload.\<close>

theorem accepted_record_opens_elsewhere:
  assumes "sqlite_inv (lib_codec lib) (ap_db ap)" "aead_ok pr"
    and "fst (caller (sqlite_server cf lib dummy) rqa ap) = Inr a" "fst (caller (sqlite_server cf lib dummy) rqb ap) = Inr b"
    and "0 < cf_max_page cf" "cf_max_page cf < i64_max"
    and "sqlite_counter (ap_db ap) + int (length (pq_envelopes body)) \<le> i64_max"
    and "e \<in> set (pq_envelopes body)" "distinct (map (\<lambda>e. (e_kind e, e_id e)) (pq_envelopes body))"
    and "to_vec v = Inr j" "from_slice j = Inr v" "length (e_nonce e) = 24"
    and "seal_json to_vec pr (e_nonce e) key (aad e) v = Inr (e_nonce e, e_ciphertext e)"
    and "push (sqlite_server cf lib dummy) rqa body ap = (Inr resp, ap1)"
    and "x \<in> set (ps_accepted resp)" "ac_id x = e_id e" "ac_kind x = as_str (e_kind e)"
    and "finds (tabs (ap_db ap)) a e b" "c \<le> sqlite_counter (ap_db ap)"
    and "0 < m" "length (records (tabs (ap_db ap1))) \<le> m * nat (cf_max_page cf)"
  shows "\<exists>es c2 e'. pull_loop m (sqlite_server cf lib dummy) rqb c ap1 = Some (Inr (es, c2)) \<and> e' \<in> set es \<and>
    e_id e' = e_id e \<and> e_seq e' = ac_seq x \<and>
    open_json from_slice pr key (aad e') (e_nonce e') (e_ciphertext e') = Inr v"
proof -
  let ?sv = "sqlite_server cf lib dummy"
  have sv: "sv_store ?sv = sqlite_store (lib_codec lib)" "0 < cf_max_page (sv_config ?sv)" "cf_max_page (sv_config ?sv) < i64_max"
    and m: "length (records (tabs (ap_db ap1))) \<le> m * nat (cf_max_page (sv_config ?sv))"
    using assms(5,6,21) by simp_all
  obtain es c2 where "pull_loop m ?sv rqb c ap1 = Some (Inr (es, c2))" "e\<lparr>e_seq := ac_seq x\<rparr> \<in> set es"
    by (rule sqlite.accepted_then_pull [OF sv(1) assms(1,3,4) sv(2,3) assms(7,14,9,8,15-20) m])
  with sealed_json_opens [of pr to_vec v j from_slice e key, OF assms(2,10-13)] show ?thesis by (intro exI [of _ "e\<lparr>e_seq := ac_seq x\<rparr>"] exI [of _ es] exI [of _ c2]) simp
qed

text \<open>Ada files a sealed record in the group she shares with Bob.\<close>

definition sealed_envelope :: "string \<Rightarrow> envelope" where
  "sealed_envelope g =
     (let e = sample_envelope\<lparr>e_key_ref := GroupKey g, e_group_id := Some g, e_updated_at := 500, e_nonce := replicate 24 1\<rparr>
      in e\<lparr>e_ciphertext := sample_tag (replicate 32 9) (replicate 24 1) (aad e) @ as_bytes ''dark''\<rparr>)"

definition sample_setting :: setting_payload where
  "sample_setting = \<lparr>sp_key = ''theme'', sp_value = ''dark''\<rparr>"

definition sample_to_vec :: "setting_payload \<Rightarrow> string + bytes" where
  "sample_to_vec v = Inr (as_bytes (sp_value v))"

definition sample_from_slice :: "bytes \<Rightarrow> string + setting_payload" where
  "sample_from_slice b = (if b = as_bytes ''dark'' then Inr sample_setting else Inl ''eof'')"

lemma sealed_envelope_fields:
  "e_key_ref (sealed_envelope g) = GroupKey g" "e_group_id (sealed_envelope g) = Some g" "length (e_nonce (sealed_envelope g)) = 24"
  "e_kind (sealed_envelope g) = Host" "e_id (sealed_envelope g) = ''h1''" "e_updated_at (sealed_envelope g) = 500"
  "length (e_ciphertext (sealed_envelope g)) < 1000"
  by (simp_all add: sealed_envelope_def Let_def sample_envelope_def)
    (simp add: sample_tag_def aad_def as_bytes_def i64_to_be_bytes_def)

lemma sealed_envelope_sealed:
  "seal_json sample_to_vec sample_primitives (e_nonce (sealed_envelope g)) (replicate 32 9) (aad (sealed_envelope g)) sample_setting =
     Inr (e_nonce (sealed_envelope g), e_ciphertext (sealed_envelope g))"
  by (simp add: seal_json_def sample_to_vec_def sample_setting_def sample_seal sealed_envelope_def Let_def aad_def)

lemma sealed_envelope_run:
  assumes "shares t = ss @ [s]" "sh_group_id s = g" "list_all (\<lambda>s. sh_group_id s \<noteq> g) ss" "sh_owner_id s = a" "records t = []"
  shows "push_run sqlite_newer cd default_config a 1000 [sealed_envelope g] (t, q) =
     ([AcceptedAt (q + 1)], t\<lparr>records := [pushed_row cd a (q + 1) (sealed_envelope g)]\<rparr>, q + 1)"
proof -
  have "find (\<lambda>s. sh_group_id s = g) (ss @ [s]) = Some s" using assms(2,3) by (induction ss) auto
  with assms sealed_envelope_fields [of g] show ?thesis
    by (simp add: push_spec_def refuse_def clock_is_plausible_def max_clock_skew_ms_def push_target_def is_i64_def
        group_shared_def in_group_def group_owner_def default_config_def upsert_def)
qed

lemma sealed_envelope_push:
  assumes inv: "sqlite_inv (lib_codec sample_lib) (ap_db ap)" and c: "fst (caller demo_server ada ap) = Inr a"
    and t: "shares (tabs (ap_db ap)) = ss @ [s]" "sh_group_id s = g" "list_all (\<lambda>s. sh_group_id s \<noteq> g) ss" "sh_owner_id s = a"
      "records (tabs (ap_db ap)) = []" and q: "sqlite_counter (ap_db ap) < i64_max"
  obtains resp ap1 where "push demo_server ada \<lparr>pq_envelopes = [sealed_envelope g]\<rparr> ap = (Inr resp, ap1)"
    "ps_accepted resp = [\<lparr>ac_id = ''h1'', ac_kind = ''host'', ac_seq = sqlite_counter (ap_db ap) + 1\<rparr>]"
    "length (records (tabs (ap_db ap1))) = 1"
proof -
  have sv: "sv_store demo_server = sqlite_store (lib_codec sample_lib)" by (simp add: demo_server_def)
  have now: "now_ms (rn_store ada) = 1000" by (simp add: ada_def sample_request_def now_ms_def is_i64_def)
  have run: "push_run sqlite_newer (lib_codec sample_lib) (sv_config demo_server) a (now_ms (rn_store ada))
      (pq_envelopes \<lparr>pq_envelopes = [sealed_envelope g]\<rparr>) (tabs (ap_db ap), sqlite_counter (ap_db ap)) =
    ([AcceptedAt (sqlite_counter (ap_db ap) + 1)], (tabs (ap_db ap))\<lparr>records :=
      [pushed_row (lib_codec sample_lib) a (sqlite_counter (ap_db ap) + 1) (sealed_envelope g)]\<rparr>, sqlite_counter (ap_db ap) + 1)"
    using sealed_envelope_run [OF t] by (simp add: now demo_server_def)
  have len: "sqlite_counter (ap_db ap) + int (length (pq_envelopes \<lparr>pq_envelopes = [sealed_envelope g]\<rparr>)) \<le> i64_max" using q by simp
  obtain resp ap1 where "push demo_server ada \<lparr>pq_envelopes = [sealed_envelope g]\<rparr> ap = (Inr resp, ap1)"
    "tabs (ap_db ap1) = (tabs (ap_db ap))\<lparr>records :=
      [pushed_row (lib_codec sample_lib) a (sqlite_counter (ap_db ap) + 1) (sealed_envelope g)]\<rparr>"
    "ps_accepted resp = concat (map accepted_of (zip (pq_envelopes \<lparr>pq_envelopes = [sealed_envelope g]\<rparr>) [AcceptedAt (sqlite_counter (ap_db ap) + 1)]))"
    using sqlite.push_ok [OF sv inv c len run] by metis
  then show ?thesis by (intro that [of resp ap1]) (simp_all add: accepted_of_def sealed_envelope_fields)
qed

theorem accepted_record_opens_elsewhere_witness:
  "\<exists>resp ap1 es c2 e'. push demo_server ada \<lparr>pq_envelopes = [sealed_envelope ''g1'']\<rparr> shared_app = (Inr resp, ap1) \<and>
     pull_loop 1 demo_server bob 0 ap1 = Some (Inr (es, c2)) \<and> e' \<in> set es \<and>
     open_json sample_from_slice sample_primitives (replicate 32 9) (aad e') (e_nonce e') (e_ciphertext e') = Inr sample_setting"
proof -
  let ?body = "\<lparr>pq_envelopes = [sealed_envelope ''g1'']\<rparr>"
  have t: "shares (tabs (ap_db shared_app)) = [] @ [\<lparr>sh_group_id = ''g1'', sh_owner_id = ''u'', sh_user_id = ''v'', sh_wrapped_group_key = ''w'', sh_created_at = 1\<rparr>]"
    "records (tabs (ap_db shared_app)) = []" and q: "sqlite_counter (ap_db shared_app) = 7"
    by (simp_all add: shared_app_def shared_tables_def sqlite_counter_def)
  obtain resp ap1 where p: "push demo_server ada ?body shared_app = (Inr resp, ap1)"
    "ps_accepted resp = [\<lparr>ac_id = ''h1'', ac_kind = ''host'', ac_seq = sqlite_counter (ap_db shared_app) + 1\<rparr>]"
    "length (records (tabs (ap_db ap1))) = 1"
    by (rule sealed_envelope_push [OF shared_app_inv shared_callers(1) t(1) _ _ _ t(2)]) (simp_all add: q i64_max_def)
  have "finds (tabs (ap_db shared_app)) ''u'' (sealed_envelope ''g1'') ''v''"
    by (simp add: finds_def sealed_envelope_fields shared_with_def t)
  then have "\<exists>es c2 e'. pull_loop 1 demo_server bob 0 ap1 = Some (Inr (es, c2)) \<and> e' \<in> set es \<and> e_id e' = e_id (sealed_envelope ''g1'') \<and>
      e_seq e' = ac_seq \<lparr>ac_id = ''h1'', ac_kind = ''host'', ac_seq = sqlite_counter (ap_db shared_app) + 1\<rparr> \<and>
      open_json sample_from_slice sample_primitives (replicate 32 9) (aad e') (e_nonce e') (e_ciphertext e') = Inr sample_setting"
    using p unfolding demo_server_def
    by (intro accepted_record_opens_elsewhere [OF shared_app_inv sample_primitives_ok(1) shared_callers(1,2) [unfolded demo_server_def],
          where body = ?body and to_vec = sample_to_vec and e = "sealed_envelope ''g1''" and resp = resp and j = "as_bytes ''dark''"])
      (simp_all add: default_config_def i64_max_def q sealed_envelope_fields sealed_envelope_sealed,
        simp_all add: sample_to_vec_def sample_from_slice_def sample_setting_def)
  with p(1) show ?thesis by blast
qed

lemma push_frame:
  assumes "sqlite_inv (lib_codec lib) (ap_db ap)" "fst (caller (sqlite_server cf lib dummy) rq ap) = Inr a"
    and "sqlite_counter (ap_db ap) + int (length (pq_envelopes body)) \<le> i64_max"
    and "push (sqlite_server cf lib dummy) rq body ap = (Inr resp, ap1)"
  shows "\<exists>rs. tabs (ap_db ap1) = (tabs (ap_db ap))\<lparr>records := rs\<rparr>"
proof -
  obtain vs t' q' where run: "push_run sqlite_newer (lib_codec lib) (sv_config (sqlite_server cf lib dummy)) a (now_ms (rn_store rq))
      (pq_envelopes body) (tabs (ap_db ap), sqlite_counter (ap_db ap)) = (vs, t', q')"
    by (metis prod_cases3)
  have sv: "sv_store (sqlite_server cf lib dummy) = sqlite_store (lib_codec lib)" by simp
  obtain resp' ap' where "push (sqlite_server cf lib dummy) rq body ap = (Inr resp', ap')" "tabs (ap_db ap') = t'"
    using sqlite.push_ok [OF sv assms(1-3) run] by metis
  with assms(4) push_run_records [OF run] show ?thesis by auto
qed

text \<open>C7: a shared record reaches its member. An account wraps a group key for another account's public key and shares the group; it then
  pushes a record sealed under the group key. The other account lists its shares, unwraps the key it finds there with its own
  secret, pulls, and opens the record with that key: all it uses came from the server, which held the key wrapped and the record sealed.\<close>

theorem shared_record_opens_for_its_member:
  assumes "sqlite_inv (lib_codec lib) (ap_db ap)" "aead_ok pr" "kdf_ok pr" "exchange_ok pr"
    and "fst (caller (sqlite_server cf lib dummy) rqs ap) = Inr a" "fst (caller (sqlite_server cf lib dummy) rqa ap) = Inr a"
    and "fst (caller (sqlite_server cf lib dummy) rqb ap) = Inr (sq_user_id sq)"
    and "0 < cf_max_page cf" "cf_max_page cf < i64_max"
    and "sq_user_id sq \<noteq> a" "has_account (tabs (ap_db ap)) (sq_user_id sq)"
    and "row_at share_key (sq_group_id sq, sq_user_id sq) (shares (tabs (ap_db ap))) = None"
    and "length key = 32" "length n = 24" "wrap_for pr generated n (x25519_public pr secret) key = Inr blob"
    and "sq_wrapped_group_key sq = b64_encode (lib_codec lib) blob"
    and "create_share (sqlite_server cf lib dummy) rqs sq ap = (shared, ap1)"
    and "sqlite_counter (ap_db ap) + int (length (pq_envelopes body)) \<le> i64_max"
    and "e \<in> set (pq_envelopes body)" "distinct (map (\<lambda>e. (e_kind e, e_id e)) (pq_envelopes body))"
    and "e_group_id e = Some (sq_group_id sq)" "to_vec v = Inr j" "from_slice j = Inr v" "length (e_nonce e) = 24"
    and "seal_json to_vec pr (e_nonce e) key (aad e) v = Inr (e_nonce e, e_ciphertext e)"
    and "push (sqlite_server cf lib dummy) rqa body ap1 = (Inr resp, ap2)"
    and "x \<in> set (ps_accepted resp)" "ac_id x = e_id e" "ac_kind x = as_str (e_kind e)"
    and "c \<le> sqlite_counter (ap_db ap)" "0 < m" "length (records (tabs (ap_db ap2))) \<le> m * nat (cf_max_page cf)"
  shows "\<exists>ss sh wrapped k es c2 e'. fst (mine (sqlite_server cf lib dummy) rqb ap2) = Inr ss \<and> sh \<in> set ss \<and>
    sr_group_id sh = sq_group_id sq \<and> sr_owner_id sh = a \<and>
    b64_decode (lib_codec lib) (sr_wrapped_group_key sh) = Inr wrapped \<and> unwrap_with pr secret wrapped = Inr k \<and>
    pull_loop m (sqlite_server cf lib dummy) rqb c ap2 = Some (Inr (es, c2)) \<and> e' \<in> set es \<and> e_id e' = e_id e \<and>
    open_json from_slice pr k (aad e') (e_nonce e') (e_ciphertext e') = Inr v"
proof -
  let ?sv = "sqlite_server cf lib dummy" and ?b = "sq_user_id sq"
  have sv: "sv_store ?sv = sqlite_store (lib_codec lib)" "0 < cf_max_page (sv_config ?sv)" "cf_max_page (sv_config ?sv) < i64_max"
    and m: "length (records (tabs (ap_db ap2))) \<le> m * nat (cf_max_page (sv_config ?sv))"
    using assms(8,9,32) by simp_all
  obtain ap' sh where "create_share ?sv rqs sq ap = (Inr (), ap')" "sqlite_inv (lib_codec lib) (ap_db ap')"
    "tabs (ap_db ap') = (tabs (ap_db ap))\<lparr>shares := shares (tabs (ap_db ap)) @ [shared_row rqs a sq]\<rparr>"
    "sh \<in> set (map share_of (shares_seen (tabs (ap_db ap')) ?b))"
    "sr_group_id sh = sq_group_id sq" "sr_owner_id sh = a" "sr_wrapped_group_key sh = sq_wrapped_group_key sq"
    by (rule new_share_listed [OF assms(1,5,10-12)])
  with assms(17) have inv1: "sqlite_inv (lib_codec lib) (ap_db ap1)"
    and tabs1: "tabs (ap_db ap1) = (tabs (ap_db ap))\<lparr>shares := shares (tabs (ap_db ap)) @ [shared_row rqs a sq]\<rparr>"
    and sh: "sh \<in> set (map share_of (shares_seen (tabs (ap_db ap1)) ?b))" "sr_group_id sh = sq_group_id sq" "sr_owner_id sh = a"
      "sr_wrapped_group_key sh = sq_wrapped_group_key sq"
    by simp_all
  have count: "sqlite_counter (ap_db ap1) + int (length (pq_envelopes body)) \<le> i64_max" "c \<le> sqlite_counter (ap_db ap1)"
    using assms(18,30) create_share_counter [OF assms(17)] by simp_all
  have callers: "fst (caller ?sv rqa ap1) = Inr a" "fst (caller ?sv rqb ap1) = Inr ?b"
    using sqlite.caller_tokens [OF sv(1), of ap1 ap] assms(6,7) by (simp_all add: tabs1)
  have "finds (tabs (ap_db ap1)) a e ?b" using assms(21) by (simp add: finds_def shared_with_def tabs1 shared_row_def)
  then obtain es c2 where pulled: "pull_loop m ?sv rqb c ap2 = Some (Inr (es, c2))" "e\<lparr>e_seq := ac_seq x\<rparr> \<in> set es"
    by (rule sqlite.accepted_then_pull [OF sv(1) inv1 callers sv(2,3) count(1) assms(26,20,19,27-29) _ count(2) assms(31) m])
  obtain rs where tabs2: "tabs (ap_db ap2) = (tabs (ap_db ap1))\<lparr>records := rs\<rparr>"
    using push_frame [OF inv1 callers(1) count(1) assms(26)] by blast
  have "fst (caller ?sv rqb ap2) = Inr ?b" using sqlite.caller_tokens [OF sv(1), of ap2 ap1] callers(2) by (simp add: tabs2)
  then have "fst (mine ?sv rqb ap2) = Inr (map share_of (shares_seen (tabs (ap_db ap2)) ?b))"
    by (simp add: sqlite.mine_eq [OF sv(1)])
  moreover have "shares_seen (tabs (ap_db ap2)) ?b = shares_seen (tabs (ap_db ap1)) ?b" by (simp add: tabs2 shares_seen_def)
  moreover have "b64_decode (lib_codec lib) (sr_wrapped_group_key sh) = Inr blob"
    using sqlite.inv_codec [OF assms(1)] by (simp add: sh(4) assms(16) codec_okD)
  moreover have "unwrap_with pr secret blob = Inr key"
    using wrap_total [OF assms(2-4,13,14), of generated secret] assms(15) by auto
  ultimately show ?thesis
    using sh(1-3) pulled sealed_json_opens [of pr to_vec v j from_slice e key, OF assms(2,22-25)]
    by (intro exI [of _ "map share_of (shares_seen (tabs (ap_db ap1)) ?b)"] exI [of _ sh] exI [of _ blob] exI [of _ key]
        exI [of _ es] exI [of _ c2] exI [of _ "e\<lparr>e_seq := ac_seq x\<rparr>"]) simp
qed

theorem shared_record_opens_for_its_member_witness:
  "\<exists>blob shared ap1 resp ap2 ss sh wrapped k es c2 e'.
     wrap_for sample_primitives [5] (replicate 24 1) (x25519_public sample_primitives [6]) (replicate 32 9) = Inr blob \<and>
     create_share demo_server ada \<lparr>sq_group_id = ''g2'', sq_user_id = ''v'', sq_wrapped_group_key = b64_encode (lib_codec sample_lib) blob\<rparr>
       shared_app = (shared, ap1) \<and>
     push demo_server ada \<lparr>pq_envelopes = [sealed_envelope ''g2'']\<rparr> ap1 = (Inr resp, ap2) \<and>
     fst (mine demo_server bob ap2) = Inr ss \<and> sh \<in> set ss \<and> b64_decode (lib_codec sample_lib) (sr_wrapped_group_key sh) = Inr wrapped \<and>
     unwrap_with sample_primitives [6] wrapped = Inr k \<and> pull_loop 1 demo_server bob 0 ap2 = Some (Inr (es, c2)) \<and> e' \<in> set es \<and>
     open_json sample_from_slice sample_primitives k (aad e') (e_nonce e') (e_ciphertext e') = Inr sample_setting"
proof -
  obtain blob where w: "wrap_for sample_primitives [5] (replicate 24 1) (x25519_public sample_primitives [6]) (replicate 32 9) = Inr blob"
    using wrap_total [OF sample_primitives_ok(1,3,2), of "replicate 32 9" "replicate 24 1" "[5]" "[6]"] by auto
  let ?sq = "\<lparr>sq_group_id = ''g2'', sq_user_id = ''v'', sq_wrapped_group_key = b64_encode (lib_codec sample_lib) blob\<rparr>"
  let ?body = "\<lparr>pq_envelopes = [sealed_envelope ''g2'']\<rparr>"
  have sv: "sv_store demo_server = sqlite_store (lib_codec sample_lib)" by (simp add: demo_server_def)
  have sq: "sq_user_id ?sq \<noteq> ''u''" "has_account (tabs (ap_db shared_app)) (sq_user_id ?sq)"
    "row_at share_key (sq_group_id ?sq, sq_user_id ?sq) (shares (tabs (ap_db shared_app))) = None"
    by (simp_all add: shared_app_def shared_tables_def has_account_def sample_account_def share_key_def)
  have bob: "fst (caller demo_server bob shared_app) = Inr (sq_user_id ?sq)" by (simp add: shared_callers)
  obtain ap1 sh where share: "create_share demo_server ada ?sq shared_app = (Inr (), ap1)" "sqlite_inv (lib_codec sample_lib) (ap_db ap1)"
    "tabs (ap_db ap1) = (tabs (ap_db shared_app))\<lparr>shares := shares (tabs (ap_db shared_app)) @ [shared_row ada ''u'' ?sq]\<rparr>"
    "sh \<in> set (map share_of (shares_seen (tabs (ap_db ap1)) (sq_user_id ?sq)))"
    "sr_group_id sh = sq_group_id ?sq" "sr_owner_id sh = ''u''" "sr_wrapped_group_key sh = sq_wrapped_group_key ?sq"
    unfolding demo_server_def by (rule new_share_listed [OF shared_app_inv shared_callers(1) [unfolded demo_server_def] sq])
  have ada: "fst (caller demo_server ada ap1) = Inr ''u''"
    using sqlite.caller_tokens [OF sv, of ap1 shared_app ada] shared_callers(1) by (simp add: share(3))
  have q: "sqlite_counter (ap_db ap1) = 7" "sqlite_counter (ap_db shared_app) = 7"
    using create_share_counter [OF share(1) [unfolded demo_server_def]] by (simp_all add: shared_app_def sqlite_counter_def)
  obtain resp ap2 where p: "push demo_server ada ?body ap1 = (Inr resp, ap2)"
    "ps_accepted resp = [\<lparr>ac_id = ''h1'', ac_kind = ''host'', ac_seq = sqlite_counter (ap_db ap1) + 1\<rparr>]"
    "length (records (tabs (ap_db ap2))) = 1"
    by (rule sealed_envelope_push [OF share(2) ada, of "shares (tabs (ap_db shared_app))" "shared_row ada ''u'' ?sq" "''g2''"])
      (simp_all add: share(3) q i64_max_def, simp_all add: shared_row_def shared_app_def shared_tables_def)
  have "\<exists>ss sh wrapped k es c2 e'. fst (mine demo_server bob ap2) = Inr ss \<and> sh \<in> set ss \<and>
    sr_group_id sh = sq_group_id ?sq \<and> sr_owner_id sh = ''u'' \<and>
    b64_decode (lib_codec sample_lib) (sr_wrapped_group_key sh) = Inr wrapped \<and> unwrap_with sample_primitives [6] wrapped = Inr k \<and>
    pull_loop 1 demo_server bob 0 ap2 = Some (Inr (es, c2)) \<and> e' \<in> set es \<and> e_id e' = e_id (sealed_envelope ''g2'') \<and>
    open_json sample_from_slice sample_primitives k (aad e') (e_nonce e') (e_ciphertext e') = Inr sample_setting"
    unfolding demo_server_def
    by (rule shared_record_opens_for_its_member [OF shared_app_inv sample_primitives_ok(1,3,2)
          shared_callers(1,1) [unfolded demo_server_def] bob [unfolded demo_server_def] _ _ sq _ _ w _ share(1) [unfolded demo_server_def] _ _ _ _
          _ _ _ _ p(1) [unfolded demo_server_def],
          where e = "sealed_envelope ''g2''" and to_vec = sample_to_vec and j = "as_bytes ''dark''"
            and x = "\<lparr>ac_id = ''h1'', ac_kind = ''host'', ac_seq = sqlite_counter (ap_db ap1) + 1\<rparr>"])
      (use p q in \<open>simp_all add: default_config_def i64_max_def sealed_envelope_fields sealed_envelope_sealed\<close>,
        simp_all add: sample_to_vec_def sample_from_slice_def sample_setting_def)
  with w share(1) p(1) show ?thesis by blast
qed

end
