(* ===== verification/Authority.thy ===== *)
theory Authority
  imports Interleaving Access
begin

text \<open>
  What a call behind the bearer token may change. Each such handler asks for the caller first and then acts for the account it was
  told, whatever other requests do between its store calls. Here are the bounds on those acts: in the tables of accounts, tokens,
  devices and shares, everything that is not the caller's stays, but for one thing, the wrapped key of somebody else's share.
\<close>

section \<open>Acts of an account\<close>

definition leaves_others :: "string \<Rightarrow> tables \<Rightarrow> tables \<Rightarrow> bool" where
  "leaves_others a t t' \<longleftrightarrow>
     map ar_id (accounts t') = map ar_id (accounts t) \<and> map ar_email (accounts t') = map ar_email (accounts t) \<and>
     filter (\<lambda>r. ar_id r \<noteq> a) (accounts t') = filter (\<lambda>r. ar_id r \<noteq> a) (accounts t) \<and>
     set (tokens t') \<subseteq> set (tokens t) \<and>
     filter (\<lambda>k. t_account_id k \<noteq> a) (tokens t') = filter (\<lambda>k. t_account_id k \<noteq> a) (tokens t) \<and>
     devices t' = devices t \<and>
     (\<forall>h \<in> set (shares t). sh_owner_id h \<noteq> a \<longrightarrow> share_key h \<in> share_key ` set (shares t')) \<and>
     (\<forall>h \<in> set (shares t'). sh_owner_id h \<noteq> a \<longrightarrow> (\<exists>w. h\<lparr>sh_wrapped_group_key := w\<rparr> \<in> set (shares t)))"

lemma own_key: "h \<in> set ss \<Longrightarrow> \<exists>w. h\<lparr>sh_wrapped_group_key := w\<rparr> \<in> set ss"
  by (rule exI [of _ "sh_wrapped_group_key h"]) simp

lemma leaves_same: "leaves_others a t t"
  by (simp add: leaves_others_def own_key)

text \<open>Records change under a push only.\<close>

definition acts :: "string \<Rightarrow> bool \<Rightarrow> sqlite_db app \<Rightarrow> sqlite_db app \<Rightarrow> bool" where
  "acts a pushes s s' \<longleftrightarrow> leaves_others a (tabs (ap_db s)) (tabs (ap_db s')) \<and>
     (pushes \<or> records (tabs (ap_db s')) = records (tabs (ap_db s))) \<and> ap_limit s' = ap_limit s"

lemma acts_on_db: "acts a pushes s (snd (on_db m s)) \<longleftrightarrow> leaves_others a (tabs (ap_db s)) (tabs (snd (m (ap_db s)))) \<and>
    (pushes \<or> records (tabs (snd (m (ap_db s)))) = records (tabs (ap_db s)))"
  by (simp add: acts_def)

lemma acts_read: "snd (m (ap_db s)) = ap_db s \<Longrightarrow> acts a pushes s (snd (on_db m s))"
  by (simp add: acts_on_db leaves_same)

lemma sqlite_reads_keep:
  "snd (s_account_by_id (sqlite_store cd) i db) = db" "snd (s_account_by_email (sqlite_store cd) m db) = db"
  "snd (s_take_token (sqlite_store cd) now h k db) = db" "snd (s_pull (sqlite_store cd) a c l db) = db"
  "snd (s_max_seq (sqlite_store cd) a db) = db" "snd (s_shares_for_group (sqlite_store cd) a g db) = db"
  "snd (s_shares_for_user (sqlite_store cd) a db) = db" "snd (s_share_owner (sqlite_store cd) g db) = db"
  "snd (s_can_write_group (sqlite_store cd) a g db) = db" "snd (s_devices (sqlite_store cd) a db) = db"
  by (simp_all add: sqlite_store_def sqlite_read_defs sqlite_pull_def Let_def split: option.split)

lemma leaves_others_writes:
  "leaves_others a t (t\<lparr>records := rs\<rparr>)"
  "leaves_others a t (t\<lparr>tokens := filter (\<lambda>k. t_account_id k \<noteq> a) (tokens t)\<rparr>)"
  "leaves_others a t (t\<lparr>accounts := map (\<lambda>r. if ar_id r = a then rewrap_row n r else r) (accounts t)\<rparr>)"
  "(\<And>h. \<not> p h \<Longrightarrow> sh_owner_id h = a) \<Longrightarrow> leaves_others a t (t\<lparr>shares := filter p (shares t)\<rparr>)"
proof -
  show "leaves_others a t (t\<lparr>records := rs\<rparr>)"
    "leaves_others a t (t\<lparr>tokens := filter (\<lambda>k. t_account_id k \<noteq> a) (tokens t)\<rparr>)"
    by (auto simp: leaves_others_def own_key)
  have "filter (\<lambda>r. ar_id r \<noteq> a) (map (\<lambda>r. if ar_id r = a then rewrap_row n r else r) rs) = filter (\<lambda>r. ar_id r \<noteq> a) rs" for rs
    by (induction rs) (auto simp: rewrap_row_def)
  then show "leaves_others a t (t\<lparr>accounts := map (\<lambda>r. if ar_id r = a then rewrap_row n r else r) (accounts t)\<rparr>)"
    by (auto simp: leaves_others_def own_key rewrap_row_def)
  show "leaves_others a t (t\<lparr>shares := filter p (shares t)\<rparr>)" if "\<And>h. \<not> p h \<Longrightarrow> sh_owner_id h = a"
    using that by (force simp: leaves_others_def own_key)
qed

lemma leaves_others_share:
  assumes "sh_owner_id new = a"
  shows "leaves_others a t (t\<lparr>shares := fst (upsert share_key share_on_conflict new (shares t))\<rparr>)"
proof -
  let ?ss = "fst (upsert share_key share_on_conflict new (shares t))"
  have "share_key ` set (shares t) \<subseteq> share_key ` set ?ss"
    using arg_cong [OF share_table.keys [of new "shares t"], of set] by auto
  moreover have "\<exists>w. h\<lparr>sh_wrapped_group_key := w\<rparr> \<in> set (shares t)" if h: "h \<in> set ?ss" "sh_owner_id h \<noteq> a" for h
  proof (cases "h \<in> set (shares t)")
    case True
    then show ?thesis by (rule own_key)
  next
    case False
    with set_upsertD [OF h(1)] have "snd (upsert share_key share_on_conflict new (shares t)) = Some h" by blast
    then obtain old where old: "row_at share_key (share_key new) (shares t) = Some old"
      "h = old\<lparr>sh_wrapped_group_key := sh_wrapped_group_key new\<rparr>"
      using h(2) assms by (auto simp: upsert_returns share_on_conflict_def split: option.splits)
    then have "h\<lparr>sh_wrapped_group_key := sh_wrapped_group_key old\<rparr> = old" by simp
    then show ?thesis using row_at_Some [OF old(1)] by metis
  qed
  ultimately show ?thesis by (auto simp: leaves_others_def)
qed

lemma sqlite_acts:
  "acts a True s (snd (on_db (s_put_envelope (sqlite_store cd) x e) s))"
  "acts a False s (snd (on_db (s_revoke_account_tokens (sqlite_store cd) a) s))"
  "acts a False s (snd (on_db (s_rewrap_account (sqlite_store cd) a n) s))"
  "acts a False s (snd (on_db (s_put_share (sqlite_store cd) now a g u w) s))"
  "acts a False s (snd (on_db (s_delete_share (sqlite_store cd) a g u) s))"
proof -
  let ?new = "\<lparr>sh_group_id = g, sh_owner_id = a, sh_user_id = u, sh_wrapped_group_key = w, sh_created_at = now_ms now\<rparr>"
  let ?t = "tabs (ap_db s)"
  have "checked_upsert share_key share_on_conflict (has_account ?t a \<and> has_account ?t u) ?new (shares ?t) = Inr (ss, r) \<Longrightarrow>
      leaves_others a ?t (?t\<lparr>shares := ss\<rparr>)" for ss r
    using leaves_others_share [of ?new a ?t] by (simp add: checked_upsert_Inr) (metis fst_conv)
  then show "acts a False s (snd (on_db (s_put_share (sqlite_store cd) now a g u w) s))"
    by (auto simp: acts_on_db sqlite_store_def sqlite_put_share_def split_beta leaves_same split: sum.split)
  show "acts a True s (snd (on_db (s_put_envelope (sqlite_store cd) x e) s))"
    "acts a False s (snd (on_db (s_revoke_account_tokens (sqlite_store cd) a) s))"
    "acts a False s (snd (on_db (s_rewrap_account (sqlite_store cd) a n) s))"
    "acts a False s (snd (on_db (s_delete_share (sqlite_store cd) a g u) s))"
    unfolding acts_on_db
    by (auto simp: sqlite_store_def sqlite_put_envelope_def sqlite_revoke_account_tokens_def sqlite_rewrap_account_def
        sqlite_delete_share_def split_beta leaves_same intro!: leaves_others_writes split: option.split sum.split)
qed

section \<open>Every call behind the token\<close>

fun is_push :: "api_call \<Rightarrow> bool" where
  "is_push (Push _) = True"
| "is_push _ = False"

definition asks_first :: "sqlite_db server \<Rightarrow> request \<Rightarrow> bool \<Rightarrow> (sqlite_db app, 'a) prog \<Rightarrow> bool" where
  "asks_first sv rq pushes p \<longleftrightarrow> (\<exists>k. p = await (caller sv rq) k \<and> (\<forall>a. obeys (acts a pushes) (k a)))"

lemma asks_firstI: "(\<And>a. obeys (acts a pushes) (k a)) \<Longrightarrow> asks_first sv rq pushes (await (caller sv rq) k)"
  unfolding asks_first_def by blast

lemma map_prog_await: "map_prog f (await m k) = await m (\<lambda>x. map_prog f (k x))"
  by (auto simp: await_def fun_eq_iff split: prod.split sum.split)

lemma asks_first_map:
  assumes "asks_first sv rq pushes p"
  shows "asks_first sv rq pushes (map_prog f p)"
proof -
  from assms obtain k where k: "p = await (caller sv rq) k" "\<And>a. obeys (acts a pushes) (k a)" unfolding asks_first_def by blast
  then show ?thesis by (auto simp: map_prog_await intro!: asks_firstI obeys_map_prog)
qed

lemma obeys_last: "(\<And>s. R s (snd (m s))) \<Longrightarrow> obeys R (last_step m)"
  unfolding last_step_def by (intro obeys_step) simp_all

lemma sqlite_calls_ask_first:
  fixes cf lib dummy
  defines "sv \<equiv> sqlite_server cf lib dummy"
  shows "asks_first sv rq False (logout_steps sv rq)" "asks_first sv rq False (keys_steps sv rq)"
    "asks_first sv rq False (lookup_steps sv rq m)" "asks_first sv rq False (pull_steps sv rq c)"
    "asks_first sv rq False (mine_steps sv rq)" "asks_first sv rq False (create_share_steps sv rq q)"
    "asks_first sv rq False (list_shares_steps sv rq g)" "asks_first sv rq False (remove_share_steps sv rq g u)"
    "asks_first sv rq False (list_devices_steps sv rq)" "asks_first sv rq True (push_steps sv rq b)"
  unfolding sv_def logout_steps_def keys_steps_def lookup_steps_def pull_steps_def push_steps_def mine_steps_def
    create_share_steps_def list_shares_steps_def remove_share_steps_def list_devices_steps_def Let_def server_simps
  by (intro asks_firstI obeys_step obeys_last obeys_simple push_loop_obeys [where sv = "sqlite_server cf lib dummy", unfolded server_simps]
      acts_read sqlite_reads_keep sqlite_acts)+

text \<open>A rewrap looks the caller's account up and writes under the id it finds there, which is the caller's.\<close>

lemma sqlite_rewrap_asks_first: "asks_first (sqlite_server cf lib dummy) rq False (rewrap_steps (sqlite_server cf lib dummy) rq body)"
proof -
  have "a_id acc = a" if "fst (on_db (s_account_by_id (sqlite_store (lib_codec lib)) a) s) = Inr (Some acc)" for a acc and s :: "sqlite_db app"
    using that row_at_Some [of ar_id a "accounts (tabs (ap_db s))"]
    by (auto simp: sqlite_store_def sqlite_account_by_id_def account_from_row_def)
  note id = this
  have writes: "obeys (acts (a_id acc) False) (done_result r1 (\<lambda>h1. done_result r2 (\<lambda>h2.
      await (on_db (s_rewrap_account (sqlite_store cd) (a_id acc) (n h1 h2))) (\<lambda>_.
      last_step (on_db (s_revoke_account_tokens (sqlite_store cd) (a_id acc)))))))" for acc r1 r2 n cd
    by (intro obeys_simple obeys_step obeys_last sqlite_acts)
  have found: "obeys (acts a False) (done_or NotFound v h)"
    if "\<And>acc. v = Some acc \<Longrightarrow> a_id acc = a" "\<And>acc. obeys (acts (a_id acc) False) (h acc)"
    for a and v :: "account option" and h :: "account \<Rightarrow> (sqlite_db app, unit) prog"
    using that by (cases v) (auto simp: done_or_def)
  show ?thesis
    unfolding rewrap_steps_def server_simps
    by (intro asks_firstI obeys_step found writes acts_read sqlite_reads_keep) (rule id, simp)
qed

lemma sqlite_call_asks_first:
  "needs_session call \<Longrightarrow> asks_first (sqlite_server cf lib dummy) rq (is_push call) (handle_steps (sqlite_server cf lib dummy) rq call)"
  by (cases call) (simp_all add: asks_first_map sqlite_calls_ask_first sqlite_rewrap_asks_first)

lemma promises_obeys:
  "obeys R p \<Longrightarrow> (\<And>own' s s'. R s s' \<Longrightarrow> P (own @ own') s s') \<Longrightarrow> promises P p own"
proof (induction p arbitrary: own)
  case (Finished r)
  show ?case by simp
next
  case (Await f)
  have "promises P (fst (f s)) (own @ [(s, snd (f s))])" for s
  proof (rule Await.IH [of "f s" "fst (f s)"])
    show "f s \<in> range f" "fst (f s) \<in> Basic_BNFs.fsts (f s)" by (simp_all add: fsts.intros)
    show "obeys R (fst (f s))" using Await.prems(1) unfolding obeys_Await by blast
    show "P ((own @ [(s, snd (f s))]) @ own') t t'" if "R t t'" for own' t t' using Await.prems(2) [OF that] by simp
  qed
  moreover have "P own s (snd (f s))" for s using Await.prems(2) [of s "snd (f s)" "[]"] Await.prems(1) unfolding obeys_Await by simp
  ultimately show ?case by (simp add: split_beta)
qed

definition within_authority :: "sqlite_db server \<Rightarrow> request \<Rightarrow> bool \<Rightarrow> (sqlite_db app \<times> sqlite_db app) list \<Rightarrow> sqlite_db app \<Rightarrow> sqlite_db app \<Rightarrow> bool" where
  "within_authority sv rq pushes own s s' \<longleftrightarrow>
     (if own = [] then s' = s
      else \<exists>a. fst (caller sv rq (fst (own ! 0))) = Inr a \<and> acts a pushes s s')"

lemma sqlite_call_promises:
  assumes "needs_session call"
  shows "promises (within_authority (sqlite_server cf lib dummy) rq (is_push call)) (handle_steps (sqlite_server cf lib dummy) rq call) []"
proof -
  let ?sv = "sqlite_server cf lib dummy"
  obtain k where k: "handle_steps ?sv rq call = await (caller ?sv rq) k" "\<And>a. obeys (acts a (is_push call)) (k a)"
    using sqlite_call_asks_first [OF assms] unfolding asks_first_def by blast
  have read: "snd (caller ?sv rq s) = s" for s by (rule sqlite.caller_read) simp
  show ?thesis
    unfolding k(1) promises_await read
    by (auto simp: within_authority_def intro!: promises_obeys [OF k(2)])
qed

text \<open>C5: a call behind the token acts for its caller alone. Whatever other requests do between its store calls, the first step of such a
  call reads who its token names and changes nothing, and every later step acts within that account's authority: no
  account appears, no address changes and no other account's row does; no token appears and no other account's goes; no device
  changes; no share of another owner goes, or changes in anything but the wrapped key; and records change under a push only.\<close>

theorem overlapped_call_acts_as_its_caller:
  assumes "along others (handle_steps (sqlite_server cf lib dummy) rq call, ap) own (rest, ap')" "needs_session call"
  shows "\<forall>i < length own. if i = 0 then snd (own ! 0) = fst (own ! 0)
    else \<exists>a. fst (caller (sqlite_server cf lib dummy) rq (fst (own ! 0))) = Inr a \<and>
      leaves_others a (tabs (ap_db (fst (own ! i)))) (tabs (ap_db (snd (own ! i)))) \<and>
      (records (tabs (ap_db (snd (own ! i)))) = records (tabs (ap_db (fst (own ! i)))) \<or> (\<exists>b. call = Push b))"
proof (intro allI impI)
  fix i
  assume i: "i < length own"
  have "promises (within_authority (sqlite_server cf lib dummy) rq (is_push call)) (fst (handle_steps (sqlite_server cf lib dummy) rq call, ap)) []"
    using sqlite_call_promises [OF assms(2)] by simp
  from along_promises [OF assms(1) this] have "within_authority (sqlite_server cf lib dummy) rq (is_push call) (take i own) (fst (own ! i)) (snd (own ! i))"
    using i by blast
  moreover have "is_push call \<Longrightarrow> \<exists>b. call = Push b" by (cases call) auto
  moreover have "i \<noteq> 0 \<Longrightarrow> take i own ! 0 = own ! 0" "i \<noteq> 0 \<Longrightarrow> own \<noteq> []" using i by auto
  ultimately show "if i = 0 then snd (own ! 0) = fst (own ! 0)
    else \<exists>a. fst (caller (sqlite_server cf lib dummy) rq (fst (own ! 0))) = Inr a \<and>
      leaves_others a (tabs (ap_db (fst (own ! i)))) (tabs (ap_db (snd (own ! i)))) \<and>
      (records (tabs (ap_db (snd (own ! i)))) = records (tabs (ap_db (fst (own ! i)))) \<or> (\<exists>b. call = Push b))"
    by (auto simp: within_authority_def acts_def)
qed

text \<open>Ada stops sharing with Bob; between her two steps Carol replaces the key Bob was given.\<close>

theorem overlapped_call_acts_as_its_caller_witness:
  "\<exists>own rest ap' h. along (\<lambda>x y. y = snd (create_share demo_server carol hijack x))
       (handle_steps demo_server ada (RemoveShare ''g1'' ''v''), shared_app) own (rest, ap') \<and> length own = 2 \<and>
     leaves_others ''u'' (tabs (ap_db (fst (own ! 1)))) (tabs (ap_db (snd (own ! 1)))) \<and>
     h \<in> set (shares (tabs (ap_db (fst (own ! 1))))) \<and> h \<notin> set (shares (tabs (ap_db (snd (own ! 1)))))"
proof -
  let ?others = "\<lambda>x y. y = snd (create_share demo_server carol hijack x)" and ?call = "RemoveShare ''g1'' ''v''"
  let ?m = "\<lambda>a. on_db (s_delete_share (sv_store demo_server) a ''g1'' ''v'')"
  let ?h = "\<lparr>sh_group_id = ''g1'', sh_owner_id = ''u'', sh_user_id = ''v'', sh_wrapped_group_key = ''evil'', sh_created_at = 1\<rparr>"
  have sv: "sv_store demo_server = sqlite_store (lib_codec sample_lib)" by (simp add: demo_server_def)
  have u: "sq_user_id hijack \<noteq> ''w''" "has_account (tabs (ap_db shared_app)) (sq_user_id hijack)"
    by (simp_all add: hijack_def shared_app_def shared_tables_def has_account_def sample_account_def)
  obtain ap1 where hij: "create_share demo_server carol hijack shared_app = (Inr (), ap1)" "sqlite_inv (lib_codec sample_lib) (ap_db ap1)"
    "ap_limit ap1 = ap_limit shared_app" "tabs (ap_db ap1) = (tabs (ap_db shared_app))\<lparr>shares :=
       fst (upsert share_key share_on_conflict (shared_row carol ''w'' hijack) (shares (tabs (ap_db shared_app))))\<rparr>"
    by (rule sqlite.create_share_ok [OF sv shared_app_inv shared_callers(3) u])
  have h: "?h \<in> set (shares (tabs (ap_db ap1)))"
    by (simp add: hij(4) shared_app_def shared_tables_def upsert_def share_key_def share_on_conflict_def shared_row_def hijack_def)
  have steps: "handle_steps demo_server ada ?call = await (caller demo_server ada) (\<lambda>a. await (?m a) (\<lambda>x. map_prog (\<lambda>_. R_unit) (Finished (Inr x))))"
    by (simp add: remove_share_steps_def last_step_def map_prog_await)
  have c: "caller demo_server ada shared_app = (Inr ''u'', shared_app)"
    using shared_callers(1) sqlite.caller_read [OF sv, of ada shared_app] by (simp add: prod_eq_iff)
  obtain ap2 where d: "?m ''u'' ap1 = (Inr (), ap2)" "?h \<notin> set (shares (tabs (ap_db ap2)))"
    by (simp add: on_db_def sv sqlite_store_def sqlite_delete_share_def)
  have "along ?others (handle_steps demo_server ada ?call, shared_app) ([] @ [(shared_app, shared_app)])
      (await (?m ''u'') (\<lambda>x. map_prog (\<lambda>_. R_unit) (Finished (Inr x))), shared_app)"
    unfolding steps by (rule along_await [where m = "caller demo_server ada"]) (rule along.begins, rule c)
  then have "along ?others (handle_steps demo_server ada ?call, shared_app) ([] @ [(shared_app, shared_app)])
      (await (?m ''u'') (\<lambda>x. map_prog (\<lambda>_. R_unit) (Finished (Inr x))), ap1)"
    by (rule along.other) (simp add: hij(1))
  from along_await [OF this d(1)]
  have run: "along ?others (handle_steps demo_server ada ?call, shared_app) [(shared_app, shared_app), (ap1, ap2)]
      (map_prog (\<lambda>_. R_unit) (Finished (Inr ())), ap2)" by simp
  from overlapped_call_acts_as_its_caller [OF run [unfolded demo_server_def], folded demo_server_def, rule_format, of 1] c
  have "leaves_others ''u'' (tabs (ap_db ap1)) (tabs (ap_db ap2))" by simp
  with run h d(2) show ?thesis by (intro exI [of _ "[(shared_app, shared_app), (ap1, ap2)]"] exI [of _ ?h]) auto
qed

end
