(* ===== verification/Spec2Isabelle.thy ===== *)
theory Spec2Isabelle
  imports Access Progress Credentials Pg_Interleaving Interleaving Session_Overlap Answers Startup Typing
    End_To_End Authority
begin

text \<open>
  \<^bold>\<open>Remotier Sync\<close>: a model of the sync server and of the wire crate its clients share, and the theorems
  that make them correct.

  \<^bold>\<open>The program.\<close> Clients seal records (hosts, groups, settings, ...) into envelopes and push them to a server that
  cannot read them. The server keeps, per account, the newest version of each record by last-write-wins, numbers every
  write with one counter for the instance, and hands records out in that order from a cursor on. A group can be
  shared: its records are filed under the owner and are visible to every member. A conflict is settled twice with one
  rule: in SQL when a record is stored, and by \<open>resolve\<close> on each client. \<^verbatim>\<open>crates/remotier-sync-proto\<close> holds
  the wire types, the merge rule and the cryptography; \<^verbatim>\<open>server\<close> the HTTP handlers over a \<open>Store\<close> trait with
  an SQLite and a Postgres implementation.

  \<^bold>\<open>How it is modelled.\<close> A struct is a record, an enum a datatype; field names carry a prefix. A \<open>String\<close> is
  the list of its UTF-8 bytes as characters, a \<open>Vec<u8>\<close> a list of 8-bit words, an \<open>i64\<close> an integer
  whose sums wrap by \<open>i64_wrap\<close> where the source does not guard them. A fallible function returns a sum, the
  error on the left. A handler is an operation \<open>state \<Rightarrow> (error + value) \<times> state\<close> (\<open>op\<close> in
  \<open>Prelude\<close>), and \<open>bind_op\<close> is \<open>?\<close>: a later step does not run after an error, and
  what earlier steps did to the state stays. Clock readings and random bytes are fields of the \<open>request\<close>, one for
  each call that draws one, so every run of the program is a choice of them. A table is a list of rows; the order of the list
  is the order of an unordered scan, which SQL leaves open (it shows in \<open>share_owner\<close>, whose query has a limit
  and no order). Third-party code is a parameter: \<open>codec\<close> (base64, JSON, hex, Unicode case), \<open>platform\<close>
  (SHA-256, Argon2, header text), \<open>primitives\<close> (the client's ciphers), the collation of a Postgres database, \<open>os\<close> (opening a database,
  listening, TCP). What
  is assumed of them has a name (\<open>codec_ok\<close>, \<open>lower_ok\<close>, \<open>hashing_ok\<close>,
  \<open>aead_ok\<close>, \<open>exchange_ok\<close>, \<open>kdf_ok\<close>, the locale \<open>collation\<close>) and a concrete instance
  in the same theory.

  \<^bold>\<open>The theories.\<close>
  \<^item> \<open>Prelude\<close>, \<open>Rust_Text\<close>, \<open>Sql_Table\<close>: machine integers, operations, the string functions of
    the standard library, upserts over keyed rows (locale \<open>keyed_table\<close>, interpreted for each table).
  \<^item> \<open>Wire_Record\<close>, \<open>Wire_Payload\<close> (\<^verbatim>\<open>record.rs\<close>), \<open>Wire_Merge\<close> (\<^verbatim>\<open>merge.rs\<close>),
    \<open>Wire_Api\<close> (\<^verbatim>\<open>api.rs\<close>): record kinds, envelopes and their associated data, payloads, the merge rule,
    requests and responses. The locale \<open>lww\<close> is a last-write-wins order; folding versions with it does not depend
    on their order, which gives the convergence of the clients and of the store.
  \<^item> \<open>Crypto\<close>, \<open>Crypto_Facts\<close>, \<open>Credentials\<close> (\<^verbatim>\<open>crypto.rs\<close>): the key hierarchy, sealing, the box a
    group key travels in, recovery codes. Round trips; the binding of a sealed record to its identity, as a
    reduction to a forgery of the cipher; which spellings of an address or a code give the same keys.
  \<^item> \<open>Server_Error\<close>, \<open>Server_Config\<close>, \<open>Server_Ratelimit\<close>, \<open>Server_Auth\<close>,
    \<open>Server_Instance\<close>: error responses, the configuration, the limiter (equal to a sliding-window log), tokens and the
    \<open>Caller\<close> extractor, start-up and the health probe.
  \<^item> \<open>Store_Schema\<close>, \<open>Store_Trait\<close>, \<open>Store_Sqlite\<close>, \<open>Store_Postgres\<close>: the tables and
    their well-formedness; the trait as a record of operations; both implementations method by method. The locale
    \<open>store_contract\<close> is the contract the handlers rely on, interpreted by SQLite and, under any
    collation that is a strict linear order, by Postgres: all lemmas on handlers are proved once in it.
  \<^item> \<open>Routes_Auth\<close>, \<open>Routes_Sync\<close>, \<open>Routes_Shares\<close>: the handlers. \<open>Sessions\<close>, \<open>Sync\<close>,
    \<open>Convergence\<close>: what they guarantee together: sessions end to end; a push is a cache-free reference
    run (\<open>push_run\<close>) over the tables; pagination is complete; the order of a batch does not matter where a clock identifies a version, and a
    retried push changes nothing.
  \<^item> \<open>System\<close>, \<open>Access\<close>, \<open>Progress\<close>: the router, the states a run can reach (\<open>reach\<close>, by any
    requests in any order) and what holds in all of them: well-formed tables, a 401 exactly without a live token, a
    429 exactly from the limiter, a history that only grows.
  \<^item> \<open>Answers\<close>, \<open>Typing\<close>: the first check each request fails is the error it is answered with; every integer the model
    keeps unbounded stays an \<^verbatim>\<open>i64\<close> (locale \<open>typed_store\<close>, interpreted by both stores).
  \<^item> \<open>Startup\<close>: \<^verbatim>\<open>main\<close>, both \<^verbatim>\<open>connect\<close> functions and the health probe over the operating system and the
    drivers as a record \<open>os\<close>; what a restart keeps, and what the probe reports.
  \<^item> \<open>Handler_Steps\<close>: handlers cut at their store calls (\<open>prog\<close>), with a proof for each that the steps put together
    are the handler; any number of handlers taking steps in any order (\<open>overlap\<close>), and one handler with anything at
    all happening between its steps (\<open>along\<close>). \<open>Concurrency\<close>: overlapping uses of one refresh token, of which exactly
    one is served. \<open>Session_Overlap\<close>: a login among other requests, and a change of password during it.
    \<open>Push_Overlap\<close>: a push during which groups are shared and revoked. \<open>Interleaving\<close>: all handlers cut, any number of
    requests in progress, and what holds of every interleaving (locale \<open>kept_by_store\<close>). \<open>Pg_Interleaving\<close>: Postgres statements that
    overlap, cut between \<open>nextval\<close> and commit.

  \<^bold>\<open>Bounds.\<close> \<open>pull_loop\<close> follows the cursor with a number of pages as fuel; the theorem on it takes any
  number that covers the log. The counter is assumed below the last \<open>i64\<close> by the number of records pushed where a push is
  said to succeed; the error at the end of the range is a branch of the stores (on SQLite the value read back is no integer any more and the
  driver's \<^verbatim>\<open>get\<close> panics: the transaction rolls back and the request ends without a response, for which the model has its error). Page sizes are positive and below the last
  \<open>i64\<close>, as every configuration \<open>from_env\<close> builds has them (500).

  \<^bold>\<open>Steps.\<close> The limiter holds its lock during a check (it reads the clock just before it takes the lock, so checks that overlap
  may be applied slightly out of the order of their instants; the comparison with a sliding-window log is for instants in order) and each write of the store is one statement or one transaction,
  but a handler makes several store calls, and another request may run between two of them. So there are two views of a run. In
  \<open>reach\<close> a request is one step; functional properties are stated there. In \<open>interleaved\<close> every handler is cut
  at its store calls, any number of requests are in progress, they take steps in any order and may be abandoned half
  way, and the server may restart; a run of \<open>reach\<close> is such a run. The invariants and the growth of the history are
  shown for \<open>interleaved\<close>, the bounds on what a call may change for \<open>along\<close>; where an interleaving decides a guarantee it is modelled on its own: overlapping uses of
  one refresh token, a login during which the password changes, a push during which groups are shared and revoked. Two things
  still count as one step: the insert of \<open>create_account\<close> with the read of the row that follows it, and a Postgres write,
  whose statement is cut in \<open>Pg_Interleaving\<close>, where that changes what a reader sees.

  \<^bold>\<open>Not modelled.\<close> The client application, which is not in the repository: \<open>End_To_End\<close> assumes of it only that it seals, encodes and
  sends as the comments of \<^verbatim>\<open>api.rs\<close> and \<^verbatim>\<open>crypto.rs\<close> say. The runtime (tokio, axum's extractors of JSON bodies and queries, tower layers, tracing, graceful
  shutdown), what a connection pool does with its options, log lines, the JSON text of requests and responses, the zeroing
  of keys, and timing: the dummy hash that makes an unknown address cost as much as a known one is in the model as a
  verification whose verdict is dropped. The tests are not modelled; what they exercise is proved. No statement of the server
  deletes an account, so \<open>ON DELETE CASCADE\<close> has no effect.
\<close>

end
